(* ===== verification/Prelude.thy ===== *)
theory Prelude
  imports Main "HOL-Library.Word" "HOL-Library.Multiset" "HOL-Library.Signed_Division"
begin

text \<open>
  Shared vocabulary of the development: the machine integers of the Go sources,
  results that may fail, the little-endian byte layout of \<^verbatim>\<open>encoding/binary\<close>, the running
  maximum that several loops compute, and the sorting contract of the package
  \<^verbatim>\<open>sort\<close> with the routine that package uses for short slices.
\<close>

named_theorems go_arith \<open>integer division and indexing facts of the layout arithmetic\<close>
named_theorems go_sort \<open>what a sorted slice keeps\<close>

unbundle bit_operations_syntax

section \<open>Machine integers and failing results\<close>

type_synonym u8 = "8 word"
type_synonym u16 = "16 word"
type_synonym u64 = "64 word"

text \<open>
  What a Go routine can do instead of returning: stop with a run-time panic or
  return an \<^verbatim>\<open>error\<close> value.
\<close>

datatype go_error =
    DivideByZero
  | SliceOutOfRange
  | IOError string
  | BadInput string

type_synonym 'a go_result = "go_error + 'a"

fun and_then :: "'a go_result \<Rightarrow> ('a \<Rightarrow> 'b go_result) \<Rightarrow> 'b go_result" where
  "and_then (Inl e) f = Inl e"
| "and_then (Inr x) f = f x"

lemma and_then_Inr_iff: "and_then r f = Inr y \<longleftrightarrow> (\<exists>x. r = Inr x \<and> f x = Inr y)"
  by (cases r) auto

text \<open>Go divides towards zero; on the operands the layout code uses this is \<open>div\<close>.\<close>

lemma sdiv_nonneg [go_arith]: "0 \<le> (a::int) \<Longrightarrow> 0 \<le> b \<Longrightarrow> a sdiv b = a div b"
  by (cases "a = 0"; cases "b = 0") (auto simp: signed_divide_int_def sgn_if)

section \<open>Little-endian byte layout\<close>

fun le_val :: "u8 list \<Rightarrow> nat" where
  "le_val [] = 0"
| "le_val (b # bs) = unat b + 256 * le_val bs"

fun le_bytes :: "nat \<Rightarrow> nat \<Rightarrow> u8 list" where
  "le_bytes 0 v = []"
| "le_bytes (Suc n) v = of_nat v # le_bytes n (v div 256)"

lemma length_le_bytes [simp]: "length (le_bytes n v) = n"
  by (induction n arbitrary: v) auto

lemma unat_byte: "unat (of_nat v :: u8) = v mod 256"
  by (simp add: unat_of_nat)

lemma le_val_le_bytes: "le_val (le_bytes n v) = v mod 256 ^ n"
proof (induction n arbitrary: v)
  case 0
  show ?case by simp
next
  case (Suc n)
  then show ?case
    by (simp add: unat_byte mod_mult2_eq)
qed

lemma le_val_bound: "le_val bs < 256 ^ length bs"
proof (induction bs)
  case Nil
  show ?case by simp
next
  case (Cons b bs)
  have "unat b < 256" using unsigned_less [of b, where ?'a = nat] by simp
  with Cons show ?case by simp
qed

lemma le_bytes_le_val: "le_bytes (length bs) (le_val bs) = bs"
proof (induction bs)
  case Nil
  show ?case by simp
next
  case (Cons b bs)
  have b: "unat b < 256" using unsigned_less [of b, where ?'a = nat] by simp
  then have "(unat b + 256 * le_val bs) div 256 = le_val bs" by simp
  moreover have "(of_nat (unat b + 256 * le_val bs) :: u8) = b"
    unfolding word_unat_eq_iff unat_byte using b by simp
  ultimately show ?case using Cons by simp
qed

text \<open>\<^verbatim>\<open>binary.LittleEndian.PutUint16\<close>, \<^verbatim>\<open>Uint16\<close> and their 64-bit forms.\<close>

definition put_u16 :: "u16 \<Rightarrow> u8 list" where
  "put_u16 w = le_bytes 2 (unat w)"

definition get_u16 :: "u8 list \<Rightarrow> u16" where
  "get_u16 bs = of_nat (le_val (take 2 bs))"

definition put_u64 :: "u64 \<Rightarrow> u8 list" where
  "put_u64 w = le_bytes 8 (unat w)"

definition get_u64 :: "u8 list \<Rightarrow> u64" where
  "get_u64 bs = of_nat (le_val (take 8 bs))"

lemma length_put [simp]: "length (put_u16 w) = 2" "length (put_u64 v) = 8"
  by (simp_all add: put_u16_def put_u64_def)

lemma get_put_u16 [simp]: "get_u16 (put_u16 w @ bs) = w"
proof -
  have "unat w mod 65536 = unat w" using unsigned_less [of w, where ?'a = nat] by simp
  then show ?thesis by (simp add: get_u16_def put_u16_def le_val_le_bytes)
qed

lemma get_put_u64 [simp]: "get_u64 (put_u64 w @ bs) = w"
proof -
  have "unat w mod 256 ^ 8 = unat w" using unsigned_less [of w, where ?'a = nat] by simp
  then show ?thesis by (simp add: get_u64_def put_u64_def le_val_le_bytes)
qed

text \<open>The 64-bit words of a byte buffer, a trailing partial word left out.\<close>

definition words_of :: "u8 list \<Rightarrow> u64 list" where
  "words_of bs = map (\<lambda>i. get_u64 (drop (8 * i) bs)) [0..<length bs div 8]"

lemma length_words_of [simp]: "length (words_of bs) = length bs div 8"
  by (simp add: words_of_def)

lemma nth_words_of: "i < length bs div 8 \<Longrightarrow> words_of bs ! i = get_u64 (drop (8 * i) bs)"
  by (simp add: words_of_def)

lemma get_u64_take: "8 \<le> n \<Longrightarrow> get_u64 (take n bs) = get_u64 bs"
  by (simp add: get_u64_def min_absorb1)

lemma words_of_take_drop:
  "words_of (take (8 * k) (drop (8 * p) bs)) = take k (drop p (words_of bs))"
proof (rule nth_equalityI)
  show len: "length (words_of (take (8 * k) (drop (8 * p) bs))) =
    length (take k (drop p (words_of bs)))"
    by (auto simp: min_def)
  fix i
  assume "i < length (words_of (take (8 * k) (drop (8 * p) bs)))"
  then have i: "i < k" "i < (length bs - 8 * p) div 8"
    by (auto simp: min_def split: if_splits)
  then have pi: "p + i < length bs div 8" by linarith
  have "words_of (take (8 * k) (drop (8 * p) bs)) ! i =
      get_u64 (take (8 * k - 8 * i) (drop (8 * (p + i)) bs))"
    using i by (subst nth_words_of) (auto simp: min_def drop_take algebra_simps)
  also have "\<dots> = get_u64 (drop (8 * (p + i)) bs)"
    using i by (intro get_u64_take) simp
  also have "\<dots> = take k (drop p (words_of bs)) ! i"
    using i pi by (simp add: nth_words_of)
  finally show "words_of (take (8 * k) (drop (8 * p) bs)) ! i =
    take k (drop p (words_of bs)) ! i" .
qed

lemma words_of_put: "words_of (put_u64 w @ bs) = w # words_of bs"
proof -
  have "length (put_u64 w @ bs) div 8 = Suc (length bs div 8)" by simp
  moreover have "[0..<Suc n] = 0 # map Suc [0..<n]" for n
    by (simp add: map_Suc_upt upt_conv_Cons del: upt_Suc)
  ultimately show ?thesis by (simp add: words_of_def comp_def del: upt_Suc)
qed

lemma words_of_concat: "words_of (concat (map put_u64 ws)) = ws"
  by (induction ws) (simp_all add: words_of_put, simp add: words_of_def)

text \<open>Reading the \<open>i\<close>-th of a row of records of one size.\<close>

lemma drop_chunks:
  assumes "\<forall>x \<in> set xs. length (f x) = n" and "i < length xs"
  shows "drop (i * n) (concat (map f xs) @ bs) = f (xs ! i) @ concat (map f (drop (Suc i) xs)) @ bs"
  using assms
proof (induction xs arbitrary: i)
  case Nil
  then show ?case by simp
next
  case (Cons x xs)
  then show ?case by (cases i) simp_all
qed

section \<open>Counting maps\<close>

text \<open>
  \<^verbatim>\<open>m[k] += n\<close> on a Go map from keys to counters. The map is kept as a list of its
  entries; where the sources range over one, that list is the order of the iteration,
  which Go leaves open.
\<close>

fun add_count :: "'k \<Rightarrow> 'v::monoid_add \<Rightarrow> ('k \<times> 'v) list \<Rightarrow> ('k \<times> 'v) list" where
  "add_count k n [] = [(k, n)]"
| "add_count k n ((k', m) # xs) =
     (if k = k' then (k', m + n) # xs else (k', m) # add_count k n xs)"

definition count_of :: "('k \<times> 'v::monoid_add) list \<Rightarrow> 'k \<Rightarrow> 'v" where
  "count_of xs k = (case map_of xs k of None \<Rightarrow> 0 | Some v \<Rightarrow> v)"

lemma count_of_Nil [simp]: "count_of [] k = 0"
  by (simp add: count_of_def)

lemma map_of_add_count:
  "map_of (add_count k n xs) = (map_of xs)(k \<mapsto> count_of xs k + n)"
  by (induction k n xs rule: add_count.induct) (auto simp: count_of_def fun_eq_iff)

lemma count_of_add_count:
  "count_of (add_count k n xs) k' = (if k' = k then count_of xs k + n else count_of xs k')"
  by (simp add: count_of_def [of "add_count k n xs"] map_of_add_count) (simp add: count_of_def)

lemma keys_add_count: "fst ` set (add_count k n xs) = insert k (fst ` set xs)"
  by (induction k n xs rule: add_count.induct) auto

lemma distinct_add_count:
  "distinct (map fst xs) \<Longrightarrow> distinct (map fst (add_count k n xs))"
  by (induction k n xs rule: add_count.induct) (auto simp: keys_add_count)

lemma length_add_count:
  "length (add_count k n xs) = (if k \<in> fst ` set xs then length xs else Suc (length xs))"
  by (induction k n xs rule: add_count.induct) auto

section \<open>The running maximum of a loop\<close>

text \<open>
  \<^verbatim>\<open>for _, x := range xs { if f(x) > f(pick) { pick = x } }\<close>: the first of the
  largest elements wins.
\<close>

definition first_max :: "('a \<Rightarrow> 'b::linorder) \<Rightarrow> 'a \<Rightarrow> 'a list \<Rightarrow> 'a" where
  "first_max f x xs = foldl (\<lambda>p y. if f p < f y then y else p) x xs"

lemma first_max_Nil [simp]: "first_max f x [] = x"
  by (simp add: first_max_def)

lemma first_max_Cons [simp]:
  "first_max f x (y # ys) = first_max f (if f x < f y then y else x) ys"
  by (simp add: first_max_def)

lemma first_max_mem: "first_max f x xs \<in> insert x (set xs)"
proof (induction xs arbitrary: x)
  case Nil
  show ?case by simp
next
  case (Cons y ys)
  show ?case
    using Cons.IH [of x] Cons.IH [of y] by auto
qed

lemma first_max_ge_start: "f x \<le> f (first_max f x xs)"
proof (induction xs arbitrary: x)
  case Nil
  show ?case by simp
next
  case (Cons y ys)
  show ?case
    using Cons.IH [of x] Cons.IH [of y] by auto
qed

lemma first_max_ge: "y \<in> insert x (set xs) \<Longrightarrow> f y \<le> f (first_max f x xs)"
proof (induction xs arbitrary: x)
  case Nil
  then show ?case by simp
next
  case (Cons z zs)
  show ?case
  proof (cases "y \<in> insert (if f x < f z then z else x) (set zs)")
    case True
    then show ?thesis using Cons.IH by simp
  next
    case False
    with Cons.prems have "f y \<le> f (if f x < f z then z else x)"
      by (auto split: if_splits)
    also have "\<dots> \<le> f (first_max f (if f x < f z then z else x) zs)"
      by (rule first_max_ge_start)
    finally show ?thesis by simp
  qed
qed

lemma first_max_first:
  "\<exists>ys zs. x # xs = ys @ first_max f x xs # zs \<and> (\<forall>y \<in> set ys. f y < f (first_max f x xs))"
proof (induction xs rule: rev_induct)
  case Nil
  show ?case by (rule exI [of _ "[]"]) simp
next
  case (snoc z zs)
  let ?m = "first_max f x zs"
  have m: "first_max f x (zs @ [z]) = (if f ?m < f z then z else ?m)"
    by (simp add: first_max_def)
  show ?case
  proof (cases "f ?m < f z")
    case True
    then have "\<forall>y \<in> set (x # zs). f y < f z"
      using first_max_ge [of _ x zs f] by (metis le_less_trans list.simps(15))
    with True m show ?thesis by (intro exI [of _ "x # zs"] exI [of _ "[]"]) simp
  next
    case False
    from snoc obtain ys us where "x # zs = ys @ ?m # us" "\<forall>y \<in> set ys. f y < f ?m"
      by blast
    with False m show ?thesis
      by (intro exI [of _ ys] exI [of _ "us @ [z]"]) simp
  qed
qed

section \<open>Sorting\<close>

text \<open>
  The contract of \<^verbatim>\<open>sort.Slice\<close>: the result is a permutation of the slice with no
  element before a smaller one. It holds for a \<^verbatim>\<open>less\<close> that is a strict weak order.
\<close>

definition weak_order :: "('a \<Rightarrow> 'a \<Rightarrow> bool) \<Rightarrow> bool" where
  "weak_order lt \<longleftrightarrow> (\<forall>a b. lt a b \<longrightarrow> \<not> lt b a) \<and>
     (\<forall>a b c. \<not> lt b a \<longrightarrow> \<not> lt c b \<longrightarrow> \<not> lt c a)"

lemma weak_order_asym: "weak_order lt \<Longrightarrow> lt a b \<Longrightarrow> \<not> lt b a"
  unfolding weak_order_def by blast

lemma weak_order_irrefl: "weak_order lt \<Longrightarrow> \<not> lt a a"
  unfolding weak_order_def by blast

lemma weak_order_trans: "weak_order lt \<Longrightarrow> \<not> lt b a \<Longrightarrow> \<not> lt c b \<Longrightarrow> \<not> lt c a"
  unfolding weak_order_def by blast

lemma weak_order_key: "weak_order (\<lambda>a b. (f a :: 'b::linorder) < f b)"
  unfolding weak_order_def by auto

lemma weak_order_key_desc: "weak_order (\<lambda>a b. f b < (f a :: 'b::linorder))"
  unfolding weak_order_def by auto

locale slice_sort =
  fixes srt :: "('a \<Rightarrow> 'a \<Rightarrow> bool) \<Rightarrow> 'a list \<Rightarrow> 'a list"
  assumes srt_perm: "mset (srt lt xs) = mset xs"
    and srt_ordered: "weak_order lt \<Longrightarrow> sorted_wrt (\<lambda>a b. \<not> lt b a) (srt lt xs)"
begin

lemma srt_set: "set (srt lt xs) = set xs"
  using srt_perm by (metis set_mset_mset)

lemma srt_length: "length (srt lt xs) = length xs"
  using srt_perm by (metis size_mset)

lemma srt_distinct: "distinct xs \<Longrightarrow> distinct (srt lt xs)"
  using srt_perm by (metis mset_eq_imp_distinct_iff)

lemma srt_hd_least:
  assumes "weak_order lt" and "srt lt xs = y # ys" and "x \<in> set xs"
  shows "\<not> lt x y"
proof -
  have "x \<in> insert y (set ys)" using assms(2,3) srt_set [of lt xs] by simp
  moreover have "\<not> lt y y" using assms(1) by (rule weak_order_irrefl)
  moreover have "\<forall>z \<in> set ys. \<not> lt z y"
    using srt_ordered [OF assms(1), of xs] assms(2) by simp
  ultimately show ?thesis by auto
qed

end

text \<open>
  \<^verbatim>\<open>sort.SliceStable\<close> promises more: elements that compare equal keep their order. The
  elements equal to \<open>a\<close> form a subsequence that sorting leaves alone.
\<close>

definition tied :: "('a \<Rightarrow> 'a \<Rightarrow> bool) \<Rightarrow> 'a \<Rightarrow> 'a \<Rightarrow> bool" where
  "tied lt a x \<longleftrightarrow> \<not> lt x a \<and> \<not> lt a x"

locale stable_sort = slice_sort +
  assumes srt_stable: "weak_order lt \<Longrightarrow> filter (tied lt a) (srt lt xs) = filter (tied lt a) xs"

text \<open>
  \<^verbatim>\<open>sort.Slice\<close> runs \<^verbatim>\<open>insertionSortLessFunc\<close> on slices of at most twelve elements, and
  \<^verbatim>\<open>sort.SliceStable\<close> returns what it returns on any slice, because a stable sort is
  unique. The sorted prefix is kept reversed, so the walk to the left is a walk down
  the list.
\<close>

fun insert_back :: "('a \<Rightarrow> 'a \<Rightarrow> bool) \<Rightarrow> 'a \<Rightarrow> 'a list \<Rightarrow> 'a list" where
  "insert_back lt x [] = [x]"
| "insert_back lt x (y # ys) =
     (if lt x y then y # insert_back lt x ys else x # y # ys)"

definition slice_isort :: "('a \<Rightarrow> 'a \<Rightarrow> bool) \<Rightarrow> 'a list \<Rightarrow> 'a list" where
  "slice_isort lt xs = rev (foldl (\<lambda>acc x. insert_back lt x acc) [] xs)"

lemma mset_insert_back: "mset (insert_back lt x ys) = {#x#} + mset ys"
  by (induction ys) auto

lemma set_insert_back [simp]: "set (insert_back lt x ys) = insert x (set ys)"
  by (induction ys) auto

lemma mset_insert_back_foldl:
  "mset (foldl (\<lambda>acc x. insert_back lt x acc) acc xs) = mset acc + mset xs"
  by (induction xs arbitrary: acc) (auto simp: mset_insert_back)

lemma sorted_insert_back:
  assumes "weak_order lt"
  shows "sorted_wrt (\<lambda>a b. \<not> lt a b) ys \<Longrightarrow>
    sorted_wrt (\<lambda>a b. \<not> lt a b) (insert_back lt x ys)"
proof (induction ys)
  case Nil
  show ?case by simp
next
  case (Cons y ys)
  then show ?case
    using weak_order_asym [OF assms] weak_order_trans [OF assms, of y _ x]
    by (cases "lt x y") auto
qed

lemma sorted_insert_back_foldl:
  assumes "weak_order lt"
  shows "sorted_wrt (\<lambda>a b. \<not> lt a b) acc \<Longrightarrow>
    sorted_wrt (\<lambda>a b. \<not> lt a b) (foldl (\<lambda>acc x. insert_back lt x acc) acc xs)"
  by (induction xs arbitrary: acc) (auto simp: sorted_insert_back [OF assms])

lemma tied_trans: "weak_order lt \<Longrightarrow> tied lt a x \<Longrightarrow> tied lt a y \<Longrightarrow> \<not> lt x y"
  unfolding tied_def by (blast dest: weak_order_trans)

lemma filter_insert_back:
  assumes "weak_order lt"
  shows "filter (tied lt a) (insert_back lt x ys) = filter (tied lt a) (x # ys)"
  by (induction ys) (auto dest: tied_trans [OF assms])

lemma filter_insert_back_foldl:
  assumes "weak_order lt"
  shows "filter (tied lt a) (foldl (\<lambda>acc x. insert_back lt x acc) acc xs) =
    rev (filter (tied lt a) xs) @ filter (tied lt a) acc"
  by (induction xs arbitrary: acc) (simp_all add: filter_insert_back [OF assms])

interpretation isort: stable_sort slice_isort
proof
  fix lt :: "'a \<Rightarrow> 'a \<Rightarrow> bool" and xs :: "'a list" and a :: 'a
  show "mset (slice_isort lt xs) = mset xs"
    by (simp add: slice_isort_def mset_insert_back_foldl)
  assume wo: "weak_order lt"
  then show "sorted_wrt (\<lambda>a b. \<not> lt b a) (slice_isort lt xs)"
    by (simp add: slice_isort_def sorted_wrt_rev sorted_insert_back_foldl)
  show "filter (tied lt a) (slice_isort lt xs) = filter (tied lt a) xs"
    by (simp add: slice_isort_def rev_filter [symmetric] filter_insert_back_foldl [OF wo])
qed

lemmas isort_keeps [go_sort] = isort.srt_perm isort.srt_set isort.srt_length isort.srt_distinct

section \<open>Programs that take steps\<close>

text \<open>
  A step relation and a predicate that every step keeps. A client proves the one step; what holds
  after any number of them, and what stays related to where they began, follows here.
\<close>

locale step_system =
  fixes step :: "'s \<Rightarrow> 's \<Rightarrow> bool" and ok :: "'s \<Rightarrow> bool"
  assumes step_keeps: "step s t \<Longrightarrow> ok s \<Longrightarrow> ok t"
begin

lemma steps_keep: "step\<^sup>*\<^sup>* s t \<Longrightarrow> ok s \<Longrightarrow> ok t"
  by (induction rule: rtranclp_induct) (auto intro: step_keeps)

lemma steps_relate:
  assumes "step\<^sup>*\<^sup>* s t" and "ok s" and "rel s"
    and "\<And>x y. step x y \<Longrightarrow> ok x \<Longrightarrow> rel x \<Longrightarrow> rel y"
  shows "rel t"
  using assms(1)
proof (induction rule: rtranclp_induct)
  case (step x y)
  then have "ok x" using steps_keep assms(2) by blast
  then show ?case using step assms(4) by blast
qed (fact assms(3))

end

end
