(* ===== verification/Kpage.thy ===== *)
theory Kpage
  imports Prelude
begin

text \<open>
  Page classification, \<^verbatim>\<open>packages/fragview/kpage.go\<close>: the flag bits of
  \<^verbatim>\<open>/proc/kpageflags\<close>, the classes a page falls into and the rule that picks one.
\<close>

section \<open>Flag bits\<close>

datatype kpf =
    kpfLocked | kpfError | kpfReferenced | kpfUptodate | kpfDirty | kpfLRU | kpfActive
  | kpfSlab | kpfWriteback | kpfReclaim | kpfBuddy | kpfMmap | kpfAnon | kpfSwapcache
  | kpfSwapbacked | kpfCompoundHead | kpfCompoundTail | kpfHuge | kpfUnevictable
  | kpfHWPoison | kpfNoPage | kpfKSM | kpfTHP | kpfOffline | kpfZeroPage | kpfIdle
  | kpfPgTable
  | kpfReserved | kpfMlocked | kpfOwner2 | kpfPrivate | kpfPrivate2 | kpfOwnerPrivate
  | kpfArch | kpfSoftDirty | kpfArch2 | kpfArch3

text \<open>The two \<^verbatim>\<open>iota\<close> blocks: the second starts at 32 and leaves bit 39 unnamed.\<close>

primrec kpf_bit :: "kpf \<Rightarrow> nat" where
  "kpf_bit kpfLocked = 0"
| "kpf_bit kpfError = 1"
| "kpf_bit kpfReferenced = 2"
| "kpf_bit kpfUptodate = 3"
| "kpf_bit kpfDirty = 4"
| "kpf_bit kpfLRU = 5"
| "kpf_bit kpfActive = 6"
| "kpf_bit kpfSlab = 7"
| "kpf_bit kpfWriteback = 8"
| "kpf_bit kpfReclaim = 9"
| "kpf_bit kpfBuddy = 10"
| "kpf_bit kpfMmap = 11"
| "kpf_bit kpfAnon = 12"
| "kpf_bit kpfSwapcache = 13"
| "kpf_bit kpfSwapbacked = 14"
| "kpf_bit kpfCompoundHead = 15"
| "kpf_bit kpfCompoundTail = 16"
| "kpf_bit kpfHuge = 17"
| "kpf_bit kpfUnevictable = 18"
| "kpf_bit kpfHWPoison = 19"
| "kpf_bit kpfNoPage = 20"
| "kpf_bit kpfKSM = 21"
| "kpf_bit kpfTHP = 22"
| "kpf_bit kpfOffline = 23"
| "kpf_bit kpfZeroPage = 24"
| "kpf_bit kpfIdle = 25"
| "kpf_bit kpfPgTable = 26"
| "kpf_bit kpfReserved = 32"
| "kpf_bit kpfMlocked = 33"
| "kpf_bit kpfOwner2 = 34"
| "kpf_bit kpfPrivate = 35"
| "kpf_bit kpfPrivate2 = 36"
| "kpf_bit kpfOwnerPrivate = 37"
| "kpf_bit kpfArch = 38"
| "kpf_bit kpfSoftDirty = 40"
| "kpf_bit kpfArch2 = 41"
| "kpf_bit kpfArch3 = 42"

text \<open>\<^verbatim>\<open>bit := func(b uint) bool { return f&(1<<b) != 0 }\<close>\<close>

definition has_flag :: "u64 \<Rightarrow> kpf \<Rightarrow> bool" where
  "has_flag f k \<longleftrightarrow> f AND push_bit (kpf_bit k) 1 \<noteq> 0"

lemma and_push_bit_1: "(f AND push_bit n 1 \<noteq> 0) = bit f n" for f :: u64
  by (simp add: and_exp_eq_0_iff_not_bit push_bit_of_1)

lemma has_flag_bit: "has_flag f k = bit f (kpf_bit k)"
  unfolding has_flag_def by (rule and_push_bit_1)

section \<open>Classes\<close>

datatype pclass =
    clNone | clFree | clFile | clShmem | clAnon | clABD | clSlab | clPgtab
  | clCompound | clUncached | clKernel | clReserved | clUnknown

text \<open>\<^verbatim>\<open>type class uint8\<close> with its \<^verbatim>\<open>iota\<close>: the loops run over the classes in this order.\<close>

primrec class_no :: "pclass \<Rightarrow> nat" where
  "class_no clNone = 0"
| "class_no clFree = 1"
| "class_no clFile = 2"
| "class_no clShmem = 3"
| "class_no clAnon = 4"
| "class_no clABD = 5"
| "class_no clSlab = 6"
| "class_no clPgtab = 7"
| "class_no clCompound = 8"
| "class_no clUncached = 9"
| "class_no clKernel = 10"
| "class_no clReserved = 11"
| "class_no clUnknown = 12"

lemma class_no_inject: "class_no a = class_no b \<Longrightarrow> a = b"
  by (cases a; cases b) simp_all

instantiation pclass :: linorder
begin

definition less_eq_pclass :: "pclass \<Rightarrow> pclass \<Rightarrow> bool" where
  "less_eq_pclass a b \<longleftrightarrow> class_no a \<le> class_no b"

definition less_pclass :: "pclass \<Rightarrow> pclass \<Rightarrow> bool" where
  "less_pclass a b \<longleftrightarrow> class_no a < class_no b"

instance
  by standard (auto simp: less_eq_pclass_def less_pclass_def intro: class_no_inject)

end

definition all_classes :: "pclass list" where
  "all_classes = [clNone, clFree, clFile, clShmem, clAnon, clABD, clSlab, clPgtab,
     clCompound, clUncached, clKernel, clReserved, clUnknown]"

definition nrClasses :: nat where
  "nrClasses = length all_classes"

text \<open>\<^verbatim>\<open>for c := clFree; c < nrClasses; c++\<close> and the same loop from \<^verbatim>\<open>clFree + 1\<close>.\<close>

definition ram_classes :: "pclass list" where
  "ram_classes = filter (\<lambda>c. clFree \<le> c) all_classes"

definition used_classes :: "pclass list" where
  "used_classes = filter (\<lambda>c. clFree < c) all_classes"

lemma ram_classes_eq: "ram_classes = [clFree, clFile, clShmem, clAnon, clABD, clSlab,
    clPgtab, clCompound, clUncached, clKernel, clReserved, clUnknown]"
  by (simp add: ram_classes_def all_classes_def less_eq_pclass_def)

lemma used_classes_eq: "used_classes = [clFile, clShmem, clAnon, clABD, clSlab,
    clPgtab, clCompound, clUncached, clKernel, clReserved, clUnknown]"
  by (simp add: used_classes_def all_classes_def less_pclass_def)

lemma ram_classes_Cons: "ram_classes = clFree # used_classes"
  by (simp add: ram_classes_eq used_classes_eq)

lemma all_classes_Cons: "all_classes = clNone # ram_classes"
  by (simp add: ram_classes_eq all_classes_def)

lemma nrClasses_eq [simp]: "nrClasses = 13"
  by (simp add: nrClasses_def all_classes_def)

lemma set_all_classes [simp]: "set all_classes = UNIV"
proof -
  have "c \<in> set all_classes" for c by (cases c) (simp_all add: all_classes_def)
  then show ?thesis by auto
qed

lemma set_ram_classes [simp]: "set ram_classes = - {clNone}"
proof -
  have "c \<in> set ram_classes \<longleftrightarrow> c \<noteq> clNone" for c
    by (cases c) (simp_all add: ram_classes_eq)
  then show ?thesis by auto
qed

lemma set_used_classes [simp]: "set used_classes = - {clNone, clFree}"
proof -
  have "c \<in> set used_classes \<longleftrightarrow> c \<noteq> clNone \<and> c \<noteq> clFree" for c
    by (cases c) (simp_all add: used_classes_eq)
  then show ?thesis by auto
qed

lemma distinct_classes [simp]:
  "distinct all_classes" "distinct ram_classes" "distinct used_classes"
  by (simp_all add: all_classes_def ram_classes_eq used_classes_eq)

instantiation pclass :: enum
begin

definition enum_pclass :: "pclass list" where
  "enum_pclass = all_classes"

definition enum_all_pclass :: "(pclass \<Rightarrow> bool) \<Rightarrow> bool" where
  "enum_all_pclass P = list_all P all_classes"

definition enum_ex_pclass :: "(pclass \<Rightarrow> bool) \<Rightarrow> bool" where
  "enum_ex_pclass P = list_ex P all_classes"

instance
  by standard (simp_all add: enum_pclass_def enum_all_pclass_def enum_ex_pclass_def
    list_all_iff list_ex_iff)

end

text \<open>
  \<^verbatim>\<open>class.immovable\<close>: \<^verbatim>\<open>abdMovable\<close>, a package variable set per machine or per
  snapshot, is the first argument.
\<close>

fun immovable :: "bool \<Rightarrow> pclass \<Rightarrow> bool" where
  "immovable abdMovable clABD = (\<not> abdMovable)"
| "immovable abdMovable c =
     (c \<in> {clSlab, clPgtab, clCompound, clUncached, clKernel, clReserved, clUnknown})"

text \<open>\<^verbatim>\<open>classNames\<close> as \<^verbatim>\<open>nameClassesForHost\<close> leaves it.\<close>

fun classNames :: "bool \<Rightarrow> pclass \<Rightarrow> string" where
  "classNames haveZFS clNone = ''absent''"
| "classNames haveZFS clFree = ''free''"
| "classNames haveZFS clFile = ''cache''"
| "classNames haveZFS clShmem = ''shmem''"
| "classNames haveZFS clAnon = ''anon''"
| "classNames haveZFS clABD = (if haveZFS then ''arc'' else ''private'')"
| "classNames haveZFS clSlab = ''slab''"
| "classNames haveZFS clPgtab = ''pgtable''"
| "classNames haveZFS clCompound = ''compound''"
| "classNames haveZFS clUncached = ''uncached''"
| "classNames haveZFS clKernel = ''kernel''"
| "classNames haveZFS clReserved = ''reserved''"
| "classNames haveZFS clUnknown = ''unknown''"

section \<open>Classification\<close>

definition classify :: "u64 \<Rightarrow> pclass" where
  "classify f =
    (if has_flag f kpfNoPage \<or> has_flag f kpfOffline then clNone
     else if has_flag f kpfBuddy then clFree
     else if has_flag f kpfSlab then clSlab
     else if has_flag f kpfPgTable then clPgtab
     else if has_flag f kpfReserved then clReserved
     else if has_flag f kpfLRU then
       (if has_flag f kpfAnon \<or> has_flag f kpfKSM then clAnon
        else if has_flag f kpfSwapbacked then clShmem
        else clFile)
     else if has_flag f kpfPrivate then clABD
     else if has_flag f kpfCompoundHead \<or> has_flag f kpfCompoundTail then clCompound
     else if has_flag f kpfArch \<or> has_flag f kpfArch2 then clUncached
     else if f = 0 then clKernel
     else clUnknown)"

text \<open>
  The flags that select a rule, and those that only refine the LRU rule. Every other
  bit is ignored by the classifier, except that one of them makes the word nonzero.
\<close>

definition rule_flags :: "kpf list" where
  "rule_flags = [kpfNoPage, kpfOffline, kpfBuddy, kpfSlab, kpfPgTable, kpfReserved, kpfLRU,
     kpfPrivate, kpfCompoundHead, kpfCompoundTail, kpfArch, kpfArch2]"

definition lru_flags :: "kpf list" where
  "lru_flags = [kpfAnon, kpfKSM, kpfSwapbacked]"

definition flag_mask :: "kpf list \<Rightarrow> u64" where
  "flag_mask ks = fold (\<lambda>k m. m OR push_bit (kpf_bit k) 1) ks 0"

lemma bit_flag_mask_fold:
  "bit (fold (\<lambda>k m. m OR push_bit (kpf_bit k) 1) ks m :: u64) n \<longleftrightarrow>
   bit m n \<or> (n < 64 \<and> n \<in> kpf_bit ` set ks)"
  by (induction ks arbitrary: m) (auto simp: bit_simps)

lemma kpf_bit_less: "kpf_bit k < 64"
  by (cases k) simp_all

lemma bit_flag_mask: "bit (flag_mask ks) n \<longleftrightarrow> n \<in> kpf_bit ` set ks"
  unfolding flag_mask_def bit_flag_mask_fold using kpf_bit_less by auto

lemma flag_mask_zero_iff: "f AND flag_mask ks = 0 \<longleftrightarrow> (\<forall>k \<in> set ks. \<not> has_flag f k)"
  using kpf_bit_less by (auto simp: bit_eq_iff bit_and_iff bit_flag_mask has_flag_bit)

lemma classify_unknown:
  "classify f = clUnknown \<longleftrightarrow> f \<noteq> 0 \<and> (\<forall>k \<in> set rule_flags. \<not> has_flag f k)"
  by (auto simp: classify_def rule_flags_def)

lemma has_flag_cong:
  assumes "f AND flag_mask ks = g AND flag_mask ks" and "k \<in> set ks"
  shows "has_flag f k = has_flag g k"
proof -
  have "bit (f AND flag_mask ks) (kpf_bit k) = bit (g AND flag_mask ks) (kpf_bit k)"
    using assms(1) by simp
  then show ?thesis
    using assms(2) by (simp add: bit_and_iff bit_flag_mask has_flag_bit)
qed

section \<open>Properties\<close>

lemma rule_mask: "flag_mask rule_flags = 0x249049184a0"
  by (simp add: flag_mask_def rule_flags_def)

lemma selector_mask: "flag_mask (rule_flags @ lru_flags) = 0x24904b1d4a0"
  by (simp add: flag_mask_def rule_flags_def lru_flags_def)

text \<open>
  A page is reported as unclassified exactly when its flag word is nonzero and carries
  none of the twelve flags that select a rule, which is a single mask test.
\<close>

theorem classify_unknown_mask:
  "classify f = clUnknown \<longleftrightarrow> f \<noteq> 0 \<and> f AND 0x249049184a0 = 0"
  unfolding rule_mask [symmetric] flag_mask_zero_iff by (rule classify_unknown)

text \<open>
  Fifteen bits decide the class: two flag words that agree on them, and on whether any
  flag is set at all, fall into the same class.
\<close>

theorem classify_mask_cong:
  assumes "f AND 0x24904b1d4a0 = g AND 0x24904b1d4a0" and "f = 0 \<longleftrightarrow> g = 0"
  shows "classify f = classify g"
proof -
  have "has_flag f k = has_flag g k" if "k \<in> set (rule_flags @ lru_flags)" for k
    by (rule has_flag_cong [OF assms(1) [folded selector_mask] that])
  then show ?thesis
    using assms(2) by (simp add: classify_def rule_flags_def lru_flags_def)
qed

lemma classify_mask_cong_witness: "classify 0x2000000085 = classify (0x82 :: u64)"
  by (rule classify_mask_cong) simp_all

text \<open>
  The pages the allocator can move, or does not have to: absent and free pages, pages
  on the LRU lists, and chunks of ARC data on a machine that relocates them, each unless an
  earlier rule claims the page as slab, page table or reserved memory. Every other page pins
  its block.
\<close>

theorem classify_movable:
  "\<not> immovable abdMovable (classify f) \<longleftrightarrow>
     has_flag f kpfNoPage \<or> has_flag f kpfOffline \<or> has_flag f kpfBuddy \<or>
     \<not> has_flag f kpfSlab \<and> \<not> has_flag f kpfPgTable \<and> \<not> has_flag f kpfReserved \<and>
     (has_flag f kpfLRU \<or> abdMovable \<and> has_flag f kpfPrivate)"
  by (simp add: classify_def)

end
