(* ===== verification/BlockMap.thy ===== *)
theory BlockMap
  imports Kpage
begin

text \<open>
  The block map of \<^verbatim>\<open>packages/fragview/kpage.go\<close>: its construction from the memory
  ranges (\<^verbatim>\<open>newBlockMap\<close>), the scan that refills part of it from the page flag file
  (\<^verbatim>\<open>refreshInto\<close>) and the register of unclassified flag words (\<^verbatim>\<open>mergeUnknown\<close>,
  \<^verbatim>\<open>unknownSeen\<close>). The flag file is the interface \<^verbatim>\<open>flagSource\<close> of
  \<^verbatim>\<open>packages/fragview/procroot.go\<close>, a locale here, provided by the \<^verbatim>\<open>bytes.Reader\<close> over a
  collected copy.
\<close>

section \<open>Data\<close>

type_synonym counts = "pclass \<Rightarrow> u16"

definition zero_counts :: counts where
  "zero_counts = (\<lambda>_. 0)"

record ram_range =
  first :: nat
  last :: nat

text \<open>
  Page frame numbers are below \<open>2 ^ 52\<close> (a 64-bit physical address over the page size), so
  \<^verbatim>\<open>startPFN * 8\<close> stays inside an \<^verbatim>\<open>int64\<close> and they are natural numbers here.
\<close>

record block_map =
  firstPFN :: nat
  nblocks :: nat
  counts :: "counts list"
  ranges :: "ram_range list"

text \<open>Subtraction of two \<^verbatim>\<open>uint64\<close>.\<close>

definition sub_u64 :: "nat \<Rightarrow> nat \<Rightarrow> nat" where
  "sub_u64 a b = nat ((int a - int b) mod 2 ^ 64)"

lemma sub_u64_le: "b \<le> a \<Longrightarrow> a < 2 ^ 64 \<Longrightarrow> sub_u64 a b = a - b"
  by (simp add: sub_u64_def nat_mod_distrib flip: of_nat_diff)

text \<open>
  \<^verbatim>\<open>newBlockMap\<close>. \<^verbatim>\<open>readRAMRanges\<close> fails on an empty list of ranges, and \<^verbatim>\<open>openPageFile\<close>
  supplies the flag file, which stays an argument of the scan.
\<close>

definition newBlockMap :: "nat \<Rightarrow> ram_range list go_result \<Rightarrow> block_map go_result" where
  "newBlockMap pagesPerBlock rs = and_then rs (\<lambda>rs.
     if rs = [] then Inl (IOError ''no System RAM line in /proc/iomem (needs root)'')
     else if pagesPerBlock = 0 then Inl DivideByZero
     else
       (let frst = first (hd rs);
            lst = last (List.last rs);
            nb = sub_u64 lst frst div pagesPerBlock + 1
        in Inr \<lparr>firstPFN = frst div pagesPerBlock * pagesPerBlock,
                nblocks = nb,
                counts = replicate nb zero_counts,
                ranges = rs\<rparr>))"

definition inRAM :: "block_map \<Rightarrow> nat \<Rightarrow> bool" where
  "inRAM m pfn \<longleftrightarrow> (\<exists>r \<in> set (ranges m). first r \<le> pfn \<and> pfn \<le> last r)"

definition block_start :: "block_map \<Rightarrow> nat \<Rightarrow> nat \<Rightarrow> nat" where
  "block_start m pagesPerBlock blk = firstPFN m + blk * pagesPerBlock"

section \<open>The scan\<close>

text \<open>
  The innermost loop: one counter per class, in \<^verbatim>\<open>uint16\<close>, and the words no rule
  accounted for.
\<close>

type_synonym unknowns = "(u64 \<times> u64) list"

fun tally :: "u64 list \<Rightarrow> counts \<Rightarrow> unknowns \<Rightarrow> counts \<times> unknowns" where
  "tally [] c unk = (c, unk)"
| "tally (f # fs) c unk =
     (let cl = classify f;
          unk' = (if cl = clUnknown then add_count f 1 unk else unk)
      in tally fs (c(cl := c cl + 1)) unk')"

text \<open>
  The loop over the blocks of one read. \<open>ws\<close> holds the \<^verbatim>\<open>got\<close> words that were read; the
  \<^verbatim>\<open>break\<close> at \<^verbatim>\<open>idx >= got\<close> is \<open>take\<close> past the end. \<open>at\<close> is \<^verbatim>\<open>blk + i - from\<close>.
\<close>

fun fill_blocks ::
  "u64 list \<Rightarrow> nat \<Rightarrow> nat \<Rightarrow> nat \<Rightarrow> counts list \<Rightarrow> unknowns \<Rightarrow> counts list \<times> unknowns" where
  "fill_blocks ws ppb 0 at dst unk = (dst, unk)"
| "fill_blocks ws ppb (Suc want) at dst unk =
     (let (c, unk') = tally (take ppb ws) zero_counts unk
      in fill_blocks (drop ppb ws) ppb want (Suc at) (dst[at := c]) unk')"

text \<open>
  \<^verbatim>\<open>ReadAt\<close> returns the bytes it read and an error. \<^verbatim>\<open>refreshInto\<close> looks at the error only
  when nothing was read. The scratch buffer is sliced to \<^verbatim>\<open>pages * 8\<close> bytes, which panics
  when one block needs more than the buffer holds.
\<close>

type_synonym reader = "nat \<Rightarrow> nat \<Rightarrow> u8 list \<times> go_error option"

definition blocks_per_read :: "nat \<Rightarrow> nat \<Rightarrow> nat \<Rightarrow> nat" where
  "blocks_per_read buflen ppb left =
     (let want = buflen div 8 div ppb; want' = (if want = 0 then 1 else want)
      in if want' > left then left else want')"

lemma blocks_per_read_bounds:
  "0 < left \<Longrightarrow> 0 < blocks_per_read buflen ppb left \<and> blocks_per_read buflen ppb left \<le> left"
  by (auto simp: blocks_per_read_def Let_def)

definition refresh_step ::
  "reader \<Rightarrow> block_map \<Rightarrow> nat \<Rightarrow> nat \<Rightarrow> nat \<Rightarrow> nat \<Rightarrow> nat \<Rightarrow> counts list \<Rightarrow> unknowns \<Rightarrow>
   (nat \<times> counts list \<times> unknowns) go_result" where
  "refresh_step rd m ppb buflen lo hi blk dst unk =
    (let startPFN = block_start m ppb blk in
     if \<not> inRAM m startPFN then Inr (Suc blk, dst[blk - lo := zero_counts], unk)
     else if ppb = 0 then Inl DivideByZero
     else
       (let want = blocks_per_read buflen ppb (hi - blk);
            pages = want * ppb
        in if buflen < pages * 8 then Inl SliceOutOfRange
           else
             (case rd (startPFN * 8) (pages * 8) of
                ([], Some e) \<Rightarrow> Inl e
              | (bs, _) \<Rightarrow>
                  (let (dst', unk') = fill_blocks (words_of bs) ppb want (blk - lo) dst unk
                   in Inr (blk + want, dst', unk')))))"

lemma refresh_stepE:
  assumes "refresh_step rd m ppb buflen lo hi blk dst unk = Inr (blk', dst', unk')"
  obtains
    (hole) "\<not> inRAM m (block_start m ppb blk)" "blk' = Suc blk"
      "dst' = dst[blk - lo := zero_counts]"
  | (read) bs where "0 < ppb" "blk' = blk + blocks_per_read buflen ppb (hi - blk)"
      "bs = fst (rd (block_start m ppb blk * 8) (blocks_per_read buflen ppb (hi - blk) * ppb * 8))"
      "dst' = fst (fill_blocks (words_of bs) ppb (blk' - blk) (blk - lo) dst unk)"
  using assms unfolding refresh_step_def Let_def
  by (auto split: if_splits prod.splits list.splits option.splits
      intro: hole read dest: arg_cong [of _ _ fst])

function refresh_loop ::
  "reader \<Rightarrow> block_map \<Rightarrow> nat \<Rightarrow> nat \<Rightarrow> nat \<Rightarrow> nat \<Rightarrow> nat \<Rightarrow> counts list \<Rightarrow> unknowns \<Rightarrow>
   counts list \<times> unknowns \<times> go_error option" where
  "refresh_loop rd m ppb buflen lo hi blk dst unk =
    (if blk < hi then
       (case refresh_step rd m ppb buflen lo hi blk dst unk of
          Inl e \<Rightarrow> (dst, unk, Some e)
        | Inr (blk', dst', unk') \<Rightarrow> refresh_loop rd m ppb buflen lo hi blk' dst' unk')
     else (dst, unk, None))"
  by pat_completeness auto
termination
proof (relation "measure (\<lambda>(rd, m, ppb, buflen, lo, hi, blk, dst, unk). hi - blk)", goal_cases)
  case 1
  show ?case by simp
next
  case (2 rd m ppb buflen lo hi blk dst unk x blk' q dst' unk')
  then have "refresh_step rd m ppb buflen lo hi blk dst unk = Inr (blk', dst', unk')" by simp
  then have "blk < blk'"
    using 2 blocks_per_read_bounds [of "hi - blk" buflen ppb] by (cases rule: refresh_stepE) auto
  with 2 show ?case by auto
qed

declare refresh_loop.simps [simp del]

definition refreshInto ::
  "reader \<Rightarrow> block_map \<Rightarrow> int \<Rightarrow> int \<Rightarrow> nat \<Rightarrow> counts list \<Rightarrow> nat \<Rightarrow>
   counts list \<times> unknowns \<times> go_error option" where
  "refreshInto rd m from to ppb dst buflen =
     (let from1 = (if from < 0 then 0 else from);
          to1 = (if to > int (nblocks m) then int (nblocks m) else to);
          to2 = (if to1 > from1 + int (length dst) then from1 + int (length dst) else to1)
      in refresh_loop rd m ppb buflen (nat from1) (nat to2) (nat from1) dst [])"

section \<open>The register of unclassified words\<close>

text \<open>
  \<^verbatim>\<open>mergeUnknown\<close> under its lock: at most 256 different words are kept, and a word already
  kept goes on being counted.
\<close>

fun mergeUnknown :: "unknowns \<Rightarrow> unknowns \<Rightarrow> unknowns" where
  "mergeUnknown reg [] = reg"
| "mergeUnknown reg ((f, n) # seen) =
     (if f \<notin> fst ` set reg \<and> 256 \<le> length reg then mergeUnknown reg seen
      else mergeUnknown (add_count f n reg) seen)"

text \<open>
  \<^verbatim>\<open>unknownSeen\<close>: most frequent first, the order of equal counts left to the map's
  iteration order. \<open>srt\<close> is \<^verbatim>\<open>sort.Slice\<close>.
\<close>

definition unknownSeen ::
  "((u64 \<times> u64 \<Rightarrow> u64 \<times> u64 \<Rightarrow> bool) \<Rightarrow> unknowns \<Rightarrow> unknowns) \<Rightarrow> unknowns \<Rightarrow> unknowns" where
  "unknownSeen srt reg = srt (\<lambda>a b. snd b < snd a) reg"

section \<open>What the loops compute\<close>

lemma fst_tally:
  "fst (tally fs c unk) cl = c cl + of_nat (count_list (map classify fs) cl)"
  by (induction fs arbitrary: c unk) (simp_all add: Let_def)

lemma tally_unknowns:
  "count_of (snd (tally fs c unk)) f =
   count_of unk f + (if classify f = clUnknown then of_nat (count_list fs f) else 0)"
  by (induction fs arbitrary: c unk) (simp_all add: Let_def count_of_add_count algebra_simps)

definition page_counts :: "u64 list \<Rightarrow> counts" where
  "page_counts fs = fst (tally fs zero_counts [])"

lemma page_counts: "page_counts fs cl = of_nat (count_list (map classify fs) cl)"
  by (simp add: page_counts_def fst_tally zero_counts_def)

lemma fst_tally_zero: "fst (tally fs zero_counts unk) = page_counts fs"
  by (auto simp: fun_eq_iff fst_tally page_counts zero_counts_def)

lemma unat_page_counts:
  assumes "length fs < 65536"
  shows "unat (page_counts fs cl) = count_list (map classify fs) cl"
proof -
  have "count_list (map classify fs) cl \<le> length fs"
    using count_le_length [of "map classify fs" cl] by simp
  with assms show ?thesis by (simp add: page_counts unat_of_nat)
qed

lemma length_fill_blocks: "length (fst (fill_blocks ws ppb want at dst unk)) = length dst"
  by (induction want arbitrary: ws at dst unk) (simp_all add: Let_def case_prod_beta)

lemma nth_fill_blocks:
  "i < length dst \<Longrightarrow> fst (fill_blocks ws ppb want at dst unk) ! i =
    (if at \<le> i \<and> i < at + want then page_counts (take ppb (drop ((i - at) * ppb) ws))
     else dst ! i)"
proof (induction want arbitrary: ws at dst unk)
  case 0
  then show ?case by auto
next
  case (Suc want)
  have "(i - at) * ppb = (i - Suc at) * ppb + ppb" if "Suc at \<le> i"
    using that by (metis Suc_diff_Suc Suc_le_lessD add.commute mult_Suc)
  moreover have "i \<noteq> at \<Longrightarrow> at \<le> i \<longleftrightarrow> Suc at \<le> i" by auto
  ultimately show ?case
    using Suc by (cases "i = at") (auto simp: Let_def case_prod_beta fst_tally_zero add.commute)
qed

lemma refresh_step_bounds:
  assumes "refresh_step rd m ppb buflen lo hi blk dst unk = Inr (blk', dst', unk')" and "blk < hi"
  shows "blk < blk' \<and> blk' \<le> hi"
  using assms(1)
proof (cases rule: refresh_stepE)
  case hole
  then show ?thesis using assms(2) by simp
next
  case (read bs)
  then show ?thesis
    using assms(2) blocks_per_read_bounds [of "hi - blk" buflen ppb] by auto
qed

lemma refresh_step_length:
  assumes "refresh_step rd m ppb buflen lo hi blk dst unk = Inr (blk', dst', unk')"
  shows "length dst' = length dst"
  using assms by (cases rule: refresh_stepE) (simp_all add: length_fill_blocks)

lemma refresh_step_frame:
  assumes "refresh_step rd m ppb buflen lo hi blk dst unk = Inr (blk', dst', unk')"
    and "blk < hi" and "lo \<le> blk" and "i < length dst"
    and "i < blk - lo \<or> blk' - lo \<le> i"
  shows "dst' ! i = dst ! i"
  using assms(1)
proof (cases rule: refresh_stepE)
  case hole
  then show ?thesis using assms(3,5) by auto
next
  case (read bs)
  then show ?thesis
    using assms(3-5) refresh_step_bounds [OF assms(1,2)] by (auto simp: nth_fill_blocks)
qed

text \<open>Induction along the scan, its source and its bounds held fixed.\<close>

lemma refresh_induct [case_names step]:
  assumes "\<And>blk dst unk.
    (\<And>blk' dst' unk'. blk < hi \<Longrightarrow>
       refresh_step rd m ppb buflen lo hi blk dst unk = Inr (blk', dst', unk') \<Longrightarrow>
       P blk' dst' unk') \<Longrightarrow> P blk dst unk"
  shows "P blk dst unk"
proof (induction "hi - blk" arbitrary: blk dst unk rule: less_induct)
  case (less blk dst unk)
  show ?case
  proof (rule assms)
    fix blk' dst' unk'
    assume "blk < hi" and "refresh_step rd m ppb buflen lo hi blk dst unk = Inr (blk', dst', unk')"
    then have "hi - blk' < hi - blk" using refresh_step_bounds by fastforce
    then show "P blk' dst' unk'" by (rule less)
  qed
qed

lemma length_refresh_loop:
  "length (fst (refresh_loop rd m ppb buflen lo hi blk dst unk)) = length dst"
proof (induction blk dst unk rule: refresh_induct [of hi rd m ppb buflen lo])
  case (step blk dst unk)
  then show ?case
    using refresh_step_length
    by (subst refresh_loop.simps) (fastforce split: sum.splits prod.splits)
qed

section \<open>What a scan promises\<close>

text \<open>The flag words of one block, as far as the file reaches.\<close>

definition block_pages :: "u8 list \<Rightarrow> block_map \<Rightarrow> nat \<Rightarrow> nat \<Rightarrow> u64 list" where
  "block_pages content m ppb blk =
     take ppb (drop (block_start m ppb blk) (words_of content))"

text \<open>
  What one block's counters may be after a pass over it: the classes of its pages, or
  nothing at all when its first page is outside memory.
\<close>

definition block_ok :: "u8 list \<Rightarrow> block_map \<Rightarrow> nat \<Rightarrow> nat \<Rightarrow> counts \<Rightarrow> bool" where
  "block_ok content m ppb blk c \<longleftrightarrow>
     c = page_counts (block_pages content m ppb blk) \<or>
     \<not> inRAM m (block_start m ppb blk) \<and> c = zero_counts"

section \<open>The flag file\<close>

text \<open>
  \<^verbatim>\<open>flagSource\<close>: a read at an offset gives the bytes of the file from there on. The error
  of a short read is left open, since the scan looks at it only when nothing was read.
\<close>

locale flag_source =
  fixes rd :: reader and content :: "u8 list"
  assumes rd_data: "fst (rd off n) = take n (drop off content)"
begin

lemma words_of_read:
  "words_of (fst (rd (p * 8) (n * 8))) = take n (drop p (words_of content))"
  using words_of_take_drop [of n p content] by (simp add: rd_data mult.commute)

lemma refresh_step_blocks:
  assumes "refresh_step rd m ppb buflen lo hi blk dst unk = Inr (blk', dst', unk')"
    and "blk < hi" and "lo \<le> blk" and "hi \<le> lo + length dst"
    and "blk \<le> i" and "i < blk'"
  shows "block_ok content m ppb i (dst' ! (i - lo))"
  using assms(1)
proof (cases rule: refresh_stepE)
  case hole
  then have "i = blk" using assms(5,6) by simp
  with hole show ?thesis using assms(2-4) by (simp add: block_ok_def)
next
  case (read bs)
  have b: "blk' \<le> hi" using refresh_step_bounds [OF assms(1,2)] by simp
  let ?want = "blk' - blk"
  have "words_of bs = take (?want * ppb) (drop (block_start m ppb blk) (words_of content))"
    using read(2,3) words_of_read by simp
  moreover have "(i - blk) * ppb + ppb \<le> ?want * ppb"
  proof -
    have "Suc (i - blk) \<le> ?want" using assms(5,6) by simp
    then have "Suc (i - blk) * ppb \<le> ?want * ppb" by (rule mult_le_mono1)
    then show ?thesis by simp
  qed
  moreover have "block_start m ppb blk + (i - blk) * ppb = block_start m ppb i"
    using assms(5) by (simp add: block_start_def add.assoc flip: add_mult_distrib)
  ultimately have "take ppb (drop ((i - blk) * ppb) (words_of bs)) = block_pages content m ppb i"
    by (simp add: block_pages_def drop_take min_absorb1 add.commute)
  moreover have "dst' ! (i - lo) = page_counts (take ppb (drop ((i - blk) * ppb) (words_of bs)))"
  proof -
    have "i - lo < length dst" "i - lo - (blk - lo) = i - blk"
      "blk - lo \<le> i - lo \<and> i - lo < blk - lo + ?want"
      using assms(2-6) b by auto
    then show ?thesis by (simp only: read(4) nth_fill_blocks simp_thms if_True)
  qed
  ultimately show ?thesis by (simp add: block_ok_def)
qed

lemma refresh_loop_blocks:
  assumes "refresh_loop rd m ppb buflen lo hi blk dst unk = (dst', unk', None)"
    and "lo \<le> blk" and "blk \<le> hi" and "hi \<le> lo + length dst"
    and "\<And>i. lo \<le> i \<Longrightarrow> i < blk \<Longrightarrow> block_ok content m ppb i (dst ! (i - lo))"
    and "lo \<le> i" and "i < hi"
  shows "block_ok content m ppb i (dst' ! (i - lo))"
  using assms
proof (induction blk dst unk rule: refresh_induct [of hi rd m ppb buflen lo])
  case (step blk dst unk)
  show ?case
  proof (cases "blk < hi")
    case False
    with step.prems show ?thesis by (simp add: refresh_loop.simps)
  next
    case True
    then obtain blk1 dst1 unk1 where
      st: "refresh_step rd m ppb buflen lo hi blk dst unk = Inr (blk1, dst1, unk1)"
      and rest: "refresh_loop rd m ppb buflen lo hi blk1 dst1 unk1 = (dst', unk', None)"
      using step.prems(1) by (subst (asm) refresh_loop.simps) (auto split: sum.splits)
    note bnds = refresh_step_bounds [OF st True] refresh_step_length [OF st]
    have "block_ok content m ppb j (dst1 ! (j - lo))" if "lo \<le> j" "j < blk1" for j
    proof (cases "j < blk")
      case True
      then have "j - lo < length dst" "j - lo < blk - lo" using step.prems(2-4) that by auto
      then have "dst1 ! (j - lo) = dst ! (j - lo)"
        using refresh_step_frame [OF st \<open>blk < hi\<close>] step.prems(2) by simp
      then show ?thesis using step.prems(5) that True by simp
    next
      case False
      then show ?thesis
        using refresh_step_blocks [OF st \<open>blk < hi\<close>] step.prems(2,4) that by simp
    qed
    then show ?thesis
      using step.IH [OF True st rest] step.prems bnds by simp
  qed
qed

text \<open>A block in memory is read, with the blocks after it that fit the buffer.\<close>

lemma refresh_step_hole:
  "\<not> inRAM m (block_start m ppb blk) \<Longrightarrow>
   refresh_step rd m ppb buflen lo hi blk dst unk = Inr (Suc blk, dst[blk - lo := zero_counts], unk)"
  by (simp add: refresh_step_def)

lemma refresh_step_read:
  assumes "inRAM m (block_start m ppb blk)" and "0 < ppb"
    and "block_start m ppb blk * 8 < length content"
    and "0 < blocks_per_read buflen ppb (hi - blk)"
    and "blocks_per_read buflen ppb (hi - blk) * ppb * 8 \<le> buflen"
  shows "refresh_step rd m ppb buflen lo hi blk dst unk =
    (let want = blocks_per_read buflen ppb (hi - blk);
         (dst', unk') = fill_blocks
           (take (want * ppb) (drop (block_start m ppb blk) (words_of content)))
           ppb want (blk - lo) dst unk
     in Inr (blk + want, dst', unk'))"
proof -
  let ?want = "blocks_per_read buflen ppb (hi - blk)"
  let ?r = "rd (block_start m ppb blk * 8) (?want * ppb * 8)"
  have "fst ?r \<noteq> []" using assms(2,3,4) by (simp add: rd_data)
  moreover have "words_of (fst ?r) =
      take (?want * ppb) (drop (block_start m ppb blk) (words_of content))"
    by (rule words_of_read)
  ultimately show ?thesis
    using assms by (cases ?r) (auto simp: refresh_step_def Let_def split: list.splits)
qed

lemma blocks_per_read_fits:
  assumes "0 < ppb" and "ppb * 8 \<le> buflen"
  shows "blocks_per_read buflen ppb left * ppb * 8 \<le> buflen"
proof -
  have "blocks_per_read buflen ppb left \<le>
      (if buflen div 8 div ppb = 0 then 1 else buflen div 8 div ppb)"
    by (auto simp: blocks_per_read_def Let_def)
  also have "\<dots> = buflen div 8 div ppb"
    using assms by (simp add: div_eq_0_iff div_greater_zero_iff less_eq_div_iff_mult_less_eq)
  finally have "blocks_per_read buflen ppb left * ppb \<le> buflen div 8 div ppb * ppb"
    by (rule mult_le_mono1)
  also have "\<dots> \<le> buflen div 8" by simp
  finally show ?thesis by linarith
qed

lemma refresh_step_progress:
  assumes "blk < hi" and "0 < ppb" and "ppb * 8 \<le> buflen"
    and "inRAM m (block_start m ppb blk) \<Longrightarrow> block_start m ppb blk * 8 < length content"
  shows "\<exists>r. refresh_step rd m ppb buflen lo hi blk dst unk = Inr r"
proof (cases "inRAM m (block_start m ppb blk)")
  case True
  have "0 < blocks_per_read buflen ppb (hi - blk)"
    using blocks_per_read_bounds assms(1) by simp
  from refresh_step_read [OF True assms(2) assms(4) [OF True] this
      blocks_per_read_fits [OF assms(2,3)]]
  show ?thesis by (simp add: Let_def case_prod_beta)
next
  case False
  then show ?thesis by (simp add: refresh_step_def)
qed

lemma refresh_loop_returns:
  assumes "0 < ppb" and "ppb * 8 \<le> buflen"
    and "\<And>blk. blk < hi \<Longrightarrow> inRAM m (block_start m ppb blk) \<Longrightarrow>
      block_start m ppb blk * 8 < length content"
  shows "snd (snd (refresh_loop rd m ppb buflen lo hi blk dst unk)) = None"
proof (induction blk dst unk rule: refresh_induct [of hi rd m ppb buflen lo])
  case (step blk dst unk)
  show ?case
  proof (cases "blk < hi")
    case True
    then obtain blk' dst' unk' where
      "refresh_step rd m ppb buflen lo hi blk dst unk = Inr (blk', dst', unk')"
      using refresh_step_progress [OF True assms(1,2) assms(3) [OF True]] by (metis prod_cases3)
    with step True show ?thesis by (subst refresh_loop.simps) simp
  next
    case False
    then show ?thesis by (subst refresh_loop.simps) simp
  qed
qed

lemma refreshInto_total:
  assumes "0 < ppb" and "ppb * 8 \<le> buflen"
    and "\<And>blk. blk < nblocks m \<Longrightarrow> inRAM m (block_start m ppb blk) \<Longrightarrow>
      block_start m ppb blk * 8 < length content"
    and "to \<le> nblocks m" and "to \<le> from + length dst"
    and "from \<le> i" and "i < to"
  shows "snd (snd (refreshInto rd m (int from) (int to) ppb dst buflen)) = None \<and>
    block_ok content m ppb i (fst (refreshInto rd m (int from) (int to) ppb dst buflen) ! (i - from))"
proof -
  let ?r = "refresh_loop rd m ppb buflen from to from dst []"
  have eq: "refreshInto rd m (int from) (int to) ppb dst buflen = ?r"
    using assms(4,5) by (auto simp: refreshInto_def Let_def)
  have none: "snd (snd ?r) = None"
    using assms(3,4) by (intro refresh_loop_returns [OF assms(1,2)]) auto
  then have r: "?r = (fst ?r, fst (snd ?r), None)" by (metis prod.collapse)
  have "block_ok content m ppb i (fst ?r ! (i - from))"
    by (rule refresh_loop_blocks [OF r]) (use assms(5-7) in auto)
  with none show ?thesis by (simp add: eq)
qed

end

text \<open>\<^verbatim>\<open>bytes.Reader.ReadAt\<close> over a collected copy of the file.\<close>

definition bytes_read_at :: "u8 list \<Rightarrow> reader" where
  "bytes_read_at b off n =
     (if length b \<le> off then ([], Some (IOError ''EOF''))
      else let got = take n (drop off b)
           in (got, if length got < n then Some (IOError ''EOF'') else None))"

interpretation bytes: flag_source "bytes_read_at b" b for b
  by unfold_locales (simp add: bytes_read_at_def Let_def)

section \<open>Properties\<close>

text \<open>
  C1. A scan of any part of the map returns without an error and leaves, in every block
  whose first page is memory, exactly the number of its pages that fall into each class.
  The buffer has to hold one block, the file has to reach into every such block, and a
  block has fewer pages than a \<^verbatim>\<open>uint16\<close> counts.
\<close>

theorem scan_counts_exact:
  assumes "0 < ppb" and "ppb < 65536" and "ppb * 8 \<le> buflen"
    and "\<And>blk. blk < nblocks m \<Longrightarrow> inRAM m (block_start m ppb blk) \<Longrightarrow>
      block_start m ppb blk * 8 < length content"
    and "to \<le> nblocks m" and "to \<le> from + length dst"
    and "from \<le> i" and "i < to" and "inRAM m (block_start m ppb i)"
  shows "\<exists>dst' unk. refreshInto (bytes_read_at content) m (int from) (int to) ppb dst buflen
      = (dst', unk, None) \<and>
    (\<forall>cl. unat ((dst' ! (i - from)) cl) =
       count_list (map classify (block_pages content m ppb i)) cl)"
proof -
  let ?r = "refreshInto (bytes_read_at content) m (int from) (int to) ppb dst buflen"
  have "snd (snd ?r) = None \<and> block_ok content m ppb i (fst ?r ! (i - from))"
    by (rule bytes.refreshInto_total [OF assms(1,3,4,5,6,7,8)])
  moreover have "length (block_pages content m ppb i) < 65536"
    using assms(2) by (simp add: block_pages_def)
  ultimately have "snd (snd ?r) = None"
    and "\<forall>cl. unat ((fst ?r ! (i - from)) cl) =
      count_list (map classify (block_pages content m ppb i)) cl"
    using assms(9) by (auto simp: block_ok_def unat_page_counts)
  then show ?thesis by (metis prod.collapse)
qed

definition sample_file :: "u8 list" where
  "sample_file = concat (map put_u64 [0x400, 0x80, 0x100000, 0x400, 0x20, 0x400])"

definition sample_map :: block_map where
  "sample_map = \<lparr>firstPFN = 0, nblocks = 3, counts = replicate 3 zero_counts,
     ranges = [\<lparr>first = 0, last = 1\<rparr>, \<lparr>first = 3, last = 5\<rparr>]\<rparr>"

lemma replicate_small: "replicate 2 x = [x, x]" "replicate 3 x = [x, x, x]"
  by (simp_all add: numeral_eq_Suc)

lemma words_of_sample_file [simp]:
  "words_of sample_file = [0x400, 0x80, 0x100000, 0x400, 0x20, 0x400]"
  by (simp only: sample_file_def words_of_concat)

lemma length_sample_file [simp]: "length sample_file = 48"
  by (simp add: sample_file_def)

lemma scan_counts_exact_witness:
  "\<exists>dst' unk. refreshInto (bytes_read_at sample_file) sample_map (int 0) (int 3) 2
      (replicate 3 zero_counts) 32 = (dst', unk, None) \<and>
    (\<forall>cl. unat ((dst' ! (2 - 0)) cl) =
       count_list (map classify (block_pages sample_file sample_map 2 2)) cl)"
  by (rule scan_counts_exact) (auto simp: sample_map_def block_start_def inRAM_def)




section \<open>The map covers the memory\<close>

definition ascending :: "ram_range list \<Rightarrow> bool" where
  "ascending rs \<longleftrightarrow> sorted_wrt (\<lambda>a b. last a < first b) rs \<and> (\<forall>r \<in> set rs. first r \<le> last r)"

lemma ascending_bounds:
  "ascending rs \<Longrightarrow> r \<in> set rs \<Longrightarrow> first (hd rs) \<le> first r \<and> last r \<le> last (List.last rs)"
proof (induction rs rule: rev_induct)
  case Nil
  then show ?case by simp
next
  case (snoc x xs)
  then show ?case
    by (cases xs) (fastforce simp: ascending_def sorted_wrt_append)+
qed

text \<open>
  Every page of memory lies in a block of the map, if the ranges ascend and the first
  one starts on a block boundary.
\<close>

theorem newBlockMap_covers:
  assumes "newBlockMap ppb (Inr rs) = Inr m" and "ascending rs"
    and "ppb dvd first (hd rs)" and "last (List.last rs) < 2 ^ 64" and "inRAM m pfn"
  shows "\<exists>blk < nblocks m. block_start m ppb blk \<le> pfn \<and> pfn < block_start m ppb (Suc blk)"
proof -
  from assms(1) have ppb: "0 < ppb" and rs: "rs \<noteq> []"
    by (auto simp: newBlockMap_def Let_def split: if_splits)
  from assms(1) have m: "m = \<lparr>firstPFN = first (hd rs) div ppb * ppb,
      nblocks = sub_u64 (last (List.last rs)) (first (hd rs)) div ppb + 1,
      counts = replicate (sub_u64 (last (List.last rs)) (first (hd rs)) div ppb + 1) zero_counts,
      ranges = rs\<rparr>"
    by (simp add: newBlockMap_def Let_def split: if_splits)
  let ?a = "first (hd rs)" and ?z = "last (List.last rs)"
  have fst: "firstPFN m = ?a" using assms(3) by (simp add: m)
  obtain r where "r \<in> set rs" "first r \<le> pfn" "pfn \<le> last r"
    using assms(5) by (auto simp: inRAM_def m)
  with ascending_bounds [OF assms(2)] have pfn: "?a \<le> pfn" "pfn \<le> ?z" by fastforce+
  then have n: "nblocks m = (?z - ?a) div ppb + 1"
    using assms(4) by (simp add: m sub_u64_le)
  let ?blk = "(pfn - ?a) div ppb"
  have "?blk < nblocks m" using pfn by (simp add: n div_le_mono less_Suc_eq_le)
  moreover have "?blk * ppb \<le> pfn - ?a" by (rule div_times_less_eq_dividend)
  then have "block_start m ppb ?blk \<le> pfn"
    unfolding block_start_def fst using pfn by linarith
  moreover have "pfn < block_start m ppb (Suc ?blk)"
    using pfn ppb dividend_less_div_times [of ppb "pfn - ?a"] by (simp add: block_start_def fst)
  ultimately show ?thesis by blast
qed

lemma newBlockMap_covers_witness:
  "\<exists>blk < nblocks sample_map. block_start sample_map 2 blk \<le> 5 \<and>
     5 < block_start sample_map 2 (Suc blk)"
proof (rule newBlockMap_covers)
  show "newBlockMap 2 (Inr (ranges sample_map)) = Inr sample_map"
    by (simp add: sample_map_def newBlockMap_def Let_def sub_u64_def replicate_small)
qed (auto simp: sample_map_def ascending_def inRAM_def)

text \<open>
  Without the alignment the last block can be missing: memory from page frame 1 to 512
  in blocks of 512 pages gets a single block, which ends before page frame 512.
\<close>

theorem newBlockMap_drops_tail:
  "\<exists>m. newBlockMap 512 (Inr [\<lparr>first = 1, last = 512\<rparr>]) = Inr m \<and> inRAM m 512 \<and>
     nblocks m = 1 \<and> block_start m 512 1 \<le> 512"
  by (simp add: newBlockMap_def Let_def sub_u64_def inRAM_def block_start_def)

section \<open>The register is bounded and loses no count it has room for\<close>

lemma mergeUnknown_length: "length reg \<le> 256 \<Longrightarrow> length (mergeUnknown reg seen) \<le> 256"
  by (induction reg seen rule: mergeUnknown.induct) (auto simp: length_add_count)

lemma mergeUnknown_distinct:
  "distinct (map fst reg) \<Longrightarrow> distinct (map fst (mergeUnknown reg seen))"
  by (induction reg seen rule: mergeUnknown.induct) (auto simp: distinct_add_count)

lemma mergeUnknown_keeps: "fst ` set reg \<subseteq> fst ` set (mergeUnknown reg seen)"
  by (induction reg seen rule: mergeUnknown.induct) (auto simp: keys_add_count)

lemma mergeUnknown_counts:
  "f \<in> fst ` set reg \<Longrightarrow> distinct (map fst seen) \<Longrightarrow>
   count_of (mergeUnknown reg seen) f = count_of reg f + count_of seen f"
proof (induction reg seen rule: mergeUnknown.induct)
  case (1 reg)
  then show ?case by simp
next
  case (2 reg g n seen)
  have rest: "count_of seen g = 0" if "g \<notin> fst ` set seen"
    using that by (simp add: count_of_def map_of_eq_None_iff [THEN iffD2])
  show ?case
  proof (cases "g \<notin> fst ` set reg \<and> 256 \<le> length reg")
    case True
    then have "f \<noteq> g" using 2 by auto
    with True 2 show ?thesis by (simp add: count_of_def)
  next
    case False
    with 2 rest show ?thesis
      by (auto simp: keys_add_count count_of_add_count) (auto simp: count_of_def)
  qed
qed

text \<open>
  Merging what a scan saw into the register keeps it at 256 words at most, each once;
  a word already registered stays and gains exactly the scan's count, full register or not.
\<close>

theorem mergeUnknown_register:
  assumes "length reg \<le> 256" and "distinct (map fst reg)" and "distinct (map fst seen)"
  shows "length (mergeUnknown reg seen) \<le> 256 \<and>
    distinct (map fst (mergeUnknown reg seen)) \<and>
    (f \<in> fst ` set reg \<longrightarrow> f \<in> fst ` set (mergeUnknown reg seen) \<and>
      count_of (mergeUnknown reg seen) f = count_of reg f + count_of seen f)"
  using assms mergeUnknown_length mergeUnknown_distinct mergeUnknown_keeps mergeUnknown_counts
  by blast

lemma mergeUnknown_register_witness:
  "count_of (mergeUnknown [(8, 3)] [(8, 2), (9, 1)]) (8 :: u64) = 5"
  using mergeUnknown_register [of "[(8, 3)]" "[(8, 2), (9, 1)]" 8]
  by (simp add: count_of_def)

end
