(* ===== verification/Float64.thy ===== *)
theory Float64
  imports Complex_Main Prelude
begin

text \<open>
  The \<^verbatim>\<open>float64\<close> arithmetic of the Go sources: a finite value is the rational number it
  stands for, and every operation rounds its exact result to 53 significant bits, ties to
  even (IEEE 754 binary64). The exponent is not bounded here: the page counts, ratios and
  byte sizes this program computes with are zero or lie between \<open>2 ^ -200\<close> and \<open>2 ^ 200\<close>, far
  from overflow and from the subnormal range.

  What the rest of the development needs of rounding is the locale \<open>rounding\<close>, which the
  rounding function \<open>fl\<close> provides.
\<close>

section \<open>Rounding to an integer, ties to even\<close>

definition rne :: "rat \<Rightarrow> int" where
  "rne x = (let n = \<lfloor>x\<rfloor>; d = x - of_int n
            in if d < 1 / 2 then n else if 1 / 2 < d then n + 1
               else if even n then n else n + 1)"

lemma rne_cases: "rne x = \<lfloor>x\<rfloor> \<or> rne x = \<lfloor>x\<rfloor> + 1"
  by (simp add: rne_def Let_def)

lemma rne_of_int [simp]: "rne (of_int n) = n"
  by (simp add: rne_def)

lemma rne_error: "\<bar>of_int (rne x) - x\<bar> \<le> 1 / 2"
proof -
  have "of_int \<lfloor>x\<rfloor> \<le> x" "x < of_int \<lfloor>x\<rfloor> + 1" by linarith+
  then show ?thesis by (auto simp: rne_def Let_def)
qed

lemma rne_mono: "x \<le> y \<Longrightarrow> rne x \<le> rne y"
proof (cases "\<lfloor>x\<rfloor> = \<lfloor>y\<rfloor>")
  case True
  assume "x \<le> y"
  then show ?thesis using True by (auto simp: rne_def Let_def)
next
  case False
  assume "x \<le> y"
  then have "\<lfloor>x\<rfloor> < \<lfloor>y\<rfloor>" using False floor_mono [of x y] by simp
  then show ?thesis using rne_cases [of x] rne_cases [of y] by linarith
qed

lemma rne_ge_int: "of_int n \<le> x \<Longrightarrow> n \<le> rne x"
  using rne_mono [of "of_int n" x] by simp

lemma rne_le_int: "x \<le> of_int n \<Longrightarrow> rne x \<le> n"
  using rne_mono [of x "of_int n"] by simp

section \<open>The binary exponent\<close>

fun ilog2 :: "nat \<Rightarrow> nat" where
  "ilog2 n = (if n < 2 then 0 else Suc (ilog2 (n div 2)))"

declare ilog2.simps [simp del]

lemma ilog2_bounds: "0 < n \<Longrightarrow> 2 ^ ilog2 n \<le> n \<and> n < 2 * 2 ^ ilog2 n"
proof (induction n rule: ilog2.induct)
  case (1 n)
  show ?case
  proof (cases "n < 2")
    case True
    then show ?thesis using "1.prems" by (simp add: ilog2.simps [of n])
  next
    case False
    then have "2 ^ ilog2 (n div 2) \<le> n div 2 \<and> n div 2 < 2 * 2 ^ ilog2 (n div 2)"
      using "1.IH" by simp
    then show ?thesis using False by (simp add: ilog2.simps [of n]) linarith
  qed
qed

definition expo :: "rat \<Rightarrow> int" where
  "expo x = (let (p, q) = quotient_of x;
                 e = int (ilog2 (nat p)) - int (ilog2 (nat q))
             in if 2 powi e \<le> x then e else e - 1)"

lemma powi_diff_nat: "(2::rat) powi (int a - int b) = 2 ^ a / 2 ^ b"
  by (simp add: power_int_diff)

lemma expo_bounds:
  assumes "0 < x"
  shows "2 powi expo x \<le> x" and "x < 2 powi (expo x + 1)"
proof -
  obtain p q where pq: "quotient_of x = (p, q)" by fastforce
  then have x: "x = of_int p / of_int q" and q: "0 < q"
    using quotient_of_div quotient_of_denom_pos by blast+
  then have p: "0 < p" using assms by (simp add: zero_less_divide_iff)
  define a b where "a = ilog2 (nat p)" and "b = ilog2 (nat q)"
  have "2 ^ a \<le> nat p" "nat p < 2 * 2 ^ a" "2 ^ b \<le> nat q" "nat q < 2 * 2 ^ b"
    using ilog2_bounds [of "nat p"] ilog2_bounds [of "nat q"] p q by (auto simp: a_def b_def)
  then have "rat_of_nat (2 ^ a) \<le> of_nat (nat p)" "rat_of_nat (nat p) < of_nat (2 * 2 ^ a)"
    "rat_of_nat (2 ^ b) \<le> of_nat (nat q)" "rat_of_nat (nat q) < of_nat (2 * 2 ^ b)"
    by (simp_all only: of_nat_le_iff of_nat_less_iff)
  then have le: "(2::rat) ^ a \<le> of_int p" "of_int p < (2::rat) * 2 ^ a"
    "(2::rat) ^ b \<le> of_int q" "of_int q < (2::rat) * 2 ^ b"
    using p q by simp_all
  have up: "x < 2 * 2 powi (int a - int b)"
  proof -
    have "x \<le> of_int p / 2 ^ b"
      unfolding x using le p q by (intro divide_left_mono) auto
    also have "\<dots> < (2 * 2 ^ a) / 2 ^ b" using le by (intro divide_strict_right_mono) auto
    finally show ?thesis by (simp add: powi_diff_nat)
  qed
  have low: "2 powi (int a - int b) / 2 \<le> x"
  proof -
    have "2 ^ a / (2 * 2 ^ b) \<le> of_int p / (2 * 2 ^ b :: rat)"
      using le by (intro divide_right_mono) auto
    also have "\<dots> \<le> x" unfolding x using le p q by (intro divide_left_mono) auto
    finally show ?thesis by (simp add: powi_diff_nat)
  qed
  have e: "expo x = (if 2 powi (int a - int b) \<le> x then int a - int b else int a - int b - 1)"
    by (simp add: expo_def pq a_def b_def)
  have dn: "(2::rat) powi (k - 1) = 2 powi k / 2" for k by (simp add: power_int_diff)
  have su: "(2::rat) powi (k + 1) = 2 * 2 powi k" for k by (simp add: power_int_add)
  show "2 powi expo x \<le> x" using low by (simp add: e dn)
  show "x < 2 powi (expo x + 1)" using up by (auto simp: e su dn)
qed

lemma powi_less_cancel: "(2::rat) powi a < 2 powi b \<Longrightarrow> a < b"
  by (meson not_less power_int_increasing one_le_numeral)

lemma expo_unique:
  assumes "2 powi e \<le> x" and "x < 2 powi (e + 1)"
  shows "expo x = e"
proof -
  have x: "0 < x" using assms(1) by (meson less_le_trans zero_less_numeral zero_less_power_int)
  have "e < expo x + 1" using assms(1) expo_bounds(2) [OF x] by (intro powi_less_cancel) simp
  moreover have "expo x < e + 1" using assms(2) expo_bounds(1) [OF x]
    by (intro powi_less_cancel) simp
  ultimately show ?thesis by simp
qed

lemma expo_mono: "0 < x \<Longrightarrow> x \<le> y \<Longrightarrow> expo x \<le> expo y"
proof -
  assume "0 < x" "x \<le> y"
  then have "(2::rat) powi expo x < 2 powi (expo y + 1)"
    using expo_bounds(1) [of x] expo_bounds(2) [of y] by linarith
  then show ?thesis using powi_less_cancel by fastforce
qed

section \<open>Rounding to 53 bits\<close>

definition ulp :: "rat \<Rightarrow> rat" where
  "ulp x = 2 powi (expo x - 52)"

definition fl :: "rat \<Rightarrow> rat" where
  "fl x = (if x = 0 then 0 else sgn x * of_int (rne (\<bar>x\<bar> / ulp \<bar>x\<bar>)) * ulp \<bar>x\<bar>)"

lemma ulp_pos [simp]: "0 < ulp x"
  by (simp add: ulp_def)

lemma ulp_nonneg [simp]: "0 \<le> ulp x"
  by (simp add: less_imp_le)

lemma ulp_nz [simp]: "ulp x \<noteq> 0"
  using ulp_pos [of x] by (metis less_irrefl)

lemma fl_0 [simp]: "fl 0 = 0"
  by (simp add: fl_def)

lemma fl_minus: "fl (- x) = - fl x"
  by (simp add: fl_def sgn_minus)

lemma fl_pos: "0 < x \<Longrightarrow> fl x = of_int (rne (x / ulp x)) * ulp x"
  by (simp add: fl_def)

lemma powi_52: "(2::rat) powi e = of_int (2 ^ 52) * 2 powi (e - 52)"
  and powi_53: "(2::rat) powi (e + 1) = of_int (2 ^ 53) * 2 powi (e - 52)"
  by (simp_all add: power_int_diff power_int_add)

lemma rne_bounds: "0 < x \<Longrightarrow> 2 ^ 52 \<le> rne (x / ulp x) \<and> rne (x / ulp x) \<le> 2 ^ 53"
  using expo_bounds [of x]
  by (auto simp: powi_52 [of "expo x"] powi_53 [of "expo x"] ulp_def [symmetric]
      pos_le_divide_eq pos_divide_le_eq intro!: rne_ge_int rne_le_int)

lemma fl_bounds: "0 < x \<Longrightarrow> 2 powi expo x \<le> fl x \<and> fl x \<le> 2 powi (expo x + 1)"
proof -
  assume x: "0 < x"
  have "of_int (2 ^ 52) \<le> rat_of_int (rne (x / ulp x))"
    and "rat_of_int (rne (x / ulp x)) \<le> of_int (2 ^ 53)"
    using rne_bounds [OF x] by (simp_all only: of_int_le_iff)
  then show ?thesis
    unfolding powi_52 [of "expo x"] powi_53 [of "expo x"] ulp_def [symmetric] fl_pos [OF x]
    by (auto intro: mult_right_mono less_imp_le)
qed

lemma fl_pos_iff: "0 < fl x \<longleftrightarrow> 0 < x"
proof -
  have pos: "0 < y \<Longrightarrow> 0 < fl y" for y
    using fl_bounds [of y] by (meson less_le_trans zero_less_numeral zero_less_power_int)
  then show ?thesis
    using pos [of x] pos [of "- x"] by (cases "x = 0") (auto simp: fl_minus neq_iff)
qed

lemma fl_nonneg: "0 \<le> x \<Longrightarrow> 0 \<le> fl x"
  using fl_pos_iff [of x] by (cases "x = 0") auto

lemma fl_mono_pos:
  assumes "0 < x" and "x \<le> y"
  shows "fl x \<le> fl y"
proof (cases "expo x = expo y")
  case True
  then have u: "ulp x = ulp y" by (simp add: ulp_def)
  have "x / ulp x \<le> y / ulp x" using assms by (intro divide_right_mono) auto
  then have "rat_of_int (rne (x / ulp x)) \<le> of_int (rne (y / ulp y))"
    using rne_mono by (simp add: u)
  then show ?thesis
    using assms by (simp add: fl_pos u mult_right_mono)
next
  case False
  then have "expo x + 1 \<le> expo y" using expo_mono [OF assms] by simp
  then have "(2::rat) powi (expo x + 1) \<le> 2 powi expo y" by (intro power_int_increasing) auto
  then show ?thesis using fl_bounds [of x] fl_bounds [of y] assms by linarith
qed

lemma fl_mono: "x \<le> y \<Longrightarrow> fl x \<le> fl y"
proof -
  assume le: "x \<le> y"
  consider "0 < x" | "x \<le> 0" "0 \<le> y" | "y < 0" using le by linarith
  then show ?thesis
  proof cases
    case 1
    then show ?thesis using fl_mono_pos le by simp
  next
    case 2
    then show ?thesis using fl_nonneg [of y] fl_nonneg [of "- x"] by (simp add: fl_minus)
  next
    case 3
    then show ?thesis using fl_mono_pos [of "- y" "- x"] le by (simp add: fl_minus)
  qed
qed

lemma fl_exact_pos:
  assumes "0 < n" and "n \<le> 2 ^ 53"
  shows "fl (of_int n * 2 powi k) = of_int n * 2 powi k"
proof -
  let ?x = "rat_of_int n * 2 powi k"
  have x: "0 < ?x" using assms by simp
  obtain m :: int where m: "?x / ulp ?x = of_int m"
  proof (cases "n = 2 ^ 53")
    case True
    then have x53: "?x = 2 powi (k + 53)" by (simp add: power_int_add)
    have "expo ?x = k + 53"
      unfolding x53 by (rule expo_unique) (simp_all add: power_int_strict_increasing)
    then have "?x / ulp ?x = 2 powi (k + 53) / 2 powi (k + 1)" by (simp add: ulp_def x53 add.commute)
    also have "\<dots> = 2 powi (k + 53 - (k + 1))" by (subst power_int_diff) simp_all
    finally have "?x / ulp ?x = of_int (2 ^ 52)" by simp
    then show ?thesis by (rule that)
  next
    case False
    then have "n < 2 ^ 53" using assms by simp
    then have "rat_of_int n < of_int (2 ^ 53)" by (simp only: of_int_less_iff)
    then have "?x < 2 powi (k + 53)" by (simp add: power_int_add)
    then have "(2::rat) powi expo ?x < 2 powi (k + 53)"
      using expo_bounds(1) [OF x] by (rule le_less_trans [rotated])
    then have e: "expo ?x \<le> k + 52" using powi_less_cancel by fastforce
    define j where "j = nat (k + 52 - expo ?x)"
    have "?x / ulp ?x = of_int n * 2 powi (k - (expo ?x - 52))"
      by (simp add: ulp_def power_int_diff)
    also have "k - (expo ?x - 52) = int j" using e by (simp add: j_def)
    finally have "?x / ulp ?x = of_int (n * 2 ^ j)" by simp
    then show ?thesis by (rule that)
  qed
  then have "of_int m * ulp ?x = ?x" by (simp add: nonzero_divide_eq_eq)
  then show ?thesis unfolding fl_pos [OF x] m by simp
qed

lemma fl_exact:
  assumes "\<bar>n\<bar> \<le> 2 ^ 53"
  shows "fl (of_int n * 2 powi k) = of_int n * 2 powi k"
proof -
  consider "0 < n" | "n = 0" | "0 < - n" by linarith
  then show ?thesis
  proof cases
    case 1
    then show ?thesis using fl_exact_pos assms by simp
  next
    case 2
    then show ?thesis by simp
  next
    case 3
    then have "fl (of_int (- n) * 2 powi k) = of_int (- n) * 2 powi k"
      using fl_exact_pos [of "- n" k] assms by simp
    then show ?thesis by (simp add: fl_minus)
  qed
qed

lemma fl_form: "\<exists>n k. fl x = of_int n * 2 powi k \<and> \<bar>n\<bar> \<le> 2 ^ 53"
proof -
  have pos: "\<exists>n k. fl y = of_int n * 2 powi k \<and> \<bar>n\<bar> \<le> 2 ^ 53" if "0 < y" for y
    using rne_bounds [OF that] fl_pos [OF that]
    by (intro exI [of _ "rne (y / ulp y)"] exI [of _ "expo y - 52"]) (simp add: ulp_def)
  consider "0 < x" | "x = 0" | "x < 0" by linarith
  then show ?thesis
  proof cases
    case 1
    then show ?thesis by (rule pos)
  next
    case 2
    then show ?thesis by (intro exI [of _ 0]) simp
  next
    case 3
    then obtain n k where "fl (- x) = of_int n * 2 powi k" "\<bar>n\<bar> \<le> 2 ^ 53"
      using pos [of "- x"] by auto
    then show ?thesis by (intro exI [of _ "- n"] exI [of _ k]) (simp add: fl_minus)
  qed
qed

lemma fl_idem [simp]: "fl (fl x) = fl x"
  using fl_form [of x] fl_exact by auto

lemma fl_of_int: "\<bar>n\<bar> \<le> 2 ^ 53 \<Longrightarrow> fl (of_int n) = of_int n"
  using fl_exact [of n 0] by simp

lemma fl_scale_pos:
  assumes "0 < x"
  shows "fl (x * 2 powi k) = fl x * 2 powi k"
proof -
  have "expo (x * 2 powi k) = expo x + k"
  proof (rule expo_unique)
    show "2 powi (expo x + k) \<le> x * 2 powi k"
      using expo_bounds(1) [OF assms] by (simp add: power_int_add)
    show "x * 2 powi k < 2 powi (expo x + k + 1)"
      using expo_bounds(2) [OF assms] by (simp add: power_int_add)
  qed
  then have u: "ulp (x * 2 powi k) = ulp x * 2 powi k"
    by (simp add: ulp_def power_int_add power_int_diff)
  have "x * 2 powi k / ulp (x * 2 powi k) = x / ulp x" by (simp add: u)
  then show ?thesis using assms by (simp add: fl_pos u)
qed

lemma fl_scale: "fl (x * 2 powi k) = fl x * 2 powi k"
proof -
  consider "0 < x" | "x = 0" | "0 < - x" by linarith
  then show ?thesis
  proof cases
    case 3
    then show ?thesis using fl_scale_pos [of "- x" k] by (simp add: fl_minus)
  qed (simp_all add: fl_scale_pos)
qed

lemma fl_error_pos:
  assumes "0 < x"
  shows "\<bar>fl x - x\<bar> \<le> x / 2 ^ 53"
proof -
  have "fl x - x = (of_int (rne (x / ulp x)) - x / ulp x) * ulp x"
    by (simp add: fl_pos [OF assms] left_diff_distrib)
  then have "\<bar>fl x - x\<bar> = \<bar>of_int (rne (x / ulp x)) - x / ulp x\<bar> * ulp x"
    by (simp add: abs_mult)
  also have "\<dots> \<le> 1 / 2 * ulp x" using rne_error by (intro mult_right_mono) auto
  also have "\<dots> \<le> x / 2 ^ 53"
    using expo_bounds(1) [OF assms] by (simp add: ulp_def power_int_diff)
  finally show ?thesis .
qed

lemma fl_error: "\<bar>fl x - x\<bar> \<le> \<bar>x\<bar> / 2 ^ 53"
proof -
  consider "0 < x" | "x = 0" | "0 < - x" by linarith
  then show ?thesis
  proof cases
    case 3
    then show ?thesis using fl_error_pos [of "- x"] by (simp add: fl_minus abs_minus_commute)
  qed (auto dest: fl_error_pos)
qed

text \<open>Rounding a given number, once its binary exponent is known.\<close>

lemma fl_eval:
  assumes "2 powi e \<le> x" and "x < 2 powi (e + 1)"
  shows "fl x = of_int (rne (x / 2 powi (e - 52))) * 2 powi (e - 52)"
proof -
  have "0 < x" using assms(1) by (meson less_le_trans zero_less_numeral zero_less_power_int)
  then show ?thesis by (simp add: fl_pos ulp_def expo_unique [OF assms])
qed

section \<open>What the components rely on\<close>

locale rounding =
  fixes rnd :: "rat \<Rightarrow> rat"
  assumes rnd_mono: "x \<le> y \<Longrightarrow> rnd x \<le> rnd y"
    and rnd_int: "\<bar>n\<bar> \<le> 2 ^ 53 \<Longrightarrow> rnd (of_int n) = of_int n"
    and rnd_idem: "rnd (rnd x) = rnd x"
    and rnd_scale: "rnd (x * 2 powi k) = rnd x * 2 powi k"
    and rnd_error: "\<bar>rnd x - x\<bar> \<le> \<bar>x\<bar> / 2 ^ 53"
begin

lemma rnd_0 [simp]: "rnd 0 = 0"
  using rnd_int [of 0] by simp

lemma rnd_1 [simp]: "rnd 1 = 1"
  using rnd_int [of 1] by simp

lemma rnd_nat: "n \<le> 2 ^ 53 \<Longrightarrow> rnd (of_nat n) = of_nat n"
  using rnd_int [of "int n"] by simp

lemma rnd_nonneg: "0 \<le> x \<Longrightarrow> 0 \<le> rnd x"
  using rnd_mono [of 0 x] by simp

lemma rnd_ge: "rnd t = t \<Longrightarrow> t \<le> x \<Longrightarrow> t \<le> rnd x"
  using rnd_mono by fastforce

lemma rnd_le: "rnd t = t \<Longrightarrow> x \<le> t \<Longrightarrow> rnd x \<le> t"
  using rnd_mono by fastforce

lemma rnd_half: "rnd x = x \<Longrightarrow> rnd (x / 2) = x / 2"
  using rnd_scale [of x "-1"] by (simp add: power_int_minus1_right)

lemma rnd_error_pos: "0 \<le> x \<Longrightarrow> rnd x \<le> x * (1 + 1 / 2 ^ 53)"
  and rnd_error_low: "0 \<le> x \<Longrightarrow> x * (1 - 1 / 2 ^ 53) \<le> rnd x"
proof -
  assume "0 \<le> x"
  then have "\<bar>rnd x - x\<bar> \<le> x / 2 ^ 53" using rnd_error [of x] by simp
  then have "rnd x - x \<le> x / 2 ^ 53" "x - rnd x \<le> x / 2 ^ 53" by linarith+
  then show "rnd x \<le> x * (1 + 1 / 2 ^ 53)" "x * (1 - 1 / 2 ^ 53) \<le> rnd x"
    unfolding distrib_left right_diff_distrib by simp_all
qed

text \<open>A quotient of counts stays between zero and one.\<close>

lemma rnd_quotient: "0 \<le> a \<Longrightarrow> a \<le> b \<Longrightarrow> 0 \<le> rnd (a / b) \<and> rnd (a / b) \<le> 1"
  by (auto intro!: rnd_nonneg rnd_le divide_nonneg_nonneg simp: divide_le_eq_1)

text \<open>
  Comparing a rounded quotient of counts with a power of two decides what the exact
  quotient decides, as long as the counts are small enough for the gap to show.
\<close>

lemma rnd_quotient_less_iff:
  fixes a b :: nat and k :: nat
  assumes "0 < b" and "b * 2 ^ k < 2 ^ 53"
  shows "rnd (of_nat a / of_nat b) < 1 / 2 ^ k \<longleftrightarrow> a * 2 ^ k < b"
proof
  have t: "rnd (1 / 2 ^ k) = 1 / 2 ^ k"
    using rnd_scale [of 1 "- int k"] by (simp add: power_int_minus divide_inverse)
  assume "rnd (of_nat a / of_nat b) < 1 / 2 ^ k"
  then have "rat_of_nat a / of_nat b < 1 / 2 ^ k"
    using rnd_ge [OF t, of "of_nat a / of_nat b"] by linarith
  then have "rat_of_nat (a * 2 ^ k) < of_nat b" using assms(1) by (simp add: field_simps)
  then show "a * 2 ^ k < b" by (simp only: of_nat_less_iff)
next
  assume lt: "a * 2 ^ k < b"
  let ?q = "rat_of_nat a / of_nat b"
  have "rat_of_nat (a * 2 ^ k + 1) \<le> of_nat b" using lt by (simp only: of_nat_le_iff)
  then have gap: "?q * 2 ^ k \<le> 1 - 1 / of_nat b" using assms(1) by (simp add: field_simps)
  have "rat_of_nat b < 2 ^ 53"
  proof -
    have "b * 1 \<le> b * 2 ^ k" by (intro mult_le_mono2) simp
    then have "rat_of_nat b < of_nat (2 ^ 53)" using assms(2) by (simp only: of_nat_less_iff)
    then show ?thesis by simp
  qed
  then have small: "(1::rat) / 2 ^ 53 < 1 / of_nat b" using assms(1) by (simp add: field_simps)
  have "rnd ?q \<le> ?q * (1 + 1 / 2 ^ 53)" by (rule rnd_error_pos) simp
  then have "rnd ?q * 2 ^ k \<le> ?q * (1 + 1 / 2 ^ 53) * 2 ^ k" by (intro mult_right_mono) auto
  also have "\<dots> = ?q * 2 ^ k * (1 + 1 / 2 ^ 53)" by (simp only: mult_ac)
  also have "\<dots> \<le> (1 - 1 / of_nat b) * (1 + 1 / 2 ^ 53)" using gap by (intro mult_right_mono) auto
  also have "\<dots> < 1"
  proof -
    have expand: "(1 - c) * (1 + d) = 1 + (d - c) - c * d" for c d :: rat
      by (simp add: algebra_simps)
    have "0 \<le> 1 / rat_of_nat b * (1 / 2 ^ 53)" by simp
    then show ?thesis unfolding expand using small by linarith
  qed
  finally show "rnd ?q < 1 / 2 ^ k" by (simp add: field_simps)
qed

end

interpretation f64: rounding fl
  by unfold_locales (fact fl_mono fl_of_int fl_idem fl_scale fl_error)+

section \<open>Conversion to an integer\<close>

text \<open>\<^verbatim>\<open>int(x)\<close> drops the fraction.\<close>

definition to_int :: "rat \<Rightarrow> int" where
  "to_int x = (if 0 \<le> x then \<lfloor>x\<rfloor> else \<lceil>x\<rceil>)"

lemma to_int_of_int [simp]: "to_int (of_int n) = n"
  by (simp add: to_int_def)

lemma to_int_mono: "x \<le> y \<Longrightarrow> to_int x \<le> to_int y"
proof -
  assume le: "x \<le> y"
  consider "0 \<le> x" | "x < 0" "0 \<le> y" | "y < 0" using le by linarith
  then show ?thesis
  proof cases
    case 2
    then have "\<lceil>x\<rceil> \<le> 0" "0 \<le> \<lfloor>y\<rfloor>" by (simp_all only: ceiling_le_zero zero_le_floor less_imp_le)
    then have "\<lceil>x\<rceil> \<le> \<lfloor>y\<rfloor>" by (rule order_trans)
    with 2 show ?thesis by (simp add: to_int_def)
  qed (use le in \<open>auto simp: to_int_def intro: floor_mono ceiling_mono\<close>)
qed

lemma to_int_nonneg: "0 \<le> x \<Longrightarrow> 0 \<le> to_int x"
  by (simp add: to_int_def)

end
