(* ===== verification/Frame.thy ===== *)
theory Frame
  imports BlockMap Float64
begin

text \<open>
  Judging pageblocks, \<^verbatim>\<open>packages/fragview/render.go\<close>: the verdict on one block
  (\<^verbatim>\<open>summarise\<close>), the totals of a frame (\<^verbatim>\<open>frame.summarise\<close>) and the character cell that
  stands for a run of blocks (\<^verbatim>\<open>cellFor\<close>).
\<close>

section \<open>The verdict on one block\<close>

record block_view =
  valid :: bool
  occ :: rat
  pick :: pclass
  movable :: bool
  hostage :: bool

text \<open>The zero value \<^verbatim>\<open>blockView{}\<close>.\<close>

definition no_view :: block_view where
  "no_view = \<lparr>valid = False, occ = 0, pick = clNone, movable = False, hostage = False\<rparr>"

definition known_pages :: "counts \<Rightarrow> nat" where
  "known_pages c = (\<Sum>i\<leftarrow>ram_classes. unat (c i))"

text \<open>The loop over the used classes: their immovable pages, and the largest of them.\<close>

definition pick_step :: "bool \<Rightarrow> counts \<Rightarrow> nat \<times> pclass \<Rightarrow> pclass \<Rightarrow> nat \<times> pclass" where
  "pick_step abdMovable c s i =
     (let (imm, p) = s
      in if \<not> immovable abdMovable i then (imm, p)
         else (imm + unat (c i), if c p < c i \<or> \<not> immovable abdMovable p then i else p))"

definition summarise :: "bool \<Rightarrow> counts \<Rightarrow> block_view" where
  "summarise abdMovable c =
     (let known = known_pages c
      in if known = 0 then no_view
         else
           (let used = known - unat (c clFree);
                (imm, p) = foldl (pick_step abdMovable c) (0, clFree) used_classes;
                p' = (if imm = 0 then first_max c clFree [clAnon, clShmem, clFile] else p);
                oc = fl (fl (of_nat used) / fl (of_nat known))
            in \<lparr>valid = True, occ = oc, pick = p', movable = (imm = 0),
                hostage = (0 < imm \<and> oc < 1 / 8)\<rparr>))"

section \<open>What the loop computes\<close>

definition immovable_classes :: "bool \<Rightarrow> pclass list" where
  "immovable_classes abdMovable = filter (immovable abdMovable) used_classes"

definition used_pages :: "counts \<Rightarrow> nat" where
  "used_pages c = (\<Sum>i\<leftarrow>used_classes. unat (c i))"

definition immovable_pages :: "bool \<Rightarrow> counts \<Rightarrow> nat" where
  "immovable_pages abdMovable c = (\<Sum>i\<leftarrow>immovable_classes abdMovable. unat (c i))"

lemma immovable_classes_eq: "immovable_classes abdMovable =
    (if abdMovable then [] else [clABD]) @
    [clSlab, clPgtab, clCompound, clUncached, clKernel, clReserved, clUnknown]"
  by (simp add: immovable_classes_def used_classes_eq)

lemma set_immovable_classes: "set (immovable_classes abdMovable) = {k. immovable abdMovable k}"
proof -
  have "k \<in> set (immovable_classes abdMovable) \<longleftrightarrow> immovable abdMovable k" for k
    by (cases k) (simp_all add: immovable_classes_eq)
  then show ?thesis by auto
qed

lemma known_pages_split: "known_pages c = unat (c clFree) + used_pages c"
  by (simp add: known_pages_def used_pages_def ram_classes_Cons)

lemma foldl_pick_filter:
  "foldl (pick_step mv c) s xs = foldl (pick_step mv c) s (filter (immovable mv) xs)"
  by (induction xs arbitrary: s) (auto simp: pick_step_def)

lemma foldl_pick_max:
  assumes "immovable mv p" and "\<forall>x \<in> set xs. immovable mv x"
  shows "foldl (pick_step mv c) (n, p) xs =
    (n + (\<Sum>i\<leftarrow>xs. unat (c i)), first_max c p xs)"
  using assms by (induction xs arbitrary: n p) (simp_all add: pick_step_def add.assoc)

lemma foldl_pick:
  "foldl (pick_step mv c) (0, clFree) used_classes =
    (immovable_pages mv c, first_max c (hd (immovable_classes mv)) (tl (immovable_classes mv)))"
proof -
  obtain x xs where im: "immovable_classes mv = x # xs"
    by (cases "immovable_classes mv") (auto simp: immovable_classes_eq)
  have all: "\<forall>k \<in> set (x # xs). immovable mv k"
    unfolding im [symmetric] set_immovable_classes by simp
  have "foldl (pick_step mv c) (0, clFree) used_classes
      = foldl (pick_step mv c) (unat (c x), x) xs"
    using all by (subst foldl_pick_filter)
      (simp add: im immovable_classes_def [symmetric], simp add: pick_step_def)
  then show ?thesis
    using all by (simp add: foldl_pick_max im immovable_pages_def)
qed

lemma unat_u16: "unat (x :: u16) < 65536"
  using unsigned_less [of x, where ?'a = nat] by simp

lemma sum_counts_bound: "(\<Sum>i\<leftarrow>xs. unat ((c :: counts) i)) \<le> 65535 * length xs"
proof (induction xs)
  case (Cons x xs)
  then show ?case using unat_u16 [of "c x"] by simp
qed simp

lemma known_pages_bound: "known_pages c \<le> 786420"
  using sum_counts_bound [of c ram_classes] by (simp add: known_pages_def ram_classes_eq)

lemma occ_threshold:
  assumes "0 < known_pages c"
  shows "fl (fl (of_nat (used_pages c)) / fl (of_nat (known_pages c))) < 1 / 8 \<longleftrightarrow>
    8 * used_pages c < known_pages c"
proof -
  have "used_pages c \<le> 2 ^ 53" "known_pages c \<le> 2 ^ 53"
    using known_pages_bound [of c] by (simp_all add: known_pages_split)
  then have "fl (of_nat (used_pages c)) = of_nat (used_pages c)"
    "fl (of_nat (known_pages c)) = of_nat (known_pages c)"
    by (simp_all only: f64.rnd_nat)
  then show ?thesis
    using f64.rnd_quotient_less_iff [of "known_pages c" 3 "used_pages c"] assms
      known_pages_bound [of c] by (simp add: mult.commute)
qed

lemmas summarise_simps = summarise_def [unfolded foldl_pick Let_def prod.case]

lemma summarise_none: "known_pages c = 0 \<Longrightarrow> summarise mv c = no_view"
  by (simp add: summarise_def)

lemma summarise_some:
  assumes "known_pages c \<noteq> 0"
  shows "summarise mv c =
    \<lparr>valid = True,
     occ = fl (fl (of_nat (used_pages c)) / fl (of_nat (known_pages c))),
     pick = (if immovable_pages mv c = 0 then first_max c clFree [clAnon, clShmem, clFile]
             else first_max c (hd (immovable_classes mv)) (tl (immovable_classes mv))),
     movable = (immovable_pages mv c = 0),
     hostage = (0 < immovable_pages mv c \<and> 8 * used_pages c < known_pages c)\<rparr>"
proof -
  have "known_pages c - unat (c clFree) = used_pages c" by (simp add: known_pages_split)
  moreover have "0 < known_pages c" using assms by simp
  ultimately show ?thesis
    unfolding summarise_simps by (simp only: occ_threshold if_False assms)
qed

lemma immovable_pages_pos:
  "0 < immovable_pages mv c \<longleftrightarrow> (\<exists>k. immovable mv k \<and> c k \<noteq> 0)"
  by (auto simp: immovable_pages_def set_immovable_classes unat_eq_0 simp flip: neq0_conv)

lemma sum_filter_le: "(\<Sum>i\<leftarrow>filter P xs. f i) \<le> (\<Sum>i\<leftarrow>xs. f i :: nat)"
  by (induction xs) auto

lemma immovable_pages_le_used: "immovable_pages mv c \<le> used_pages c"
  by (simp add: immovable_pages_def immovable_classes_def used_pages_def sum_filter_le)

lemma known_pages_pos: "0 < immovable_pages mv c \<Longrightarrow> known_pages c \<noteq> 0"
  using immovable_pages_le_used [of mv c] by (simp add: known_pages_split)

lemma summarise_hostage:
  "hostage (summarise mv c) \<longleftrightarrow> 0 < immovable_pages mv c \<and> 8 * used_pages c < known_pages c"
  using known_pages_pos [of mv c]
  by (cases "known_pages c = 0") (auto simp: summarise_none summarise_some no_view_def)

lemma summarise_valid: "valid (summarise mv c) \<longleftrightarrow> known_pages c \<noteq> 0"
  by (cases "known_pages c = 0") (simp_all add: summarise_none summarise_some no_view_def)

lemma summarise_occ:
  assumes "known_pages c \<noteq> 0"
  shows "occ (summarise mv c) = fl (of_nat (used_pages c) / of_nat (known_pages c))"
proof -
  have "used_pages c \<le> 2 ^ 53" "known_pages c \<le> 2 ^ 53"
    using known_pages_bound [of c] by (simp_all add: known_pages_split)
  then show ?thesis by (simp only: summarise_some [OF assms] block_view.simps f64.rnd_nat)
qed

lemma summarise_occ_bounds: "0 \<le> occ (summarise mv c) \<and> occ (summarise mv c) \<le> 1"
proof (cases "known_pages c = 0")
  case True
  then show ?thesis by (simp add: summarise_none no_view_def)
next
  case False
  have "rat_of_nat (used_pages c) \<le> of_nat (known_pages c)"
    by (simp only: of_nat_le_iff) (simp add: known_pages_split)
  then show ?thesis unfolding summarise_occ [OF False] by (intro f64.rnd_quotient) simp
qed

lemma summarise_occ_pos: "0 < occ (summarise mv c) \<longleftrightarrow> 0 < used_pages c"
proof (cases "known_pages c = 0")
  case True
  then show ?thesis by (simp add: summarise_none no_view_def known_pages_split)
next
  case False
  then show ?thesis by (simp add: summarise_occ fl_pos_iff zero_less_divide_iff)
qed

text \<open>
  C2. A block is reported hostage exactly when it holds an immovable page and less than an
  eighth of its pages are in use. The division and the comparison are done in floating
  point; on page counts of this size they decide what whole numbers decide.
\<close>

theorem summarise_hostage_iff:
  "hostage (summarise mv c) \<longleftrightarrow>
    (\<exists>k. immovable mv k \<and> c k \<noteq> 0) \<and> 8 * used_pages c < known_pages c"
  by (simp add: summarise_hostage immovable_pages_pos)

text \<open>
  The class a block is painted in is its largest immovable one, the first in the order of
  the classes where several are equal, and \<^verbatim>\<open>movable\<close> says that there is none.
\<close>

theorem summarise_pick:
  assumes "known_pages c \<noteq> 0"
  shows "(movable (summarise mv c) \<longleftrightarrow> (\<forall>k. immovable mv k \<longrightarrow> c k = 0)) \<and>
    (\<not> movable (summarise mv c) \<longrightarrow>
      immovable mv (pick (summarise mv c)) \<and>
      (\<forall>k. immovable mv k \<longrightarrow> c k \<le> c (pick (summarise mv c))) \<and>
      (\<forall>k. immovable mv k \<and> c k = c (pick (summarise mv c)) \<longrightarrow> pick (summarise mv c) \<le> k))"
proof -
  let ?ks = "immovable_classes mv"
  obtain x xs where ks: "?ks = x # xs" by (cases ?ks) (auto simp: immovable_classes_eq)
  let ?p = "first_max c x xs"
  have mem: "k \<in> insert x (set xs) \<longleftrightarrow> immovable mv k" for k
    using set_immovable_classes [of mv] ks by auto
  obtain ys zs where split: "x # xs = ys @ ?p # zs" "\<forall>y \<in> set ys. c y < c ?p"
    using first_max_first [of x xs c] by blast
  have "sorted ?ks" by (cases mv) (simp_all add: immovable_classes_eq less_eq_pclass_def)
  then have later: "\<forall>k \<in> set zs. ?p \<le> k"
    unfolding ks using split(1) by (metis sorted_append sorted_simps(2))
  have "?p \<le> k" if "immovable mv k" "c k = c ?p" for k
  proof -
    have "k \<in> set (ys @ ?p # zs)" using mem [of k] that(1) split(1) [symmetric] by simp
    moreover have "k \<notin> set ys" using split(2) that(2) by auto
    ultimately show ?thesis using later by auto
  qed
  moreover have "immovable mv ?p" using first_max_mem [of c x xs] mem [of ?p] by simp
  moreover have "c k \<le> c ?p" if "immovable mv k" for k
    using first_max_ge [of k x xs c] mem [of k] that by simp
  moreover have "immovable_pages mv c = 0 \<longleftrightarrow> (\<forall>k. immovable mv k \<longrightarrow> c k = 0)"
    using immovable_pages_pos [of mv c] by auto
  ultimately show ?thesis by (auto simp: summarise_some [OF assms] ks)
qed

definition mixed_block :: counts where
  "mixed_block = zero_counts(clFree := 480, clAnon := 20, clSlab := 4, clKernel := 4, clFile := 4)"

lemma known_mixed_block: "known_pages mixed_block = 512"
  by (simp add: known_pages_def mixed_block_def zero_counts_def ram_classes_eq)

lemma summarise_pick_witness: "clSlab = pick (summarise False mixed_block)"
proof -
  have known: "known_pages mixed_block \<noteq> 0" by (simp add: known_mixed_block)
  note P = summarise_pick [OF known, of False]
  have "immovable False clSlab \<and> mixed_block clSlab \<noteq> 0"
    by (simp add: mixed_block_def)
  then have m: "\<not> movable (summarise False mixed_block)" using P by blast
  let ?p = "pick (summarise False mixed_block)"
  have "immovable False ?p" "mixed_block clSlab \<le> mixed_block ?p"
    using P m \<open>immovable False clSlab \<and> _\<close> by blast+
  then have "mixed_block clSlab = mixed_block ?p"
    by (cases ?p) (simp_all add: mixed_block_def zero_counts_def)
  then have "?p \<le> clSlab" using P m \<open>immovable False clSlab \<and> _\<close> by blast
  with \<open>immovable False ?p\<close> \<open>mixed_block clSlab = mixed_block ?p\<close> show ?thesis
    by (cases ?p) (simp_all add: mixed_block_def zero_counts_def less_eq_pclass_def)
qed

text \<open>
  A machine that can relocate ARC pages never has more hostage blocks for it: a hostage
  there is a hostage on a machine that cannot, with the same share of pages in use.
\<close>

theorem summarise_relocation_antitone:
  assumes "hostage (summarise True c)"
  shows "hostage (summarise False c) \<and> occ (summarise False c) = occ (summarise True c)"
proof -
  have h: "0 < immovable_pages True c" "8 * used_pages c < known_pages c"
    using assms by (simp_all add: summarise_hostage)
  moreover have "known_pages c \<noteq> 0" using h known_pages_pos by blast
  moreover have "immovable_pages True c \<le> immovable_pages False c"
    by (simp add: immovable_pages_def immovable_classes_eq)
  ultimately show ?thesis by (simp add: summarise_hostage summarise_occ)
qed

lemma summarise_relocation_antitone_witness: "hostage (summarise False mixed_block)"
proof (rule summarise_relocation_antitone [THEN conjunct1])
  show "hostage (summarise True mixed_block)"
    unfolding summarise_hostage known_mixed_block
    by (simp add: immovable_pages_def immovable_classes_eq used_pages_def
      used_classes_eq mixed_block_def zero_counts_def)
qed

text \<open>
  On a machine that can relocate ARC pages, a block that holds nothing else in use is
  classed as free memory, however full it is: the choice among the movable classes leaves
  that class out.
\<close>

theorem summarise_relocatable_arc_is_free:
  assumes "0 < c clABD" and "\<forall>k. k \<notin> {clNone, clFree, clABD} \<longrightarrow> c k = 0"
  shows "valid (summarise True c) \<and> movable (summarise True c) \<and>
    pick (summarise True c) = clFree \<and>
    occ (summarise True c) =
      fl (of_nat (unat (c clABD)) / of_nat (unat (c clFree) + unat (c clABD)))"
proof -
  have z: "c k = 0" if "k \<notin> {clNone, clFree, clABD}" for k using assms(2) that by blast
  have known: "known_pages c = unat (c clFree) + unat (c clABD)"
    by (simp add: known_pages_def ram_classes_eq z)
  have used: "used_pages c = unat (c clABD)"
    by (simp add: used_pages_def used_classes_eq z)
  have nz: "known_pages c \<noteq> 0"
    using assms(1) known by (simp add: unat_eq_zero word_neq_0_conv)
  have "immovable_pages True c = 0"
    by (simp add: immovable_pages_def immovable_classes_eq z)
  moreover have "first_max c clFree [clAnon, clShmem, clFile] = clFree"
    by (simp add: z)
  moreover have "occ (summarise True c) =
      fl (of_nat (unat (c clABD)) / of_nat (unat (c clFree) + unat (c clABD)))"
    by (simp only: summarise_occ [OF nz] known used)
  ultimately show ?thesis using nz by (simp add: summarise_some)
qed

lemma summarise_relocatable_arc_is_free_witness:
  "pick (summarise True (zero_counts(clABD := 512))) = clFree"
  using summarise_relocatable_arc_is_free [of "zero_counts(clABD := 512)"]
  by (simp add: zero_counts_def)

end
