(* ===== verification/MapFrame.thy ===== *)
theory MapFrame
  imports Frame
begin

text \<open>
  The frame's account of the whole map, \<^verbatim>\<open>packages/fragview/render.go\<close>: the totals of a
  frame (\<^verbatim>\<open>frame.summarise\<close>) and the character cell that stands for a run of blocks
  (\<^verbatim>\<open>cellFor\<close>).
\<close>

section \<open>The totals of a frame\<close>

text \<open>
  The fields of \<^verbatim>\<open>frame\<close> that the map is judged and windowed by. The window and the totals
  are \<^verbatim>\<open>int\<close>s of the source.
\<close>

record map_frame =
  m :: block_map
  pagesPerBlock :: nat
  views :: "block_view list"
  hostages :: nat
  hostageFree :: nat
  viewFrom :: int
  viewTo :: int

text \<open>
  The loop over \<^verbatim>\<open>f.m.counts\<close>. The map is built with one array of counters per block, so the
  store into \<^verbatim>\<open>f.views\<close> is in range (\<open>map_ok\<close>).
\<close>

fun summarise_blocks ::
  "bool \<Rightarrow> counts list \<Rightarrow> nat \<Rightarrow> block_view list \<times> nat \<times> nat \<Rightarrow> block_view list \<times> nat \<times> nat" where
  "summarise_blocks abdMovable [] i s = s"
| "summarise_blocks abdMovable (c # cs) i (vs, h, free) =
     (let v = summarise abdMovable c
      in summarise_blocks abdMovable cs (Suc i)
           (vs[i := v],
            if hostage v then h + 1 else h,
            if hostage v then free + unat (c clFree) else free))"

definition frame_summarise :: "bool \<Rightarrow> 'a map_frame_scheme \<Rightarrow> 'a map_frame_scheme" where
  "frame_summarise abdMovable f =
     (let n = nblocks (m f);
          vs = (if length (views f) \<noteq> n then replicate n no_view else views f);
          (vs', h, free) = summarise_blocks abdMovable (counts (m f)) 0 (vs, 0, 0)
      in f\<lparr>views := vs', hostages := h, hostageFree := free,
           viewTo := (if viewTo f = 0 \<or> viewTo f > int n then int n else viewTo f)\<rparr>)"

definition map_ok :: "block_map \<Rightarrow> bool" where
  "map_ok b \<longleftrightarrow> length (counts b) = nblocks b"

lemma newBlockMap_ok: "newBlockMap ppb rs = Inr b \<Longrightarrow> map_ok b"
  by (auto simp: newBlockMap_def and_then_Inr_iff map_ok_def Let_def split: if_splits)

lemma summarise_blocks_eq:
  "length vs = i + length cs \<Longrightarrow>
   summarise_blocks mv cs i (vs, h, free) =
     (take i vs @ map (summarise mv) cs,
      h + length (filter (hostage \<circ> summarise mv) cs),
      free + (\<Sum>c\<leftarrow>filter (hostage \<circ> summarise mv) cs. unat (c clFree)))"
proof (induction cs arbitrary: i vs h free)
  case Nil
  then show ?case by simp
next
  case (Cons c cs)
  have "take (Suc i) (vs[i := summarise mv c]) = take i vs @ [summarise mv c]"
    using Cons.prems by (simp add: take_Suc_conv_app_nth)
  then show ?case using Cons by (simp add: Let_def)
qed

lemma frame_summarise_eq:
  assumes "map_ok (m f)"
  shows "frame_summarise mv f =
    f\<lparr>views := map (summarise mv) (counts (m f)),
      hostages := length (filter (hostage \<circ> summarise mv) (counts (m f))),
      hostageFree := (\<Sum>c\<leftarrow>filter (hostage \<circ> summarise mv) (counts (m f)). unat (c clFree)),
      viewTo := (if viewTo f = 0 \<or> viewTo f > int (nblocks (m f)) then int (nblocks (m f))
                 else viewTo f)\<rparr>"
  using assms by (simp add: frame_summarise_def Let_def summarise_blocks_eq map_ok_def)

section \<open>The character cell of a run of blocks\<close>

text \<open>The escape sequence in front of a cell's glyph.\<close>

datatype cell_colour = cHostage | byOwner pclass | pinFree | pinMovable | pinImmovable

text \<open>
  The accumulators of the first loop: the number of valid blocks, the sum of their
  occupancies, the count per class, the number of movable blocks, the worst hostage.
\<close>

record cell_acc =
  seen :: nat
  sumOcc :: rat
  counted :: "pclass \<Rightarrow> nat"
  moving :: nat
  worst :: block_view

definition cell_step :: "cell_acc \<Rightarrow> block_view \<Rightarrow> cell_acc" where
  "cell_step s v =
     (if \<not> valid v then s
      else \<lparr>seen = seen s + 1,
            sumOcc = fl (sumOcc s + occ v),
            counted = (counted s)(pick v := counted s (pick v) + 1),
            moving = (if movable v then moving s + 1 else moving s),
            worst = (if hostage v \<and> (\<not> hostage (worst s) \<or> occ v < occ (worst s)) then v
                     else worst s)\<rparr>)"

definition glyph_index :: "rat \<Rightarrow> int" where
  "glyph_index oc =
     (let idx = to_int (fl (oc * fl (8999 / 1000)));
          idx' = (if idx = 0 \<and> 0 < oc then 1 else idx)
      in if idx' > 8 then 8 else idx')"

text \<open>
  \<^verbatim>\<open>cellFor\<close>: nothing for a run without memory, else the colour and the index into
  \<^verbatim>\<open>fillGlyph\<close>.
\<close>

definition cellFor :: "block_view list \<Rightarrow> nat \<Rightarrow> nat \<Rightarrow> bool \<Rightarrow> (cell_colour \<times> int) option" where
  "cellFor vs from to byClass =
     (let s = foldl cell_step
                \<lparr>seen = 0, sumOcc = 0, counted = \<lambda>_. 0, moving = 0, worst = no_view\<rparr>
                (take (to - from) (drop from vs))
      in if seen s = 0 then None
         else
           (let w = worst s;
                v = (if hostage w then w
                     else w\<lparr>occ := fl (sumOcc s / fl (of_nat (seen s))),
                            movable := moving s * 2 > seen s,
                            pick := first_max (counted s) clFree ram_classes\<rparr>);
                colour = (if hostage v then cHostage
                          else if byClass then byOwner (pick v)
                          else if pick v = clFree then pinFree
                          else if movable v then pinMovable
                          else pinImmovable)
            in Some (colour, glyph_index (occ v))))"

definition cell_start :: cell_acc where
  "cell_start = \<lparr>seen = 0, sumOcc = 0, counted = \<lambda>_. 0, moving = 0, worst = no_view\<rparr>"

lemma cell_seen: "seen (foldl cell_step s vs) = seen s + length (filter valid vs)"
  by (induction vs arbitrary: s) (simp_all add: cell_step_def)

lemma cell_worst_hostage:
  "hostage (worst (foldl cell_step s vs)) \<longleftrightarrow>
    hostage (worst s) \<or> (\<exists>v \<in> set vs. valid v \<and> hostage v)"
  by (induction vs arbitrary: s) (auto simp: cell_step_def)

lemma cell_worst_mem: "worst (foldl cell_step s vs) \<in> insert (worst s) (set vs)"
proof (induction vs arbitrary: s)
  case Nil
  show ?case by simp
next
  case (Cons v vs)
  show ?case using Cons.IH [of "cell_step s v"] by (auto simp: cell_step_def split: if_splits)
qed

lemma cell_sum_nonneg:
  "\<forall>v \<in> set vs. 0 \<le> occ v \<Longrightarrow> 0 \<le> sumOcc s \<Longrightarrow> 0 \<le> sumOcc (foldl cell_step s vs)"
  by (induction vs arbitrary: s) (simp_all add: cell_step_def f64.rnd_nonneg)

lemma cell_sum_pos:
  assumes "\<forall>v \<in> set vs. 0 \<le> occ v" and "0 \<le> sumOcc s"
  shows "0 < sumOcc (foldl cell_step s vs) \<longleftrightarrow>
    0 < sumOcc s \<or> (\<exists>v \<in> set vs. valid v \<and> 0 < occ v)"
  using assms
proof (induction vs arbitrary: s)
  case Nil
  then show ?case by simp
next
  case (Cons v vs)
  have "0 \<le> sumOcc (cell_step s v)" using Cons.prems by (simp add: cell_step_def f64.rnd_nonneg)
  then have "0 < sumOcc (foldl cell_step (cell_step s v) vs) \<longleftrightarrow>
      0 < sumOcc (cell_step s v) \<or> (\<exists>v \<in> set vs. valid v \<and> 0 < occ v)"
    using Cons by simp
  moreover have "0 < sumOcc (cell_step s v) \<longleftrightarrow> 0 < sumOcc s \<or> valid v \<and> 0 < occ v"
    using Cons.prems by (auto simp: cell_step_def fl_pos_iff)
  ultimately show ?case by auto
qed

text \<open>The literal \<^verbatim>\<open>8.999\<close> as a \<^verbatim>\<open>float64\<close>.\<close>

lemma glyph_factor: "8 \<le> fl (8999 / 1000)" "fl (8999 / 1000) < 9"
proof -
  have "fl 8 = 8" using fl_of_int [of 8] by simp
  then show "8 \<le> fl (8999 / 1000)" by (rule f64.rnd_ge) simp
  have "fl (8999 / 1000) \<le> 8999 / 1000 * (1 + 1 / 2 ^ 53)" by (rule f64.rnd_error_pos) simp
  then show "fl (8999 / 1000) < 9" by simp
qed

lemma glyph_index_pos:
  assumes "0 \<le> oc"
  shows "0 \<le> glyph_index oc \<and> glyph_index oc \<le> 8 \<and> (glyph_index oc = 0 \<longleftrightarrow> oc = 0)"
proof -
  have "0 \<le> oc * fl (8999 / 1000)" using assms glyph_factor by simp
  then have "0 \<le> to_int (fl (oc * fl (8999 / 1000)))" by (intro to_int_nonneg fl_nonneg)
  moreover have "to_int 0 = 0" using to_int_of_int [of 0] by simp
  ultimately show ?thesis using assms by (auto simp: glyph_index_def Let_def)
qed

lemma glyph_index_low:
  assumes "0 < oc" and "oc < 1 / 8"
  shows "glyph_index oc = 1"
proof -
  let ?k = "fl (8999 / 1000)"
  have "oc * ?k \<le> 1 / 8 * 9" using assms glyph_factor by (intro mult_mono) auto
  moreover have "fl (9 / 8) = 9 / 8" using fl_exact [of 9 "-3"] by (simp add: power_int_minus)
  ultimately have "fl (oc * ?k) \<le> 9 / 8" by (intro f64.rnd_le) auto
  then have "to_int (fl (oc * ?k)) \<le> to_int (9 / 8)" by (rule to_int_mono)
  also have "to_int (9 / 8) = 1" by (simp add: to_int_def floor_eq_iff)
  finally have "to_int (fl (oc * ?k)) \<le> 1" .
  moreover have "0 \<le> to_int (fl (oc * ?k))"
    using assms glyph_factor by (intro to_int_nonneg fl_nonneg) simp
  ultimately have "to_int (fl (oc * ?k)) = 0 \<or> to_int (fl (oc * ?k)) = 1" by linarith
  then show ?thesis using assms by (auto simp: glyph_index_def Let_def)
qed

lemma hostage_occ:
  assumes "hostage (summarise mv c)"
  shows "valid (summarise mv c) \<and> 0 < occ (summarise mv c) \<and> occ (summarise mv c) < 1 / 8"
proof -
  have h: "0 < immovable_pages mv c" "8 * used_pages c < known_pages c"
    using assms by (simp_all add: summarise_hostage)
  then have k: "known_pages c \<noteq> 0" by simp
  have "occ (summarise mv c) = fl (fl (of_nat (used_pages c)) / fl (of_nat (known_pages c)))"
    using k by (simp add: summarise_some)
  then have "occ (summarise mv c) < 1 / 8"
    using occ_threshold [of c] h(2) k by (simp del: less_divide_eq_numeral1)
  moreover have "0 < used_pages c" using h(1) immovable_pages_le_used [of mv c] by simp
  ultimately show ?thesis by (simp only: summarise_occ_pos summarise_valid k) simp
qed

lemma cellFor_hostage:
  assumes "c \<in> set (take (to - from) (drop from cs))" and "hostage (summarise mv c)"
  shows "cellFor (map (summarise mv) cs) from to byClass = Some (cHostage, 1)"
proof -
  let ?vs = "map (summarise mv) (take (to - from) (drop from cs))"
  let ?s = "foldl cell_step cell_start ?vs"
  have v: "summarise mv c \<in> set ?vs" "valid (summarise mv c)"
    using assms hostage_occ by auto
  then have "hostage (worst ?s)" using assms(2) by (auto simp: cell_worst_hostage)
  moreover have "worst ?s \<in> insert no_view (set ?vs)"
    using cell_worst_mem [of cell_start ?vs] by (simp add: cell_start_def)
  ultimately have "\<exists>d. worst ?s = summarise mv d \<and> hostage (summarise mv d)"
    by (auto simp: no_view_def)
  then have "glyph_index (occ (worst ?s)) = 1" using hostage_occ glyph_index_low by fastforce
  moreover have "seen ?s \<noteq> 0" using v by (auto simp: cell_seen filter_empty_conv)
  ultimately show ?thesis
    using \<open>hostage (worst ?s)\<close>
    by (simp add: cellFor_def Let_def cell_start_def take_map drop_map)
qed

section \<open>Properties\<close>

text \<open>
  After \<^verbatim>\<open>frame.summarise\<close> the frame holds the verdict on every block, the number of
  hostages and the free pages inside them, the window is not empty on its right side, and a
  second call changes nothing.
\<close>

theorem frame_summarise_totals:
  assumes "map_ok (m f)"
  shows "views (frame_summarise mv f) = map (summarise mv) (counts (m f)) \<and>
    hostages (frame_summarise mv f) = length (filter hostage (views (frame_summarise mv f))) \<and>
    hostageFree (frame_summarise mv f) =
      (\<Sum>c\<leftarrow>filter (\<lambda>c. hostage (summarise mv c)) (counts (m f)). unat (c clFree)) \<and>
    viewTo (frame_summarise mv f) \<le> int (nblocks (m f)) \<and>
    frame_summarise mv (frame_summarise mv f) = frame_summarise mv f"
  using assms by (simp add: frame_summarise_eq filter_map comp_def)

definition sample_frame :: map_frame where
  "sample_frame = \<lparr>m = \<lparr>firstPFN = 0, nblocks = 2, counts = [mixed_block, zero_counts],
     ranges = []\<rparr>, pagesPerBlock = 512, views = [], hostages = 0, hostageFree = 0,
     viewFrom = 0, viewTo = 0\<rparr>"

lemma frame_summarise_totals_witness:
  "views (frame_summarise False sample_frame) = [summarise False mixed_block, no_view]"
proof -
  have "map_ok (m sample_frame)" by (simp add: map_ok_def sample_frame_def)
  moreover have "summarise False zero_counts = no_view"
    by (simp add: summarise_none known_pages_def zero_counts_def ram_classes_eq)
  ultimately show ?thesis
    using frame_summarise_totals [of sample_frame False] by (simp add: sample_frame_def)
qed

text \<open>
  A hostage anywhere in a run of blocks shows: the cell is drawn in the hostage colour
  with the lowest filled glyph, whatever its neighbours hold and whichever colouring is on.
\<close>

theorem cellFor_hostage_wins:
  assumes "c \<in> set (take (to - from) (drop from cs))" and "hostage (summarise mv c)"
  shows "cellFor (map (summarise mv) cs) from to byClass = Some (cHostage, 1)"
  using assms by (rule cellFor_hostage)

lemma hostage_mixed_block: "hostage (summarise False mixed_block)"
  unfolding summarise_hostage known_mixed_block
  by (simp add: immovable_pages_def immovable_classes_eq used_pages_def used_classes_eq
    mixed_block_def zero_counts_def)

lemma cellFor_hostage_wins_witness:
  "cellFor (map (summarise False) [zero_counts, mixed_block]) 0 2 True = Some (cHostage, 1)"
  by (rule cellFor_hostage_wins [where c = mixed_block]) (simp_all add: hostage_mixed_block)

text \<open>
  A cell is blank exactly when its run holds no memory at all. Where it is drawn without
  a hostage the hostage colour is not used, and the glyph is one of the nine, the empty one
  exactly when no page of the run is in use.
\<close>

theorem cellFor_cases:
  assumes "run = take (to - from) (drop from cs)"
  shows "(cellFor (map (summarise mv) cs) from to byClass = None \<longleftrightarrow>
      (\<forall>c \<in> set run. known_pages c = 0)) \<and>
    ((\<exists>c \<in> set run. known_pages c \<noteq> 0) \<and> (\<forall>c \<in> set run. \<not> hostage (summarise mv c)) \<longrightarrow>
      (\<exists>colour g. cellFor (map (summarise mv) cs) from to byClass = Some (colour, g) \<and>
        colour \<noteq> cHostage \<and> 0 \<le> g \<and> g \<le> 8 \<and>
        (g = 0 \<longleftrightarrow> (\<forall>c \<in> set run. used_pages c = 0))))"
proof -
  let ?vs = "map (summarise mv) run"
  let ?s = "foldl cell_step cell_start ?vs"
  have vs: "take (to - from) (drop from (map (summarise mv) cs)) = ?vs"
    by (simp add: assms take_map drop_map)
  have seen: "seen ?s = 0 \<longleftrightarrow> (\<forall>c \<in> set run. known_pages c = 0)"
    by (auto simp: cell_seen cell_start_def filter_empty_conv summarise_valid)
  have occs: "\<forall>v \<in> set ?vs. 0 \<le> occ v" using summarise_occ_bounds by auto
  have sum: "0 \<le> sumOcc ?s" using occs by (intro cell_sum_nonneg) (simp_all add: cell_start_def)
  have pos: "0 < sumOcc ?s \<longleftrightarrow> (\<exists>c \<in> set run. 0 < used_pages c)"
  proof -
    have "0 < used_pages c \<Longrightarrow> valid (summarise mv c)" for c
      by (simp add: summarise_valid known_pages_split)
    then show ?thesis
      using cell_sum_pos [OF occs, of cell_start]
      by (auto simp: cell_start_def summarise_occ_pos)
  qed
  have none: "\<not> hostage (worst ?s)" if "\<forall>c \<in> set run. \<not> hostage (summarise mv c)"
    using that by (auto simp: cell_worst_hostage cell_start_def no_view_def)
  let ?a = "fl (sumOcc ?s / fl (of_nat (seen ?s)))"
  have "0 \<le> ?a" using sum by (intro fl_nonneg divide_nonneg_nonneg) simp_all
  note glyph = glyph_index_pos [OF this]
  have zero: "?a = 0 \<longleftrightarrow> (\<forall>c \<in> set run. used_pages c = 0)" if "seen ?s \<noteq> 0"
  proof -
    have "0 < fl (of_nat (seen ?s))" using that by (simp add: fl_pos_iff)
    then have "0 < ?a \<longleftrightarrow> 0 < sumOcc ?s"
      using sum by (simp add: fl_pos_iff zero_less_divide_iff)
    then show ?thesis using pos \<open>0 \<le> ?a\<close> by auto
  qed
  show ?thesis
    using seen none glyph zero
    by (auto simp: cellFor_def Let_def vs [unfolded comp_def] cell_start_def)
qed

lemma cellFor_cases_witness:
  "cellFor (map (summarise True) [zero_counts(clABD := 512)]) 0 1 False \<noteq> None"
proof -
  have "known_pages (zero_counts(clABD := 512)) = 512"
    by (simp add: known_pages_def zero_counts_def ram_classes_eq)
  then show ?thesis
    using cellFor_cases [of "[zero_counts(clABD := 512)]" 1 0 "[zero_counts(clABD := 512)]" True False]
    by simp
qed

end
