(* ===== verification/Bands.thy ===== *)
theory Bands
  imports MapFrame
begin

text \<open>
  From page counts to the heights of the coloured bands of a tile: \<^verbatim>\<open>bandHeights\<close> of
  \<^verbatim>\<open>packages/fragview/pixmap.go\<close>.
\<close>

section \<open>The routine\<close>

definition stackOrder :: "pclass list" where
  "stackOrder = [clSlab, clABD, clKernel, clUncached, clPgtab, clCompound,
     clReserved, clUnknown, clAnon, clShmem, clFile, clFree]"

type_synonym heights = "pclass \<Rightarrow> int"

definition no_heights :: heights where
  "no_heights = (\<lambda>_. 0)"

text \<open>The first loop: one entry of \<^verbatim>\<open>fracs\<close> per class that is present.\<close>

definition exact_height :: "(pclass \<Rightarrow> nat) \<Rightarrow> nat \<Rightarrow> int \<Rightarrow> pclass \<Rightarrow> rat" where
  "exact_height pg known h c =
     fl (fl (fl (of_nat (pg c)) / fl (of_nat known)) * fl (of_int h))"

fun first_heights ::
  "(pclass \<Rightarrow> nat) \<Rightarrow> nat \<Rightarrow> int \<Rightarrow> int \<Rightarrow> pclass list \<Rightarrow> heights \<Rightarrow> int \<Rightarrow>
   heights \<times> int \<times> (pclass \<times> rat) list" where
  "first_heights pg known h minBand [] out tot = (out, tot, [])"
| "first_heights pg known h minBand (c # cs) out tot =
     (if pg c = 0 then first_heights pg known h minBand cs out tot
      else
        (let exact = exact_height pg known h c;
             n = max (to_int exact) minBand;
             (out', tot', fs) = first_heights pg known h minBand cs (out(c := n)) (tot + n)
         in (out', tot', (c, fl (exact - fl (of_int (to_int exact)))) # fs)))"

text \<open>
  The class one pixel is taken from: the first of the tallest bands above the minimum, else
  the first band there is. Without any band the loop of the source would not end.
\<close>

definition tallest_step :: "int \<Rightarrow> heights \<Rightarrow> pclass \<times> int \<Rightarrow> pclass \<Rightarrow> pclass \<times> int" where
  "tallest_step minBand out s c =
     (if out c > minBand \<and> out c > snd s then (c, out c) else s)"

definition tallest :: "int \<Rightarrow> heights \<Rightarrow> pclass \<times> int" where
  "tallest minBand out = foldl (tallest_step minBand out) (clNone, 0) stackOrder"

definition payer :: "int \<Rightarrow> heights \<Rightarrow> pclass option" where
  "payer minBand out =
     (let (c, n) = tallest minBand out
      in if n = 0 then find (\<lambda>c. out c > 0) stackOrder else Some c)"

partial_function (option) shrink :: "int \<Rightarrow> int \<Rightarrow> heights \<Rightarrow> int \<Rightarrow> heights option" where
  "shrink h minBand out tot =
     (if tot > h then
        (case payer minBand out of
           None \<Rightarrow> shrink h minBand out tot
         | Some c \<Rightarrow> shrink h minBand (out(c := out c - 1)) (tot - 1))
      else Some out)"

text \<open>
  The last loop hands the pixels that are left to the classes in the order of their
  fractions. \<^verbatim>\<open>total\<close> is what the loops above left it at.
\<close>

function hand_out :: "int \<Rightarrow> pclass list \<Rightarrow> nat \<Rightarrow> heights \<Rightarrow> int \<Rightarrow> heights" where
  "hand_out h cs i out tot =
     (if tot < h then
        (let c = cs ! (i mod length cs) in hand_out h cs (i + 1) (out(c := out c + 1)) (tot + 1))
      else out)"
  by pat_completeness auto
termination
  by (relation "measure (\<lambda>(h, cs, i, out, tot). nat (h - tot))") auto

declare hand_out.simps [simp del]

text \<open>
  \<^verbatim>\<open>sort.Slice\<close> sorts at most twelve entries here, one per class of the stack.
\<close>

definition bandHeights ::
  "(pclass \<Rightarrow> nat) \<Rightarrow> nat \<Rightarrow> int \<Rightarrow> int \<Rightarrow> heights option" where
  "bandHeights pg known h minBand =
     (let (out, tot, fracs) = first_heights pg known h minBand stackOrder no_heights 0
      in if fracs = [] then Some out
         else
           (case shrink h minBand out tot of
              None \<Rightarrow> None
            | Some out' \<Rightarrow>
                Some (hand_out h (map fst (slice_isort (\<lambda>a b. snd b < snd a) fracs)) 0 out'
                        (if tot > h then h else tot))))"

section \<open>What each loop keeps\<close>

definition stack_sum :: "heights \<Rightarrow> int" where
  "stack_sum out = (\<Sum>c\<leftarrow>stackOrder. out c)"

lemma distinct_stackOrder: "distinct stackOrder"
  by (simp add: stackOrder_def)

lemma set_stackOrder: "set stackOrder = UNIV - {clNone}"
proof -
  have "k \<in> set stackOrder \<longleftrightarrow> k \<noteq> clNone" for k by (cases k) (simp_all add: stackOrder_def)
  then show ?thesis by auto
qed

lemma sum_list_update:
  "distinct xs \<Longrightarrow> c \<in> set xs \<Longrightarrow>
   (\<Sum>x\<leftarrow>xs. (out(c := v)) x) = (\<Sum>x\<leftarrow>xs. out x) - out c + (v :: int)"
proof (induction xs)
  case Nil
  then show ?case by simp
next
  case (Cons x xs)
  have "(\<Sum>x\<leftarrow>xs. (out(c := v)) x) = (\<Sum>x\<leftarrow>xs. out x)" if "c \<notin> set xs"
    using that by (intro arg_cong [of _ _ sum_list] map_cong) auto
  with Cons show ?case by (cases "x = c") auto
qed

lemma stack_sum_update:
  "c \<noteq> clNone \<Longrightarrow> stack_sum (out(c := v)) = stack_sum out - out c + v"
  unfolding stack_sum_def
  by (intro sum_list_update distinct_stackOrder) (simp add: set_stackOrder)

lemma first_heights_props:
  assumes "distinct cs" and "clNone \<notin> set cs" and "\<forall>c \<in> set cs. out c = 0" and "0 \<le> h"
  shows "first_heights pg known h minBand cs out tot = (out', tot', fs) \<Longrightarrow>
    tot' - tot = stack_sum out' - stack_sum out \<and>
    map fst fs = filter (\<lambda>c. pg c \<noteq> 0) cs \<and>
    (\<forall>c. if c \<in> set cs \<and> pg c \<noteq> 0 then minBand \<le> out' c \<and> 0 \<le> out' c else out' c = out c)"
  using assms
proof (induction cs arbitrary: out tot out' tot' fs)
  case Nil
  then show ?case by simp
next
  case (Cons c cs)
  show ?case
  proof (cases "pg c = 0")
    case True
    then show ?thesis using Cons.IH [of out tot out' tot' fs] Cons.prems by auto
  next
    case False
    let ?n = "max (to_int (exact_height pg known h c)) minBand"
    have "0 \<le> exact_height pg known h c"
      unfolding exact_height_def using Cons.prems(5)
      by (intro fl_nonneg mult_nonneg_nonneg divide_nonneg_nonneg) simp_all
    then have n: "0 \<le> ?n" by (simp add: to_int_nonneg le_max_iff_disj)
    define out1 where "out1 = out(c := ?n)"
    have out1: "stack_sum out1 = stack_sum out + ?n" "out1 c = ?n" "\<And>d. d \<noteq> c \<Longrightarrow> out1 d = out d"
      using Cons.prems by (auto simp: out1_def stack_sum_update)
    obtain fs' where r: "first_heights pg known h minBand cs out1 (tot + ?n) = (out', tot', fs')"
      "map fst fs = c # map fst fs'"
      using Cons.prems(1) False by (auto simp: out1_def Let_def split: prod.splits)
    have "\<forall>d \<in> set cs. out1 d = 0"
    proof
      fix d
      assume d: "d \<in> set cs"
      then have "d \<noteq> c" using Cons.prems by auto
      then show "out1 d = 0" using d out1(3) Cons.prems by simp
    qed
    with Cons.IH [OF r(1)] Cons.prems
    have IH: "tot' - (tot + ?n) = stack_sum out' - stack_sum out1"
      "map fst fs' = filter (\<lambda>c. pg c \<noteq> 0) cs"
      "\<And>d. d \<in> set cs \<Longrightarrow> pg d \<noteq> 0 \<Longrightarrow> minBand \<le> out' d \<and> 0 \<le> out' d"
      "\<And>d. d \<notin> set cs \<or> pg d = 0 \<Longrightarrow> out' d = out1 d" by auto
    have "out' c = ?n" using IH(4) [of c] Cons.prems(2) out1(2) by simp
    moreover have "minBand \<le> ?n" by simp
    moreover have "out' d = out d" if "d \<notin> set (c # cs) \<or> pg d = 0" for d
      using that IH(4) [of d] out1(3) [of d] False by (cases "d = c") auto
    ultimately have "\<forall>d. if d \<in> set (c # cs) \<and> pg d \<noteq> 0 then minBand \<le> out' d \<and> 0 \<le> out' d
        else out' d = out d"
      using IH(3) n by auto
    then show ?thesis using IH(1,2) r(2) False out1(1) by auto
  qed
qed

lemma tallest_props:
  fixes minBand :: int and out :: heights
  defines "r s cs \<equiv> foldl (tallest_step minBand out) s cs"
  shows "(snd s < snd (r s cs) \<longrightarrow> fst (r s cs) \<in> set cs \<and> minBand < out (fst (r s cs)) \<and>
      snd (r s cs) = out (fst (r s cs))) \<and> snd s \<le> snd (r s cs) \<and>
    (snd (r s cs) = snd s \<longrightarrow> r s cs = s \<and> (\<forall>c \<in> set cs. out c \<le> minBand \<or> out c \<le> snd s))"
proof (induction cs arbitrary: s)
  case Nil
  then show ?case by (simp add: r_def)
next
  case (Cons c cs)
  have r: "r s (c # cs) = r (tallest_step minBand out s c) cs" by (simp add: r_def)
  show ?case
  proof (cases "out c > minBand \<and> out c > snd s")
    case True
    then have "r s (c # cs) = r (c, out c) cs" unfolding r by (simp add: tallest_step_def)
    then show ?thesis using Cons.IH [of "(c, out c)"] True
      by (cases "snd (r (c, out c) cs) = out c") auto
  next
    case False
    then have "tallest_step minBand out s c = s" by (auto simp: tallest_step_def)
    then show ?thesis using Cons.IH [of s] False unfolding r by auto
  qed
qed

lemma tallest_stack:
  fixes minBand :: int and out :: heights
  defines "t \<equiv> tallest minBand out"
  shows "0 \<le> snd t \<and> (0 < snd t \<longrightarrow> fst t \<noteq> clNone \<and> minBand < out (fst t) \<and> 0 < out (fst t)) \<and>
    (snd t = 0 \<longrightarrow> (\<forall>c. c \<noteq> clNone \<longrightarrow> out c \<le> minBand \<or> out c \<le> 0))"
  using tallest_props [of "(clNone, 0)" minBand out stackOrder]
  by (auto simp: t_def tallest_def set_stackOrder)

text \<open>
  Taking a pixel: it comes from a band there is; as long as the minimum can be kept, from
  one above it.
\<close>

lemma payer_props:
  assumes "0 < stack_sum out"
  shows "\<exists>c. payer minBand out = Some c \<and> c \<noteq> clNone \<and> 0 < out c \<and>
    (minBand < out c \<or> (\<forall>c. c \<noteq> clNone \<longrightarrow> out c \<le> minBand \<or> out c \<le> 0))"
proof -
  let ?t = "tallest minBand out"
  note t = tallest_stack [of minBand out]
  show ?thesis
  proof (cases "snd ?t = 0")
    case False
    with t show ?thesis by (auto simp: payer_def case_prod_beta)
  next
    case True
    have "find (\<lambda>c. out c > 0) stackOrder \<noteq> None"
    proof
      assume "find (\<lambda>c. out c > 0) stackOrder = None"
      then have "\<forall>c \<in> set stackOrder. out c \<le> 0" by (auto simp: find_None_iff)
      then have "stack_sum out \<le> (\<Sum>c\<leftarrow>stackOrder. 0)"
        unfolding stack_sum_def by (intro sum_list_mono) auto
      with assms show False by simp
    qed
    then obtain d where d: "find (\<lambda>c. out c > 0) stackOrder = Some d" by auto
    then have "d \<in> set stackOrder \<and> 0 < out d" by (metis find_Some_iff nth_mem)
    with t True d show ?thesis by (auto simp: payer_def set_stackOrder case_prod_beta)
  qed
qed

text \<open>What the heights have to satisfy: no band for an absent class, none below zero.\<close>

definition bands_ok :: "(pclass \<Rightarrow> nat) \<Rightarrow> heights \<Rightarrow> bool" where
  "bands_ok pg out \<longleftrightarrow> (\<forall>c. 0 \<le> out c \<and> (c = clNone \<or> pg c = 0 \<longrightarrow> out c = 0))"

definition classes_shown :: "(pclass \<Rightarrow> nat) \<Rightarrow> pclass list" where
  "classes_shown pg = filter (\<lambda>c. pg c \<noteq> 0) stackOrder"

lemma stack_sum_shown:
  assumes "bands_ok pg out"
  shows "stack_sum out = (\<Sum>c\<leftarrow>classes_shown pg. out c)"
proof -
  have "(\<Sum>c\<leftarrow>xs. out c) = (\<Sum>c\<leftarrow>filter (\<lambda>c. pg c \<noteq> 0) xs. out c)" for xs
    using assms by (induction xs) (auto simp: bands_ok_def)
  then show ?thesis by (simp add: stack_sum_def classes_shown_def)
qed

definition min_kept :: "int \<Rightarrow> (pclass \<Rightarrow> nat) \<Rightarrow> heights \<Rightarrow> bool" where
  "min_kept minBand pg out \<longleftrightarrow> (\<forall>c. c \<noteq> clNone \<and> pg c \<noteq> 0 \<longrightarrow> minBand \<le> out c)"

lemma min_kept_room:
  assumes "bands_ok pg out" and "int (length (classes_shown pg)) * minBand < stack_sum out"
    and "0 \<le> minBand"
  shows "\<exists>c. c \<noteq> clNone \<and> minBand < out c \<and> 0 < out c"
proof (rule ccontr)
  assume no: "\<not> ?thesis"
  have "out c \<le> minBand" if "c \<noteq> clNone" for c using no that assms(3) by force
  then have "stack_sum out \<le> (\<Sum>c\<leftarrow>classes_shown pg. minBand)"
    unfolding stack_sum_shown [OF assms(1)]
    by (intro sum_list_mono) (auto simp: classes_shown_def set_stackOrder)
  then show False using assms(2) by (simp add: sum_list_triv)
qed

lemma shrink_props:
  assumes "stack_sum out = tot" and "0 \<le> h" and "bands_ok pg out" and "0 \<le> minBand"
  shows "\<exists>out'. shrink h minBand out tot = Some out' \<and> bands_ok pg out' \<and>
    stack_sum out' = min tot h \<and>
    (int (length (classes_shown pg)) * minBand \<le> h \<and> min_kept minBand pg out \<longrightarrow>
      min_kept minBand pg out')"
  using assms
proof (induction "nat (tot - h)" arbitrary: out tot rule: less_induct)
  case (less tot out)
  show ?case
  proof (cases "tot > h")
    case False
    then show ?thesis using less.prems by (subst shrink.simps) auto
  next
    case True
    then have "0 < stack_sum out" using less.prems by simp
    then obtain c where c: "payer minBand out = Some c" "c \<noteq> clNone" "0 < out c"
      "minBand < out c \<or> (\<forall>c. c \<noteq> clNone \<longrightarrow> out c \<le> minBand \<or> out c \<le> 0)"
      using payer_props by blast
    let ?o = "out(c := out c - 1)"
    have step: "shrink h minBand out tot = shrink h minBand ?o (tot - 1)"
      using True c(1) by (subst shrink.simps) simp
    have "stack_sum ?o = tot - 1" using c(2) less.prems(1) by (simp add: stack_sum_update)
    moreover have ok: "bands_ok pg ?o" using less.prems(3) c by (auto simp: bands_ok_def)
    ultimately obtain out' where out': "shrink h minBand ?o (tot - 1) = Some out'" "bands_ok pg out'"
      "stack_sum out' = min (tot - 1) h"
      "int (length (classes_shown pg)) * minBand \<le> h \<and> min_kept minBand pg ?o \<longrightarrow>
        min_kept minBand pg out'"
      using less.hyps [of "tot - 1" ?o] True less.prems(2,4) by auto
    have "min_kept minBand pg ?o"
      if "int (length (classes_shown pg)) * minBand \<le> h" "min_kept minBand pg out"
    proof -
      have "int (length (classes_shown pg)) * minBand < stack_sum out"
        using that(1) True less.prems(1) by simp
      then have "minBand < out c"
        using min_kept_room [OF less.prems(3) _ less.prems(4)] c(4) by force
      then show ?thesis using that(2) by (auto simp: min_kept_def)
    qed
    with out' True show ?thesis unfolding step by auto
  qed
qed

lemma hand_out_props:
  assumes "cs \<noteq> []" and "clNone \<notin> set cs" and "tot \<le> h" and "bands_ok pg out"
    and "\<forall>c \<in> set cs. pg c \<noteq> 0"
  shows "stack_sum (hand_out h cs i out tot) = stack_sum out + (h - tot) \<and>
    bands_ok pg (hand_out h cs i out tot) \<and> (\<forall>c. out c \<le> hand_out h cs i out tot c)"
  using assms
proof (induction h cs i out tot rule: hand_out.induct)
  case (1 h cs i out tot)
  show ?case
  proof (cases "tot < h")
    case False
    then show ?thesis using "1.prems" by (subst (1 2 3) hand_out.simps) auto
  next
    case True
    let ?c = "cs ! (i mod length cs)"
    have c: "?c \<in> set cs" using "1.prems"(1) by simp
    then have "?c \<noteq> clNone" using "1.prems"(2) by metis
    define out1 where "out1 = out(?c := out ?c + 1)"
    have "bands_ok pg out1"
      using "1.prems"(4,5) c \<open>?c \<noteq> clNone\<close> by (auto simp: bands_ok_def out1_def)
    moreover have sum1: "stack_sum out1 = stack_sum out + 1"
      using \<open>?c \<noteq> clNone\<close> by (simp add: stack_sum_update out1_def)
    moreover have "hand_out h cs i out tot = hand_out h cs (i + 1) out1 (tot + 1)"
      using True by (subst hand_out.simps) (simp add: Let_def out1_def)
    moreover have "out d \<le> out1 d" for d by (simp add: out1_def)
    moreover note "1.IH" [OF True refl, folded out1_def]
    ultimately show ?thesis
      using "1.prems" True by (auto intro: order_trans)
  qed
qed

lemma bandHeights_props:
  assumes "1 \<le> h" and "0 \<le> minBand" and "c0 \<noteq> clNone" and "pg c0 \<noteq> 0"
  shows "\<exists>out. bandHeights pg known h minBand = Some out \<and> stack_sum out = h \<and> bands_ok pg out \<and>
    (int (length (classes_shown pg)) * minBand \<le> h \<longrightarrow> min_kept minBand pg out)"
proof -
  obtain out tot fs where f: "first_heights pg known h minBand stackOrder no_heights 0 = (out, tot, fs)"
    by (cases "first_heights pg known h minBand stackOrder no_heights 0")
  have "stack_sum no_heights = 0" by (simp add: stack_sum_def no_heights_def)
  then have p: "tot = stack_sum out" "map fst fs = classes_shown pg"
    "\<forall>c. if c \<noteq> clNone \<and> pg c \<noteq> 0 then minBand \<le> out c \<and> 0 \<le> out c else out c = 0"
    using first_heights_props [OF distinct_stackOrder _ _ _ f] assms(1)
    by (auto simp: set_stackOrder no_heights_def classes_shown_def)
  have "0 \<le> out c \<and> (c = clNone \<or> pg c = 0 \<longrightarrow> out c = 0) \<and>
      (c \<noteq> clNone \<and> pg c \<noteq> 0 \<longrightarrow> minBand \<le> out c)" for c
    using p(3) [rule_format, of c] by (auto split: if_splits)
  then have ok: "bands_ok pg out" "min_kept minBand pg out"
    unfolding bands_ok_def min_kept_def by blast+
  have "c0 \<in> set (classes_shown pg)" using assms by (simp add: classes_shown_def set_stackOrder)
  then have fs: "fs \<noteq> []" using p(2) by auto
  obtain out' where s: "shrink h minBand out tot = Some out'" "bands_ok pg out'"
    "stack_sum out' = min tot h"
    "int (length (classes_shown pg)) * minBand \<le> h \<longrightarrow> min_kept minBand pg out'"
    using shrink_props [OF p(1) [symmetric] _ ok(1) assms(2), of h] ok(2) assms(1) by auto
  let ?cs = "map fst (slice_isort (\<lambda>a b. snd b < snd a) fs)"
  have set: "set ?cs = set (classes_shown pg)"
    using isort.srt_set [of "\<lambda>a b. snd b < snd a" fs] p(2) by (metis set_map)
  have cs: "?cs \<noteq> []" using set \<open>c0 \<in> _\<close> by (metis empty_iff list.set(1))
  let ?t = "if tot > h then h else tot"
  have "stack_sum (hand_out h ?cs 0 out' ?t) = stack_sum out' + (h - ?t) \<and>
      bands_ok pg (hand_out h ?cs 0 out' ?t) \<and> (\<forall>c. out' c \<le> hand_out h ?cs 0 out' ?t c)"
    using s(2) set by (intro hand_out_props cs) (auto simp: classes_shown_def set_stackOrder)
  moreover have "bandHeights pg known h minBand = Some (hand_out h ?cs 0 out' ?t)"
    using f fs s(1) by (simp add: bandHeights_def)
  ultimately show ?thesis
    using s(3,4) by (auto simp: min_kept_def intro: order_trans)
qed

section \<open>Properties\<close>

text \<open>
  C12. The bands of a tile fill it exactly: for a tile of at least one pixel row and a block
  with some memory the routine returns, the heights add up to the height of the tile, none
  is negative, a class the block does not hold has none, and every class it holds has its
  minimum as long as the tile has room for all the minima.
\<close>

theorem bandHeights_fill:
  assumes "1 \<le> h" and "0 \<le> minBand" and "c0 \<noteq> clNone" and "pg c0 \<noteq> 0"
    and "known = (\<Sum>c\<leftarrow>stackOrder. pg c)"
  shows "\<exists>out. bandHeights pg known h minBand = Some out \<and>
    (\<Sum>c\<leftarrow>stackOrder. out c) = h \<and> (\<forall>c. 0 \<le> out c) \<and> (\<forall>c. pg c = 0 \<longrightarrow> out c = 0) \<and>
    (int (length (classes_shown pg)) * minBand \<le> h \<longrightarrow>
      (\<forall>c. c \<noteq> clNone \<and> pg c \<noteq> 0 \<longrightarrow> minBand \<le> out c))"
  using bandHeights_props [of h minBand c0 pg known] assms unfolding stack_sum_def bands_ok_def min_kept_def by blast

definition six_owners :: "pclass \<Rightarrow> nat" where
  "six_owners c = (if c \<in> {clSlab, clABD, clKernel, clAnon, clFile, clFree} then 85 else 0)"

lemma bandHeights_fill_witness:
  "\<exists>out. bandHeights six_owners 510 16 2 = Some out \<and> (\<Sum>c\<leftarrow>stackOrder. out c) = 16 \<and>
     2 \<le> out clSlab"
proof -
  have "length (classes_shown six_owners) = 6"
    by (simp add: classes_shown_def stackOrder_def six_owners_def)
  moreover have "(\<Sum>c\<leftarrow>stackOrder. six_owners c) = 510"
    by (simp add: stackOrder_def six_owners_def)
  ultimately show ?thesis
    using bandHeights_fill [of 16 2 clSlab six_owners 510] by (auto simp: six_owners_def)
qed

lemma six_owners_height:
  assumes "six_owners c \<noteq> 0"
  shows "max (to_int (exact_height six_owners 510 10 c)) 2 = 2"
proof -
  have pg: "rat_of_nat (six_owners c) = of_nat 85" 
    using assms by (auto simp: six_owners_def split: if_splits)
  have int: "fl (of_nat n) = of_nat n" if "n \<le> 2 ^ 53" for n using that by (rule f64.rnd_nat)
  have ten: "fl (of_int 10) = 10" using fl_of_int [of 10] by simp
  have "fl (1 / 4) = 1 / 4" using fl_exact [of 1 "-2"] by (simp add: power_int_minus)
  then have "fl (of_nat 85 / of_nat 510) \<le> 1 / 4" by (rule f64.rnd_le) simp
  then have "fl (of_nat 85 / of_nat 510) * 10 \<le> 5 / 2" by simp
  moreover have "fl (5 / 2) = 5 / 2" using fl_exact [of 5 "-1"] by (simp add: power_int_minus)
  ultimately have "fl (fl (of_nat 85 / of_nat 510) * 10) \<le> 5 / 2" by (intro f64.rnd_le)
  moreover have "exact_height six_owners 510 10 c = fl (fl (of_nat 85 / of_nat 510) * 10)"
    unfolding exact_height_def pg ten using int [of 85] int [of 510] by simp
  ultimately have "to_int (exact_height six_owners 510 10 c) \<le> to_int (5 / 2)"
    by (intro to_int_mono) simp
  moreover have "to_int (5 / 2) = 2" by (simp add: to_int_def floor_eq_iff)
  ultimately show ?thesis by simp
qed

definition two_pixels :: heights where
  "two_pixels c = (if c \<in> {clSlab, clABD, clKernel, clAnon, clFile, clFree} then 2 else 0)"

lemma payer_two_pixels:
  "payer 2 two_pixels = Some clSlab" "payer 2 (two_pixels(clSlab := 1)) = Some clSlab"
  by (simp_all add: payer_def tallest_def tallest_step_def stackOrder_def two_pixels_def)

text \<open>
  When the minima do not fit they are not paid for out of the tallest bands but out of
  the first one of the stack, down to nothing: of six owners with equal shares of a block,
  in a tile of ten rows with a minimum of two, the slab pages disappear and the other five
  keep two rows each.
\<close>

theorem bandHeights_hides_slab:
  "\<exists>out. bandHeights six_owners 510 10 2 = Some out \<and> 0 < six_owners clSlab \<and> out clSlab = 0 \<and>
     out clABD = 2 \<and> out clFree = 2"
proof -
  have step: "first_heights six_owners 510 10 2 (c # cs) out tot =
      (if six_owners c = 0 then first_heights six_owners 510 10 2 cs out tot
       else let (out', tot', fs) = first_heights six_owners 510 10 2 cs (out(c := 2)) (tot + 2)
         in (out', tot', (c, fl (exact_height six_owners 510 10 c -
              fl (of_int (to_int (exact_height six_owners 510 10 c))))) # fs))" for c cs out tot
    by (simp add: Let_def six_owners_height)
  obtain fs where f: "first_heights six_owners 510 10 2 stackOrder no_heights 0 = (two_pixels, 12, fs)"
    "fs \<noteq> []"
  proof -
    have "no_heights(clSlab := 2, clABD := 2, clKernel := 2, clAnon := 2, clFile := 2, clFree := 2)
        = two_pixels" by (auto simp: fun_eq_iff no_heights_def two_pixels_def)
    then show ?thesis
      by (intro that) (simp add: step stackOrder_def six_owners_def Let_def
          del: first_heights.simps(2), simp)
  qed
  have "shrink 10 2 two_pixels 12 = Some (two_pixels(clSlab := 0))"
  proof -
    have "two_pixels clSlab = 2" by (simp add: two_pixels_def)
    then show ?thesis by (simp add: shrink.simps payer_two_pixels)
  qed
  then have "bandHeights six_owners 510 10 2 = Some (two_pixels(clSlab := 0))"
    using f by (simp add: bandHeights_def hand_out.simps)
  then show ?thesis by (simp add: two_pixels_def six_owners_def)
qed

end
