(* ===== verification/Layout.thy ===== *)
theory Layout
  imports Prelude
begin

text \<open>
  How the blocks of the window line up with the pixels of the map,
  \<^verbatim>\<open>packages/fragview/pixmap.go\<close>: the layout (\<^verbatim>\<open>pixLayoutFor\<close>), the pixels of a block
  (\<^verbatim>\<open>blockSpan\<close>, \<^verbatim>\<open>rowSpanY\<close>), the block under a terminal cell (\<^verbatim>\<open>resolveHover\<close>) and the
  box around it (\<^verbatim>\<open>markHover\<close>). Everything is \<^verbatim>\<open>int\<close> arithmetic; the sources divide with
  Go's \<^verbatim>\<open>/\<close>, which is \<open>sdiv\<close>.
\<close>

section \<open>Ceiling division\<close>

text \<open>\<^verbatim>\<open>(a + b - 1) / b\<close> on positive operands.\<close>

lemma ceil_div_ge: "0 < b \<Longrightarrow> a \<le> (a + b - 1) div b * (b :: int)"
proof -
  assume b: "0 < b"
  have "(a + b - 1) div b * b + (a + b - 1) mod b = a + b - 1" by simp
  moreover have "(a + b - 1) mod b < b" using b by simp
  ultimately show ?thesis by linarith
qed

lemma ceil_div_le: "0 < b \<Longrightarrow> a \<le> k * b \<Longrightarrow> (a + b - 1) div b \<le> (k :: int)"
proof -
  assume b: "0 < b" and "a \<le> k * b"
  then have "a + b - 1 \<le> k * b + (b - 1)" by simp
  then have "(a + b - 1) div b \<le> (k * b + (b - 1)) div b" using b by (intro zdiv_mono1)
  also have "\<dots> = k" using b by (simp add: div_add_self1 add.commute)
  finally show ?thesis .
qed

lemma div_add_bounds:
  assumes "0 < (b::int)"
  shows "a div b + c div b \<le> (a + c) div b \<and> (a + c) div b \<le> a div b + c div b + 1"
proof -
  let ?r = "a mod b + c mod b"
  have r: "0 \<le> ?r" "?r < 2 * b"
    using pos_mod_bound [OF assms, of a] pos_mod_bound [OF assms, of c]
      pos_mod_sign [OF assms, of a] pos_mod_sign [OF assms, of c] by linarith+
  have "(a + c) div b = a div b + c div b + ?r div b" by (rule div_add1_eq)
  moreover have "0 \<le> ?r div b" using assms r(1) by (simp only: pos_imp_zdiv_nonneg_iff)
  moreover have "?r div b \<le> (1 * b + (b - 1)) div b" using assms r(2) by (intro zdiv_mono1) auto
  moreover have "(1 * b + (b - 1)) div b = 1"
    using assms by (intro int_div_pos_eq [where r = "b - 1"]) auto
  ultimately show ?thesis by linarith
qed

lemma ceil_sdiv [go_arith]:
  "0 \<le> a \<Longrightarrow> 0 < b \<Longrightarrow> (a + b - 1) sdiv b = (a + b - 1) div (b :: int)"
  by (simp add: sdiv_nonneg)

section \<open>The layout\<close>

record pix_layout =
  lviewFrom :: int
  pxW :: int
  cellW :: int
  cellH :: int
  mapRows :: int
  tileRows :: int
  rowSpan :: int
  blocksPerRow :: int
  blockPx :: int
  perCol :: int
  inset :: int

definition no_layout :: pix_layout where
  "no_layout = \<lparr>lviewFrom = 0, pxW = 0, cellW = 0, cellH = 0, mapRows = 0, tileRows = 0,
     rowSpan = 0, blocksPerRow = 0, blockPx = 0, perCol = 0, inset = 0\<rparr>"

definition maxTileAspect :: int where
  "maxTileAspect = 2"

text \<open>
  The body of the loop over \<^verbatim>\<open>l.rowSpan\<close> and its \<^verbatim>\<open>break\<close> condition.
\<close>

definition tile_rows :: "int \<Rightarrow> int \<Rightarrow> pix_layout \<Rightarrow> pix_layout" where
  "tile_rows span rs l =
     (let t = mapRows l sdiv rs; b = max ((span + t - 1) sdiv t) 1
      in l\<lparr>rowSpan := rs, tileRows := t, blocksPerRow := b, blockPx := pxW l sdiv b\<rparr>)"

definition tall_enough :: "pix_layout \<Rightarrow> bool" where
  "tall_enough l \<longleftrightarrow> blockPx l \<le> maxTileAspect * rowSpan l * cellH l \<or> tileRows l = 1"

function grow_rows :: "int \<Rightarrow> int \<Rightarrow> pix_layout \<Rightarrow> pix_layout" where
  "grow_rows span rs l =
     (if rs \<le> mapRows l then
        (let l' = tile_rows span rs l
         in if tall_enough l' then l' else grow_rows span (rs + 1) l')
      else l\<lparr>rowSpan := rs\<rparr>)"
  by pat_completeness auto
termination
  by (relation "measure (\<lambda>(span, rs, l). nat (mapRows l + 1 - rs))")
    (auto simp: tile_rows_def Let_def)

declare grow_rows.simps [simp del]

definition set_inset :: "pix_layout \<Rightarrow> pix_layout" where
  "set_inset l =
     (let h = rowSpan l * cellH l
      in if blockPx l \<ge> 8 \<and> h \<ge> 12 then l\<lparr>inset := 2\<rparr>
         else if blockPx l \<ge> 4 then l\<lparr>inset := 1\<rparr>
         else l)"

definition pixLayoutFor :: "int \<Rightarrow> int \<Rightarrow> int \<Rightarrow> int \<Rightarrow> int \<Rightarrow> pix_layout" where
  "pixLayoutFor span w cw ch rows =
     (let l = no_layout\<lparr>pxW := w, cellW := cw, cellH := ch, mapRows := rows,
                 tileRows := rows, rowSpan := 1\<rparr>;
          perRow = max ((span + rows - 1) sdiv rows) 1
      in if perRow > w then
           (let per = (perRow + w - 1) sdiv w
            in l\<lparr>perCol := per, blocksPerRow := per * w\<rparr>)
         else set_inset (grow_rows span 1 l))"

definition blockSpan :: "pix_layout \<Rightarrow> int \<Rightarrow> int \<times> int" where
  "blockSpan l j = (j * pxW l sdiv blocksPerRow l, (j + 1) * pxW l sdiv blocksPerRow l - 1)"

definition rowSpanY :: "pix_layout \<Rightarrow> int \<Rightarrow> int \<times> int" where
  "rowSpanY l t = (t * rowSpan l * cellH l, (t + 1) * rowSpan l * cellH l - 1)"

section \<open>What the loop finds\<close>

text \<open>The layout parameters do not change along the loop.\<close>

lemma tile_rows_fields [simp]:
  "mapRows (tile_rows span rs l) = mapRows l" "pxW (tile_rows span rs l) = pxW l"
  "cellW (tile_rows span rs l) = cellW l" "cellH (tile_rows span rs l) = cellH l"
  "perCol (tile_rows span rs l) = perCol l" "lviewFrom (tile_rows span rs l) = lviewFrom l"
  "inset (tile_rows span rs l) = inset l" "rowSpan (tile_rows span rs l) = rs"
  "tileRows (tile_rows span rs l) = mapRows l sdiv rs"
  by (simp_all add: tile_rows_def Let_def)

lemma tile_rows_absorb [simp]:
  "tile_rows span rs (tile_rows span rs' l) = tile_rows span rs l"
  by (simp add: tile_rows_def Let_def)

text \<open>
  The loop ends at the first number of terminal rows per row of blocks that is tall enough;
  one row of blocks over the whole map always is.
\<close>

lemma grow_rows_stops:
  assumes "0 < rs" and "rs \<le> mapRows l"
  shows "\<exists>r. rs \<le> r \<and> r \<le> mapRows l \<and> grow_rows span rs l = tile_rows span r l \<and>
    tall_enough (tile_rows span r l) \<and> (\<forall>k. rs \<le> k \<and> k < r \<longrightarrow> \<not> tall_enough (tile_rows span k l))"
  using assms
proof (induction span rs l rule: grow_rows.induct)
  case (1 span rs l)
  let ?l = "tile_rows span rs l"
  show ?case
  proof (cases "tall_enough ?l")
    case True
    then show ?thesis
      using "1.prems" by (intro exI [of _ rs]) (auto simp: grow_rows.simps)
  next
    case False
    have "rs \<noteq> mapRows l"
    proof
      assume "rs = mapRows l"
      then have "tileRows ?l = 1" using "1.prems" by (simp add: sdiv_nonneg)
      with False show False by (simp add: tall_enough_def)
    qed
    then obtain r where "rs + 1 \<le> r" "r \<le> mapRows l" "grow_rows span (rs + 1) ?l = tile_rows span r l"
      "tall_enough (tile_rows span r l)"
      "\<forall>k. rs + 1 \<le> k \<and> k < r \<longrightarrow> \<not> tall_enough (tile_rows span k l)"
      using "1.IH" [of ?l] "1.prems" False by auto
    moreover have "k = rs \<or> rs + 1 \<le> k" if "rs \<le> k" for k using that by linarith
    ultimately show ?thesis
      using "1.prems" False by (intro exI [of _ r]) (auto simp: grow_rows.simps [of span rs])
  qed
qed

lemma tile_rows_fit:
  assumes "0 \<le> span" and "0 < rs" and "rs \<le> mapRows l"
  shows "span \<le> tileRows (tile_rows span rs l) * blocksPerRow (tile_rows span rs l) \<and>
    tileRows (tile_rows span rs l) * rs \<le> mapRows l \<and>
    1 \<le> tileRows (tile_rows span rs l) \<and> 1 \<le> blocksPerRow (tile_rows span rs l)"
proof -
  let ?t = "mapRows l div rs"
  have t: "1 \<le> ?t" using assms by (simp add: pos_imp_zdiv_pos_iff int_one_le_iff_zero_less)
  have "?t * rs \<le> mapRows l" using assms(2) by (simp add: minus_mod_eq_div_mult [symmetric])
  moreover have "span \<le> (span + ?t - 1) div ?t * ?t" using t by (intro ceil_div_ge) simp
  moreover have "\<dots> \<le> max ((span + ?t - 1) div ?t) 1 * ?t"
    using t by (intro mult_right_mono) auto
  ultimately have "?t * rs \<le> mapRows l" "span \<le> ?t * max ((span + ?t - 1) div ?t) 1"
    by (simp_all add: mult.commute)
  then show ?thesis
    using assms t by (simp add: tile_rows_def Let_def sdiv_nonneg)
qed

lemma rows_shrink_slowly:
  assumes "2 \<le> rs" and "rs \<le> (n :: int)"
  shows "n div (rs - 1) \<le> 3 * (n div rs)"
proof (rule ccontr)
  let ?t = "n div rs" and ?t' = "n div (rs - 1)"
  assume "\<not> ?thesis"
  then have "(3 * ?t + 1) * (rs - 1) \<le> ?t' * (rs - 1)"
    using assms by (intro mult_right_mono) auto
  also have "\<dots> \<le> n" using assms by (simp add: minus_mod_eq_div_mult [symmetric])
  also have "n \<le> ?t * rs + (rs - 1)"
  proof -
    have "n mod rs < rs" using assms by simp
    moreover have "?t * rs + n mod rs = n" by simp
    ultimately show ?thesis by linarith
  qed
  finally have "?t * (2 * rs) \<le> ?t * 3" by (simp add: algebra_simps)
  moreover have "0 < ?t" using assms by (simp add: pos_imp_zdiv_pos_iff)
  ultimately show False using assms by simp
qed

text \<open>
  Rows of blocks never hold more blocks than pixels: a further step is taken only when the
  blocks are at least three pixels wide, and a step at most triples their number per row.
\<close>

lemma tile_rows_narrow:
  assumes "0 \<le> span" and "2 \<le> rs" and "rs \<le> mapRows l" and "0 < cellH l" and "0 < pxW l"
    and "\<not> tall_enough (tile_rows span (rs - 1) l)"
  shows "blocksPerRow (tile_rows span rs l) \<le> pxW l"
proof -
  let ?p = "tile_rows span (rs - 1) l"
  have fit: "span \<le> tileRows ?p * blocksPerRow ?p" "1 \<le> blocksPerRow ?p"
    using tile_rows_fit [of span "rs - 1" l] assms by auto
  have "1 * 1 \<le> (rs - 1) * cellH l" using assms by (intro mult_mono) auto
  then have "2 \<le> maxTileAspect * (rs - 1) * cellH l"
    unfolding maxTileAspect_def mult.assoc by linarith
  moreover have "maxTileAspect * (rs - 1) * cellH l < blockPx ?p"
    using assms(6) by (simp add: tall_enough_def)
  ultimately have "2 < blockPx ?p" by linarith
  moreover have "blockPx ?p = pxW l div blocksPerRow ?p"
    using fit(2) assms(5) by (simp add: tile_rows_def Let_def sdiv_nonneg)
  ultimately have "3 \<le> pxW l div blocksPerRow ?p" by simp
  then have "3 * blocksPerRow ?p \<le> pxW l div blocksPerRow ?p * blocksPerRow ?p"
    using fit(2) by (intro mult_right_mono) auto
  also have "\<dots> \<le> pxW l" using fit(2) by (simp add: minus_mod_eq_div_mult [symmetric])
  finally have w: "3 * blocksPerRow ?p \<le> pxW l" .
  let ?t = "mapRows l div rs"
  have t: "0 < ?t" using assms by (simp add: pos_imp_zdiv_pos_iff)
  have "tileRows ?p = mapRows l div (rs - 1)" using assms by (simp add: sdiv_nonneg)
  then have "tileRows ?p \<le> 3 * ?t" using rows_shrink_slowly [of rs "mapRows l"] assms by simp
  then have "tileRows ?p * blocksPerRow ?p \<le> 3 * ?t * blocksPerRow ?p"
    using fit(2) by (intro mult_right_mono) auto
  with fit(1) have "span \<le> 3 * blocksPerRow ?p * ?t" by (simp add: mult_ac)
  then have "(span + ?t - 1) div ?t \<le> 3 * blocksPerRow ?p" using t by (rule ceil_div_le [rotated])
  then show ?thesis
    using assms t w by (simp add: tile_rows_def Let_def sdiv_nonneg)
qed

lemma set_inset_fields [simp]:
  "mapRows (set_inset l) = mapRows l" "pxW (set_inset l) = pxW l" "cellW (set_inset l) = cellW l"
  "cellH (set_inset l) = cellH l" "perCol (set_inset l) = perCol l"
  "lviewFrom (set_inset l) = lviewFrom l" "rowSpan (set_inset l) = rowSpan l"
  "tileRows (set_inset l) = tileRows l" "blocksPerRow (set_inset l) = blocksPerRow l"
  "blockPx (set_inset l) = blockPx l"
  by (simp_all add: set_inset_def Let_def)

text \<open>
  What the painting and the pointer rely on: the rows of blocks fit the picture, a row is
  either blocks of whole pixels or pixels of whole blocks.
\<close>

definition layout_ok :: "pix_layout \<Rightarrow> bool" where
  "layout_ok l \<longleftrightarrow> 0 < pxW l \<and> 0 < cellW l \<and> 0 < cellH l \<and> 0 < mapRows l \<and>
     0 < tileRows l \<and> 0 < rowSpan l \<and> tileRows l * rowSpan l \<le> mapRows l \<and>
     0 < blocksPerRow l \<and> 0 \<le> blockPx l \<and> 0 \<le> perCol l \<and>
     (if blockPx l = 0 then 0 < perCol l \<and> blocksPerRow l = perCol l * pxW l \<and> rowSpan l = 1 \<and>
        tileRows l = mapRows l
      else blocksPerRow l \<le> pxW l \<and> blockPx l = pxW l div blocksPerRow l)"

lemma layout_okD:
  assumes "layout_ok l"
  shows "0 < pxW l" "0 < cellW l" "0 < cellH l" "0 < mapRows l" "0 < tileRows l" "0 < rowSpan l"
    "tileRows l * rowSpan l \<le> mapRows l" "0 < blocksPerRow l" "0 \<le> blockPx l"
    "blockPx l \<noteq> 0 \<Longrightarrow> blocksPerRow l \<le> pxW l"
    "blockPx l = 0 \<Longrightarrow> 0 < perCol l \<and> blocksPerRow l = perCol l * pxW l \<and> rowSpan l = 1"
  using assms by (auto simp: layout_ok_def split: if_splits)

lemma tile_rows_ok:
  assumes "0 \<le> span" and "0 < rs" and "rs \<le> mapRows l" and "0 < pxW l" and "0 < cellW l"
    and "0 < cellH l" and "blocksPerRow (tile_rows span rs l) \<le> pxW l" and "perCol l = 0"
  shows "layout_ok (tile_rows span rs l) \<and>
    span \<le> tileRows (tile_rows span rs l) * blocksPerRow (tile_rows span rs l)"
proof -
  let ?l = "tile_rows span rs l"
  note fit = tile_rows_fit [OF assms(1-3)]
  have px: "blockPx ?l = pxW l div blocksPerRow ?l"
    using fit assms(4) by (simp add: tile_rows_def Let_def sdiv_nonneg)
  moreover have "0 < pxW l div blocksPerRow ?l"
    using fit assms(7) by (simp add: pos_imp_zdiv_pos_iff)
  ultimately show ?thesis
    using fit assms by (simp add: layout_ok_def)
qed

lemma pixLayoutFor_params:
  "pxW (pixLayoutFor span w cw ch rows) = w" "cellW (pixLayoutFor span w cw ch rows) = cw"
  "cellH (pixLayoutFor span w cw ch rows) = ch" "mapRows (pixLayoutFor span w cw ch rows) = rows"
proof -
  have g: "pxW (grow_rows sp rs l) = pxW l \<and> cellW (grow_rows sp rs l) = cellW l \<and>
      cellH (grow_rows sp rs l) = cellH l \<and> mapRows (grow_rows sp rs l) = mapRows l" for sp rs l
    by (induction sp rs l rule: grow_rows.induct) (subst (1 2 3 4) grow_rows.simps, simp add: Let_def)
  show "pxW (pixLayoutFor span w cw ch rows) = w" "cellW (pixLayoutFor span w cw ch rows) = cw"
    "cellH (pixLayoutFor span w cw ch rows) = ch" "mapRows (pixLayoutFor span w cw ch rows) = rows"
    using g by (simp_all add: pixLayoutFor_def Let_def no_layout_def)
qed

lemma pixLayoutFor_ok:
  assumes "0 \<le> span" and "0 < w" and "0 < cw" and "0 < ch" and "0 < rows"
  shows "layout_ok (pixLayoutFor span w cw ch rows) \<and>
    span \<le> tileRows (pixLayoutFor span w cw ch rows) * blocksPerRow (pixLayoutFor span w cw ch rows)"
proof -
  let ?l = "no_layout\<lparr>pxW := w, cellW := cw, cellH := ch, mapRows := rows, tileRows := rows,
    rowSpan := 1\<rparr>"
  define q where "q = max ((span + rows - 1) div rows) 1"
  have perRow: "max ((span + rows - 1) sdiv rows) 1 = q"
    using assms by (simp add: q_def sdiv_nonneg)
  have eq: "pixLayoutFor span w cw ch rows =
      (if w < q then ?l\<lparr>perCol := (q + w - 1) sdiv w, blocksPerRow := (q + w - 1) sdiv w * w\<rparr>
       else set_inset (grow_rows span 1 ?l))"
    unfolding pixLayoutFor_def Let_def perRow by simp
  have q: "span \<le> rows * q"
  proof -
    have "span \<le> (span + rows - 1) div rows * rows" by (rule ceil_div_ge) (fact assms(5))
    also have "\<dots> \<le> q * rows" using assms by (intro mult_right_mono) (auto simp: q_def)
    finally show ?thesis by (simp add: mult.commute)
  qed
  show ?thesis
  proof (cases "w < q")
    case True
    let ?per = "(q + w - 1) div w"
    have per: "q \<le> ?per * w" using assms by (intro ceil_div_ge) simp
    then have "0 < ?per" using True assms by (simp add: pos_imp_zdiv_pos_iff)
    moreover have "span \<le> rows * (?per * w)"
      using q mult_left_mono [OF per, of rows] assms by linarith
    ultimately show ?thesis
      using True assms by (simp add: eq sdiv_nonneg layout_ok_def no_layout_def)
  next
    case False
    obtain r where r: "1 \<le> r" "r \<le> rows" "grow_rows span 1 ?l = tile_rows span r ?l"
      "\<forall>k. 1 \<le> k \<and> k < r \<longrightarrow> \<not> tall_enough (tile_rows span k ?l)"
      using grow_rows_stops [of 1 ?l span] assms by auto
    have "blocksPerRow (tile_rows span r ?l) \<le> w"
    proof (cases "r = 1")
      case True
      have "rows sdiv 1 = rows" using assms by (simp add: sdiv_nonneg)
      then show ?thesis using True False perRow by (simp add: tile_rows_def Let_def)
    next
      case False
      then show ?thesis using tile_rows_narrow [of span r ?l] r assms by simp
    qed
    then have "layout_ok (tile_rows span r ?l) \<and>
        span \<le> tileRows (tile_rows span r ?l) * blocksPerRow (tile_rows span r ?l)"
      using r assms by (intro tile_rows_ok) (simp_all add: no_layout_def)
    moreover have "layout_ok (set_inset l) = layout_ok l" for l by (simp add: layout_ok_def)
    ultimately show ?thesis
      using False r by (simp add: eq)
  qed
qed

section \<open>The pixels of a block\<close>

lemma block_edges:
  assumes "layout_ok l" and "0 \<le> j"
  shows "blockSpan l j = (j * pxW l div blocksPerRow l, (j + 1) * pxW l div blocksPerRow l - 1)"
  using assms layout_okD [OF assms(1)] by (simp add: blockSpan_def sdiv_nonneg)

lemma block_edge_mono:
  assumes "0 < (b::int)" and "0 \<le> w" and "i \<le> j"
  shows "i * w div b \<le> j * w div b"
  using assms by (intro zdiv_mono1 mult_right_mono) auto

lemma block_width:
  assumes "layout_ok l" and "blockPx l \<noteq> 0"
  shows "j * pxW l div blocksPerRow l + blockPx l \<le> (j + 1) * pxW l div blocksPerRow l"
    and "(j + 1) * pxW l div blocksPerRow l \<le> j * pxW l div blocksPerRow l + blockPx l + 1"
proof -
  let ?b = "blocksPerRow l" and ?w = "pxW l"
  have b: "0 < ?b" using layout_okD [OF assms(1)] by simp
  have px: "blockPx l = ?w div ?b" using assms by (simp add: layout_ok_def)
  have "(j + 1) * ?w = j * ?w + ?w" by (simp add: distrib_right)
  then show "j * ?w div ?b + blockPx l \<le> (j + 1) * ?w div ?b"
    and "(j + 1) * ?w div ?b \<le> j * ?w div ?b + blockPx l + 1"
    unfolding px using div_add_bounds [OF b, of "j * ?w" ?w] by simp_all
qed

text \<open>Which block of a row a pixel column belongs to.\<close>

lemma block_of_pixel:
  assumes "layout_ok l" and "0 \<le> x" and "x < pxW l"
  shows "\<exists>j. 0 \<le> j \<and> j < blocksPerRow l \<and>
    j * pxW l div blocksPerRow l \<le> x \<and> x \<le> (j + 1) * pxW l div blocksPerRow l - 1"
proof -
  let ?b = "blocksPerRow l" and ?w = "pxW l"
  have b: "0 < ?b" and w: "0 < ?w" using layout_okD [OF assms(1)] by simp_all
  let ?P = "\<lambda>n. x < (int n + 1) * ?w div ?b"
  have "?P (nat (?b - 1))" using b assms(3) by simp
  then have ex: "\<exists>n. ?P n" ..
  define n where "n = (LEAST n. ?P n)"
  have n: "?P n" unfolding n_def using ex by (rule LeastI_ex)
  have "n \<le> nat (?b - 1)" unfolding n_def using \<open>?P (nat (?b - 1))\<close> by (rule Least_le)
  then have "int n < ?b" using b by linarith
  moreover have "int n * ?w div ?b \<le> x"
  proof (cases n)
    case 0
    then show ?thesis using assms(2) by simp
  next
    case (Suc k)
    then have "\<not> ?P k" unfolding n_def using not_less_Least by (metis lessI)
    then show ?thesis using Suc by (simp add: add.commute)
  qed
  ultimately show ?thesis using n by (intro exI [of _ "int n"]) auto
qed

section \<open>The block under the pointer\<close>

text \<open>
  \<^verbatim>\<open>resolveHover\<close> once the pointer is known to be on the map: the blocks under the cell
  \<open>(col, row)\<close> of the map, clipped to \<open>nb\<close> blocks.
\<close>

definition cell_blocks :: "pix_layout \<Rightarrow> int \<Rightarrow> int \<Rightarrow> int \<Rightarrow> int \<times> int" where
  "cell_blocks l nb col row =
     (if col < 0 \<or> row < 0 \<or> row \<ge> mapRows l then (0, 0)
      else
        (let x = col * cellW l
         in if x \<ge> pxW l then (0, 0)
            else
              (let t = row * cellH l sdiv (rowSpan l * cellH l)
               in if t \<ge> tileRows l then (0, 0)
                  else
                    (let (from, to) =
                       (if blockPx l > 0
                        then (let j = (x + cellW l sdiv 2) * blocksPerRow l sdiv pxW l
                              in (j, j + 1))
                        else (x * perCol l, min (x + cellW l) (pxW l) * perCol l));
                         lst = min (lviewFrom l + tileRows l * blocksPerRow l) nb
                     in (min (lviewFrom l + t * blocksPerRow l + from) lst,
                         min (lviewFrom l + t * blocksPerRow l + to) lst)))))"

text \<open>
  \<^verbatim>\<open>markHover\<close>: the corners of the box around the blocks from \<open>from\<close> up to \<open>to\<close>.
\<close>

definition hover_box :: "pix_layout \<Rightarrow> int \<Rightarrow> int \<Rightarrow> (int \<times> int \<times> int \<times> int) option" where
  "hover_box l from to =
     (if to \<le> from then None
      else
        (let i = from - lviewFrom l
         in if i < 0 then None
            else
              (let t = i sdiv blocksPerRow l
               in if t \<ge> tileRows l then None
                  else
                    (let (top, bottom) = rowSpanY l t;
                         j = i smod blocksPerRow l;
                         (x0, x1) =
                           (if blockPx l > 0 then blockSpan l j
                            else (j sdiv perCol l,
                                  (to - lviewFrom l - 1 - t * blocksPerRow l) sdiv perCol l))
                     in Some (x0, x1, top, bottom)))))"

lemma smod_nonneg [go_arith]: "0 \<le> (a::int) \<Longrightarrow> 0 < b \<Longrightarrow> a smod b = a mod b"
  by (simp add: signed_modulo_int_def sgn_if)

lemma layout_ok_viewFrom [simp]: "layout_ok (l\<lparr>lviewFrom := v\<rparr>) = layout_ok l"
  by (simp add: layout_ok_def)

text \<open>The block at a pixel: its first pixel is not right of it, its last at most one left of it.\<close>

lemma block_near_pixel:
  assumes "layout_ok l" and "0 \<le> p" and "p < pxW l"
  defines "j \<equiv> p * blocksPerRow l div pxW l"
  shows "0 \<le> j \<and> j < blocksPerRow l \<and> j * pxW l div blocksPerRow l \<le> p \<and>
    p \<le> (j + 1) * pxW l div blocksPerRow l"
proof -
  let ?b = "blocksPerRow l" and ?w = "pxW l"
  have b: "0 < ?b" and w: "0 < ?w" using layout_okD [OF assms(1)] by simp_all
  have lo: "j * ?w \<le> p * ?b" unfolding j_def using w by (simp add: minus_mod_eq_div_mult [symmetric])
  have "p * ?b mod ?w < ?w" using w by simp
  moreover have "j * ?w + p * ?b mod ?w = p * ?b" unfolding j_def by simp
  ultimately have hi: "p * ?b \<le> (j + 1) * ?w" by (simp add: distrib_right)
  have "j * ?w div ?b \<le> p * ?b div ?b" using b lo by (intro zdiv_mono1) auto
  moreover have "p * ?b div ?b \<le> (j + 1) * ?w div ?b" using b hi by (intro zdiv_mono1) auto
  moreover have "0 \<le> j" unfolding j_def using assms(2) b w by (simp add: pos_imp_zdiv_nonneg_iff)
  moreover have "j < ?b"
  proof (rule ccontr)
    assume "\<not> j < ?b"
    then have "?b * ?w \<le> j * ?w" using w by (intro mult_right_mono) auto
    moreover have "p * ?b < ?w * ?b" using b assms(3) by (intro mult_strict_right_mono)
    ultimately show False using lo by (simp add: mult.commute)
  qed
  ultimately show ?thesis using b by simp
qed

lemma cell_row:
  assumes "layout_ok l" and "0 \<le> row"
  shows "row * cellH l sdiv (rowSpan l * cellH l) = row div rowSpan l"
  using assms layout_okD [OF assms(1)] by (simp add: sdiv_nonneg)

lemma rowSpanY_covers:
  assumes "layout_ok l" and "0 \<le> row"
  shows "fst (rowSpanY l (row div rowSpan l)) \<le> row * cellH l \<and>
    (row + 1) * cellH l \<le> snd (rowSpanY l (row div rowSpan l)) + 1"
proof -
  let ?r = "rowSpan l" and ?h = "cellH l"
  have r: "0 < ?r" and h: "0 < ?h" using layout_okD [OF assms(1)] by simp_all
  have "row div ?r * ?r \<le> row" using r by (simp add: minus_mod_eq_div_mult [symmetric])
  then have "row div ?r * ?r * ?h \<le> row * ?h" using h by (intro mult_right_mono) auto
  moreover have "row + 1 \<le> (row div ?r + 1) * ?r"
  proof -
    have "row mod ?r < ?r" using r by simp
    moreover have "row div ?r * ?r + row mod ?r = row" by (rule div_mult_mod_eq)
    moreover have "(row div ?r + 1) * ?r = row div ?r * ?r + ?r" by (simp add: distrib_right)
    ultimately show ?thesis by linarith
  qed
  then have "(row + 1) * ?h \<le> (row div ?r + 1) * ?r * ?h" using h by (intro mult_right_mono) auto
  ultimately show ?thesis by (simp add: rowSpanY_def)
qed

lemma clip_one:
  "min a l < min (a + 1) (l::int) \<Longrightarrow> min a l = a \<and> min (a + 1) l = a + 1 \<and> a < l"
  by (auto simp: min_def split: if_splits)

section \<open>Properties\<close>

text \<open>
  C10. The layout loop ends with a layout that has a place for every block of the window,
  stays inside the rows it was given, and either draws every block at least one pixel wide
  or every pixel column over at least one block.
\<close>

theorem pixLayoutFor_fits:
  assumes "0 \<le> span" and "0 < w" and "0 < cw" and "0 < ch" and "0 < rows"
  shows "span \<le> tileRows (pixLayoutFor span w cw ch rows) *
      blocksPerRow (pixLayoutFor span w cw ch rows) \<and>
    tileRows (pixLayoutFor span w cw ch rows) * rowSpan (pixLayoutFor span w cw ch rows) \<le> rows \<and>
    (1 \<le> blockPx (pixLayoutFor span w cw ch rows) \<and>
       blocksPerRow (pixLayoutFor span w cw ch rows) \<le> w \<or>
     1 \<le> perCol (pixLayoutFor span w cw ch rows) \<and>
       blocksPerRow (pixLayoutFor span w cw ch rows) = perCol (pixLayoutFor span w cw ch rows) * w)"
proof -
  note ok = pixLayoutFor_ok [OF assms]
  then have l: "layout_ok (pixLayoutFor span w cw ch rows)" by simp
  show ?thesis
    using ok layout_okD(7,9-11) [OF l]
    by (cases "blockPx (pixLayoutFor span w cw ch rows) = 0") (auto simp: pixLayoutFor_params)
qed

lemma pixLayoutFor_fits_witness:
  "1000 \<le> tileRows (pixLayoutFor 1000 800 8 16 20) * blocksPerRow (pixLayoutFor 1000 800 8 16 20)"
  by (rule pixLayoutFor_fits [THEN conjunct1]) simp_all

text \<open>
  Where blocks have pixels of their own, the blocks of a row partition its pixel
  columns: every column belongs to exactly one block, and a block is \<^verbatim>\<open>blockPx\<close> columns wide
  or one more.
\<close>

theorem blockSpan_partition:
  assumes "0 \<le> span" and "0 < w" and "0 < cw" and "0 < ch" and "0 < rows"
    and "l = pixLayoutFor span w cw ch rows" and "0 < blockPx l"
  shows "(\<forall>x. 0 \<le> x \<and> x < w \<longrightarrow>
      (\<exists>!j. 0 \<le> j \<and> j < blocksPerRow l \<and> fst (blockSpan l j) \<le> x \<and> x \<le> snd (blockSpan l j))) \<and>
    (\<forall>j. 0 \<le> j \<longrightarrow> blockPx l \<le> snd (blockSpan l j) - fst (blockSpan l j) + 1 \<and>
      snd (blockSpan l j) - fst (blockSpan l j) + 1 \<le> blockPx l + 1)"
proof (intro conjI allI impI)
  have ok: "layout_ok l" and w: "pxW l = w"
    using pixLayoutFor_ok [OF assms(1-5)] by (simp_all add: assms(6) pixLayoutFor_params)
  have b: "0 < blocksPerRow l" using layout_okD [OF ok] by simp
  fix x
  assume x: "0 \<le> x \<and> x < w"
  then obtain j where j: "0 \<le> j" "j < blocksPerRow l" "fst (blockSpan l j) \<le> x"
    "x \<le> snd (blockSpan l j)"
    using block_of_pixel [OF ok, of x] by (auto simp: w block_edges [OF ok])
  show "\<exists>!j. 0 \<le> j \<and> j < blocksPerRow l \<and> fst (blockSpan l j) \<le> x \<and> x \<le> snd (blockSpan l j)"
  proof (rule ex1I [of _ j])
    show "0 \<le> j \<and> j < blocksPerRow l \<and> fst (blockSpan l j) \<le> x \<and> x \<le> snd (blockSpan l j)"
      using j by simp
    fix k
    assume k: "0 \<le> k \<and> k < blocksPerRow l \<and> fst (blockSpan l k) \<le> x \<and> x \<le> snd (blockSpan l k)"
    have apart: "x \<le> snd (blockSpan l i) \<Longrightarrow> fst (blockSpan l i') \<le> x \<Longrightarrow> \<not> i < i'"
      if "0 \<le> i" "0 \<le> i'" for i i'
      using that block_edge_mono [OF b, of w "i + 1" i'] assms(2)
      by (auto simp: block_edges [OF ok] w)
    show "k = j" using apart [of k j] apart [of j k] j k by auto
  qed
next
  have ok: "layout_ok l" using pixLayoutFor_ok [OF assms(1-5)] by (simp add: assms(6))
  fix j :: int
  assume "0 \<le> j"
  then show "blockPx l \<le> snd (blockSpan l j) - fst (blockSpan l j) + 1"
    and "snd (blockSpan l j) - fst (blockSpan l j) + 1 \<le> blockPx l + 1"
    using block_width [OF ok, of j] assms(7) by (simp_all add: block_edges [OF ok])
qed

lemma grow_rows_1:
  "0 < mapRows l \<Longrightarrow> tall_enough (tile_rows span 1 l) \<Longrightarrow>
   grow_rows span 1 l = tile_rows span 1 l"
  by (simp add: grow_rows.simps Let_def)

lemma sample_layout:
  "pixLayoutFor 1000 800 8 16 20 = \<lparr>lviewFrom = 0, pxW = 800, cellW = 8, cellH = 16, mapRows = 20,
     tileRows = 20, rowSpan = 1, blocksPerRow = 50, blockPx = 16, perCol = 0, inset = 2\<rparr>"
  by (simp add: pixLayoutFor_def no_layout_def Let_def grow_rows_1 tile_rows_def tall_enough_def
    maxTileAspect_def set_inset_def)

lemma blockSpan_partition_witness:
  "\<exists>!j. 0 \<le> j \<and> j < 50 \<and> fst (blockSpan (pixLayoutFor 1000 800 8 16 20) j) \<le> 123 \<and>
     123 \<le> snd (blockSpan (pixLayoutFor 1000 800 8 16 20) j)"
  using blockSpan_partition [of 1000 800 8 16 20, OF _ _ _ _ _ refl] by (simp add: sample_layout)

text \<open>
  A block reported under the pointer is one that is drawn there: the box around it
  overlaps the terminal cell the pointer is on, and covers that cell from top to bottom. The
  picture is a whole number of cells at least two pixels wide.
\<close>

theorem hover_is_under_pointer:
  assumes "0 \<le> span" and "0 < width" and "2 \<le> cw" and "0 < ch" and "0 < rows"
    and "l = (pixLayoutFor span (width * cw) cw ch rows)\<lparr>lviewFrom := v\<rparr>" and "0 < blockPx l"
    and "cell_blocks l nb col row = (from, to)" and "from < to"
  shows "to = from + 1 \<and> v \<le> from \<and> from < nb \<and>
    (\<exists>x0 x1 top bottom. hover_box l from to = Some (x0, x1, top, bottom) \<and>
      x0 < (col + 1) * cw \<and> col * cw \<le> x1 \<and> top \<le> row * ch \<and> (row + 1) * ch \<le> bottom + 1)"
proof -
  have ok: "layout_ok l" using pixLayoutFor_ok [of span "width * cw" cw ch rows] assms by simp
  have par: "pxW l = width * cw" "cellW l = cw" "cellH l = ch" "mapRows l = rows" "lviewFrom l = v"
    by (simp_all add: assms(6) pixLayoutFor_params)
  note d = layout_okD [OF ok]
  let ?x = "col * cw" and ?t = "row div rowSpan l"
  have pos: "0 \<le> col" "0 \<le> row" "?x < width * cw" "?t < tileRows l" "row < rows"
    using assms(8,9) cell_row [OF ok, of row]
    by (auto simp: cell_blocks_def Let_def par split: if_splits)
  let ?p = "?x + cw div 2"
  define j where "j = ?p * blocksPerRow l div pxW l"
  have "col + 1 \<le> width" using pos(3) assms(3) by simp
  then have "(col + 1) * cw \<le> width * cw" using assms(3) by (intro mult_right_mono) auto
  then have p: "0 \<le> ?p" "?p < pxW l" "?x + 1 \<le> ?p" "?p < (col + 1) * cw"
    using pos(1) assms(3) by (auto simp: par distrib_right)
  note near = block_near_pixel [OF ok p(1,2), folded j_def]
  let ?A = "v + ?t * blocksPerRow l" and ?last = "min (v + tileRows l * blocksPerRow l) nb"
  have "cell_blocks l nb col row = (min (?A + j) ?last, min (?A + (j + 1)) ?last)"
    using pos p(1) assms(3,7) d(1,8)
    by (simp add: cell_blocks_def Let_def par cell_row [OF ok, unfolded par] j_def sdiv_nonneg)
  then have ft: "from = min (?A + j) ?last" "to = min (?A + j + 1) ?last"
    using assms(8) by (simp_all only: prod.inject add.assoc)
  note clip = clip_one [OF assms(9) [unfolded ft]]
  then have "from = ?A + j" "to = ?A + j + 1" "?A + j < ?last" unfolding ft by blast+
  then have fr: "from = ?A + j" "to = from + 1" "from < nb"
    by (simp_all only: min_less_iff_conj)
  have t: "0 \<le> ?t" using pos(2) d(6) by (simp add: pos_imp_zdiv_nonneg_iff)
  then have A: "0 \<le> ?t * blocksPerRow l" using d(8) by simp
  have i: "from - v = ?t * blocksPerRow l + j" using fr by simp
  have dm: "(from - v) div blocksPerRow l = ?t" "(from - v) mod blocksPerRow l = j"
    unfolding i using near d(8) by simp_all
  have "0 \<le> from - v" using i A near by linarith
  then have "hover_box l from to = Some (fst (blockSpan l j), snd (blockSpan l j),
      fst (rowSpanY l ?t), snd (rowSpanY l ?t))"
    using dm pos(4) d(8) assms(7,9)
    by (simp add: hover_box_def Let_def par sdiv_nonneg smod_nonneg case_prod_beta)
  moreover have "fst (blockSpan l j) < (col + 1) * cw" "?x \<le> snd (blockSpan l j)"
    using near p by (simp_all add: block_edges [OF ok])
  ultimately have "\<exists>x0 x1 top bottom. hover_box l from to = Some (x0, x1, top, bottom) \<and>
      x0 < (col + 1) * cw \<and> ?x \<le> x1 \<and> top \<le> row * ch \<and> (row + 1) * ch \<le> bottom + 1"
    using rowSpanY_covers [OF ok pos(2), unfolded par] by blast
  with fr \<open>0 \<le> from - v\<close> show ?thesis by simp
qed

lemma hover_is_under_pointer_witness:
  "\<exists>x0 x1 top bottom. hover_box (pixLayoutFor 1000 800 8 16 20) 106 107 = Some (x0, x1, top, bottom) \<and>
     x0 < 104 \<and> 96 \<le> x1 \<and> top \<le> 32 \<and> 48 \<le> bottom + 1"
proof -
  have "pixLayoutFor 1000 800 8 16 20 = (pixLayoutFor 1000 (100 * 8) 8 16 20)\<lparr>lviewFrom := 0\<rparr>"
    by (simp add: sample_layout)
  from hover_is_under_pointer [OF _ _ _ _ _ this, of 1000 12 2 106 107] show ?thesis
    by (simp add: sample_layout cell_blocks_def sdiv_nonneg)
qed

end
