(* ===== verification/Window.thy ===== *)
theory Window
  imports MapFrame Layout
begin

text \<open>
  The window onto the map and the keys, wheel and pointer that move it:
  \<^verbatim>\<open>zoom\<close>, \<^verbatim>\<open>pan\<close>, \<^verbatim>\<open>clamp\<close>, \<^verbatim>\<open>wheel\<close> and the geometry of \<^verbatim>\<open>render\<close> in
  \<^verbatim>\<open>packages/fragview/render.go\<close>, \<^verbatim>\<open>resolveHover\<close> and the layout kept by \<^verbatim>\<open>paintPixels\<close> in
  \<^verbatim>\<open>pixmap.go\<close>, \<^verbatim>\<open>key\<close> in \<^verbatim>\<open>main.go\<close>. Positions are Go \<^verbatim>\<open>int\<close>s, far from their bounds.
\<close>

section \<open>State\<close>

record px_key =
  kfrom :: int
  kto :: int
  kwidth :: int
  krows :: int
  kcellW :: int
  kcellH :: int
  kgen :: nat
  khoverFrom :: int
  khoverTo :: int

record ui_frame = map_frame +
  share :: int
  paused :: bool
  byClass :: bool
  pixels :: bool
  layout :: pix_layout
  pxKey :: px_key
  gen :: nat
  mapTop :: int
  hoverCol :: int
  hoverRow :: int
  hoverFrom :: int
  hoverTo :: int
  boxFrom :: int
  boxTo :: int
  rowBlocks :: int
  screenBlocks :: int
  focusSlab :: bool
  slabSort :: int
  slabScroll :: int
  slabRows :: int
  slabTotal :: int

section \<open>Moving the window\<close>

definition clamp :: "'a ui_frame_scheme \<Rightarrow> 'a ui_frame_scheme" where
  "clamp f =
     (let width = viewTo f - viewFrom f;
          n = int (nblocks (m f));
          vf = (if viewFrom f < 0 then 0 else viewFrom f);
          vt = vf + width
      in if vt > n
         then f\<lparr>boxFrom := 0, boxTo := 0, viewFrom := (if n - width < 0 then 0 else n - width),
                viewTo := n\<rparr>
         else f\<lparr>boxFrom := 0, boxTo := 0, viewFrom := vf, viewTo := vt\<rparr>)"

definition pan :: "int \<Rightarrow> 'a ui_frame_scheme \<Rightarrow> 'a ui_frame_scheme" where
  "pan by f = clamp (f\<lparr>viewFrom := viewFrom f + by, viewTo := viewTo f + by\<rparr>)"

text \<open>Where the window starts after a zoom, in the float arithmetic of the source.\<close>

definition zoom_from :: "int \<Rightarrow> int \<Rightarrow> int \<Rightarrow> int \<Rightarrow> int" where
  "zoom_from hover vf old width =
     (let place = fl (fl (of_int (hover - vf)) / fl (of_int old))
      in hover - to_int (fl (place * fl (of_int width))))"

definition zoom :: "int \<Rightarrow> 'a ui_frame_scheme \<Rightarrow> 'a ui_frame_scheme" where
  "zoom width f =
     (let span1 = (if width < 32 then 32 else width);
          n = int (nblocks (m f));
          span2 = (if span1 > n then n else span1);
          old = viewTo f - viewFrom f;
          vf = (if hoverTo f > hoverFrom f \<and> old > 0
                then zoom_from (hoverFrom f) (viewFrom f) old span2 else viewFrom f)
      in clamp (f\<lparr>viewFrom := vf, viewTo := vf + span2\<rparr>))"

definition wheel :: "bool \<Rightarrow> bool \<Rightarrow> 'a ui_frame_scheme \<Rightarrow> 'a ui_frame_scheme" where
  "wheel down ctrl f =
     (if focusSlab f then f\<lparr>slabScroll := slabScroll f + (if \<not> down then - 3 else 3)\<rparr>
      else
        (let width = viewTo f - viewFrom f
         in if ctrl \<and> down then zoom (width * 2) f
            else if ctrl then zoom (width sdiv 2) f
            else if down then pan (max (rowBlocks f) 1) f
            else pan (- max (rowBlocks f) 1) f))"

section \<open>Keys\<close>

definition nSorts :: int where
  "nSorts = 4"

text \<open>The first \<^verbatim>\<open>switch\<close>: the slab table scrolls while it has the focus.\<close>

definition slab_key :: "string \<Rightarrow> 'a ui_frame_scheme \<Rightarrow> 'a ui_frame_scheme" where
  "slab_key k f =
     (if k \<in> {''down'', ''j''} then f\<lparr>slabScroll := slabScroll f + 1\<rparr>
      else if k \<in> {''up'', ''k''} then f\<lparr>slabScroll := slabScroll f - 1\<rparr>
      else if k \<in> {''pgdown'', ''ctrl+d''} then f\<lparr>slabScroll := slabScroll f + slabRows f\<rparr>
      else if k \<in> {''pgup'', ''ctrl+u''} then f\<lparr>slabScroll := slabScroll f - slabRows f\<rparr>
      else if k \<in> {''home'', ''g''} then f\<lparr>slabScroll := 0\<rparr>
      else if k \<in> {''end'', ''G''} then f\<lparr>slabScroll := slabTotal f\<rparr>
      else f)"

text \<open>The second one: the modes. \<open>kitty\<close> is \<^verbatim>\<open>kittyAvailable()\<close>.\<close>

definition mode_key :: "bool \<Rightarrow> string \<Rightarrow> 'a ui_frame_scheme \<Rightarrow> 'a ui_frame_scheme" where
  "mode_key kitty k f =
     (if k = '' '' then f\<lparr>paused := \<not> paused f\<rparr>
      else if k \<in> {''tab'', ''s''} then f\<lparr>focusSlab := \<not> focusSlab f\<rparr>
      else if k = ''o'' then f\<lparr>slabSort := (slabSort f + 1) smod nSorts, slabScroll := 0\<rparr>
      else if k = ''m'' then f\<lparr>byClass := \<not> byClass f\<rparr>
      else if k = ''p'' then f\<lparr>pixels := \<not> pixels f \<and> kitty\<rparr>
      else f)"

text \<open>
  The third one: the map. \<open>width\<close>, \<open>row\<close> and \<open>screen\<close> are the values taken at the
  start of \<^verbatim>\<open>key\<close>.
\<close>

definition map_key ::
  "string \<Rightarrow> int \<Rightarrow> int \<Rightarrow> int \<Rightarrow> 'a ui_frame_scheme \<Rightarrow> 'a ui_frame_scheme" where
  "map_key k width row screen f =
     (if k = ''z'' then zoom (width sdiv 2) f
      else if k = ''Z'' then zoom (width * 2) f
      else if k \<in> {''down'', ''j''} then pan row f
      else if k \<in> {''up'', ''k''} then pan (- row) f
      else if k \<in> {''pgdown'', ''ctrl+d''} then pan screen f
      else if k \<in> {''pgup'', ''ctrl+u''} then pan (- screen) f
      else if k \<in> {''right'', ''l''} then pan (max (row sdiv 4) 1) f
      else if k \<in> {''left'', ''h''} then pan (- max (row sdiv 4) 1) f
      else if k \<in> {''home'', ''g''} then clamp (f\<lparr>viewFrom := 0, viewTo := int (nblocks (m f))\<rparr>)
      else if k \<in> {''end'', ''G''} 
        then clamp (f\<lparr>viewFrom := int (nblocks (m f)) - width, viewTo := int (nblocks (m f))\<rparr>)
      else if k \<in> {''+'', ''=''} then (if share f > 1 then f\<lparr>share := share f sdiv 2\<rparr> else f)
      else if k = ''-'' then (if share f < 256 then f\<lparr>share := share f * 2\<rparr> else f)
      else f)"

text \<open>
  \<^verbatim>\<open>key\<close>: the frame after the keystroke, whether to quit and whether a fresh sweep is
  needed. The write to \<^verbatim>\<open>compact_memory\<close> goes to the kernel and leaves the frame alone.
\<close>

definition key :: "bool \<Rightarrow> string \<Rightarrow> 'a ui_frame_scheme \<Rightarrow> 'a ui_frame_scheme \<times> bool \<times> bool" where
  "key kitty k f =
     (let width = viewTo f - viewFrom f;
          row = (if rowBlocks f < 1 then 512 else rowBlocks f);
          screen = (if screenBlocks f < 1 then row * 8 else screenBlocks f);
          f1 = (if focusSlab f then slab_key k f else f)
      in if k \<in> {''q'', ''ctrl+c'', ''esc''} then (f1, True, False)
         else if k = ''c'' then (f1, False, True)
         else
           (let f2 = mode_key kitty k f1
            in if focusSlab f2 then (f2, False, False)
               else (map_key k width row screen f2, False, False)))"

section \<open>The pointer\<close>

definition mapLabel :: int where
  "mapLabel = 6"

definition resolveHover :: "'a ui_frame_scheme \<Rightarrow> 'a ui_frame_scheme" where
  "resolveHover f =
     (if \<not> pixels f \<or> blocksPerRow (layout f) = 0 \<or> mapTop f = 0
      then f\<lparr>hoverFrom := 0, hoverTo := 0\<rparr>
      else
        (let (from, to) = cell_blocks (layout f) (int (nblocks (m f)))
           (hoverCol f - mapLabel) (hoverRow f - mapTop f)
         in f\<lparr>hoverFrom := from, hoverTo := to\<rparr>))"

definition move_pointer :: "int \<Rightarrow> int \<Rightarrow> 'a ui_frame_scheme \<Rightarrow> 'a ui_frame_scheme" where
  "move_pointer x y f = f\<lparr>hoverCol := x, hoverRow := y\<rparr>"

definition settle_box :: "'a ui_frame_scheme \<Rightarrow> 'a ui_frame_scheme" where
  "settle_box f = f\<lparr>boxFrom := hoverFrom f, boxTo := hoverTo f\<rparr>"

section \<open>The window stays on the map\<close>

text \<open>
  The window lies inside the map, and is no narrower than 32 blocks unless the map itself is.
\<close>

definition window_ok :: "'a map_frame_scheme \<Rightarrow> bool" where
  "window_ok f \<longleftrightarrow> 0 \<le> viewFrom f \<and> viewTo f \<le> int (nblocks (m f)) \<and>
     min 32 (int (nblocks (m f))) \<le> viewTo f - viewFrom f"

lemmas window_defs = clamp_def Let_def window_ok_def

lemma clamp_m [simp]: "m (clamp f) = m f" "counts (m (clamp f)) = counts (m f)"
  by (simp_all add: clamp_def Let_def)

lemma clamp_ok:
  assumes "min 32 (int (nblocks (m f))) \<le> viewTo f - viewFrom f"
    and "viewTo f - viewFrom f \<le> int (nblocks (m f))"
  shows "window_ok (clamp f)"
  using assms by (auto simp: window_defs)

lemma clamp_width:
  "0 \<le> viewTo f - viewFrom f \<Longrightarrow> viewTo f - viewFrom f \<le> int (nblocks (m f)) \<Longrightarrow>
   viewTo (clamp f) - viewFrom (clamp f) = viewTo f - viewFrom f"
  by (auto simp: window_defs)

lemma clamp_id:
  "0 \<le> viewFrom f \<Longrightarrow> viewTo f \<le> int (nblocks (m f)) \<Longrightarrow>
   viewFrom (clamp f) = viewFrom f \<and> viewTo (clamp f) = viewTo f"
  by (auto simp: window_defs)

lemma clamp_keeps_inside:
  "viewFrom f \<le> b \<Longrightarrow> b < viewTo f \<Longrightarrow> 0 \<le> b \<Longrightarrow> b < int (nblocks (m f)) \<Longrightarrow>
   viewFrom (clamp f) \<le> b \<and> b < viewTo (clamp f)"
  by (auto simp: window_defs)

lemma pan_ok: "window_ok f \<Longrightarrow> window_ok (pan by f)"
  unfolding pan_def by (rule clamp_ok) (auto simp: window_ok_def)

lemma zoom_ok: "window_ok (zoom width f)"
  unfolding zoom_def Let_def by (rule clamp_ok) auto

lemma wheel_ok: "window_ok f \<Longrightarrow> window_ok (wheel down ctrl f)"
  by (auto simp: wheel_def Let_def pan_ok zoom_ok) (auto simp: window_ok_def)

lemma window_ok_if: "window_ok f \<Longrightarrow> window_ok g \<Longrightarrow> window_ok (if b then f else g)"
  by simp

lemma map_key_ok:
  assumes "window_ok f" and "width = viewTo f - viewFrom f"
  shows "window_ok (map_key k width row screen f)"
proof -
  have "window_ok (clamp (f\<lparr>viewFrom := 0, viewTo := int (nblocks (m f))\<rparr>))"
    by (rule clamp_ok) auto
  moreover have "window_ok (clamp (f\<lparr>viewFrom := int (nblocks (m f)) - width,
      viewTo := int (nblocks (m f))\<rparr>))"
    using assms by (intro clamp_ok) (auto simp: window_ok_def)
  moreover have "window_ok (f\<lparr>share := s\<rparr>)" for s using assms(1) by (simp add: window_ok_def)
  ultimately show ?thesis
    unfolding map_key_def by (intro window_ok_if pan_ok zoom_ok assms(1)) assumption+
qed

lemma slab_key_fields [simp]:
  "m (slab_key k f) = m f" "viewFrom (slab_key k f) = viewFrom f"
  "viewTo (slab_key k f) = viewTo f" "share (slab_key k f) = share f"
  "slabSort (slab_key k f) = slabSort f" "layout (slab_key k f) = layout f"
  "hoverFrom (slab_key k f) = hoverFrom f" "hoverTo (slab_key k f) = hoverTo f"
  "focusSlab (slab_key k f) = focusSlab f"
  by (simp_all add: slab_key_def)

lemma mode_key_fields [simp]:
  "m (mode_key kitty k f) = m f" "viewFrom (mode_key kitty k f) = viewFrom f"
  "viewTo (mode_key kitty k f) = viewTo f" "share (mode_key kitty k f) = share f"
  "layout (mode_key kitty k f) = layout f"
  "hoverFrom (mode_key kitty k f) = hoverFrom f" "hoverTo (mode_key kitty k f) = hoverTo f"
  by (simp_all add: mode_key_def)

lemma window_ok_cong:
  "m f = m g \<Longrightarrow> viewFrom f = viewFrom g \<Longrightarrow> viewTo f = viewTo g \<Longrightarrow> window_ok f = window_ok g"
  by (simp add: window_ok_def)

lemma key_ok:
  assumes "window_ok f"
  shows "window_ok (fst (key kitty k f))"
proof -
  let ?f1 = "if focusSlab f then slab_key k f else f"
  have f1: "window_ok ?f1" using assms by (simp add: window_ok_def)
  then have f2: "window_ok (mode_key kitty k ?f1)" by (simp add: window_ok_def)
  have "window_ok (map_key k (viewTo f - viewFrom f) row screen (mode_key kitty k ?f1))" for row screen
    by (rule map_key_ok [OF f2]) simp
  with f1 f2 show ?thesis by (simp add: key_def Let_def)
qed

section \<open>Zooming towards the pointer\<close>

lemma relative_error:
  "x \<le> y * (1 + 3 * e) \<Longrightarrow> y * (1 - 3 * e) \<le> x \<Longrightarrow> \<bar>x - y\<bar> \<le> 3 * y * (e :: rat)"
  by (simp add: abs_le_iff algebra_simps)

lemma zoom_from_bounds:
  assumes "0 \<le> d" and "d < old" and "old \<le> 2 ^ 25" and "1 \<le> width" and "width \<le> 2 ^ 25"
  defines "v \<equiv> to_int (fl (fl (fl (of_int d) / fl (of_int old)) * fl (of_int width)))"
  shows "0 \<le> v \<and> v < width \<and> \<bar>v * old - d * width\<bar> \<le> old"
proof -
  have small: "fl (of_int i) = of_int i" if "0 \<le> i" "i \<le> 2 ^ 25" for i
    using that by (intro fl_of_int) simp
  define q :: rat where "q = of_int d / of_int old"
  have ro: "0 < rat_of_int old" "rat_of_int old \<le> 2 ^ 25"
    using assms of_int_le_iff [of old "2 ^ 25", where ?'a = rat] by simp_all
  have rw: "1 \<le> rat_of_int width" "rat_of_int width \<le> 2 ^ 25"
    using assms of_int_le_iff [of width "2 ^ 25", where ?'a = rat] by simp_all
  have q: "0 \<le> q" "q \<le> 1 - 1 / 2 ^ 25"
  proof -
    show "0 \<le> q" using assms by (simp add: q_def)
    have "rat_of_int d \<le> of_int old - 1"
      using assms(2) by (metis of_int_1 of_int_diff of_int_le_iff zle_diff1_eq)
    then have "q \<le> (of_int old - 1) / of_int old"
      unfolding q_def using ro by (intro divide_right_mono) auto
    also have "\<dots> = 1 - 1 / of_int old" using ro by (simp add: diff_divide_distrib)
    also have "\<dots> \<le> 1 - 1 / 2 ^ 25" using ro by (simp add: frac_le)
    finally show "q \<le> 1 - 1 / 2 ^ 25" .
  qed
  let ?p = "fl q" and ?x = "fl (fl q * of_int width)"
  have v: "v = to_int ?x" unfolding v_def q_def using assms by (simp add: small)
  have p: "0 \<le> ?p" "?p \<le> 1 - 1 / 2 ^ 25"
  proof -
    show "0 \<le> ?p" using q(1) by (rule fl_nonneg)
    have "fl (1 - 1 / 2 ^ 25) = 1 - 1 / 2 ^ 25"
      using fl_exact [of "2 ^ 25 - 1" "-25"] by (simp add: power_int_minus diff_divide_distrib)
    then show "?p \<le> 1 - 1 / 2 ^ 25" using q(2) by (intro f64.rnd_le)
  qed
  have x0: "0 \<le> ?x" using p(1) rw by (intro fl_nonneg) simp
  have "?x \<le> (1 - 1 / 2 ^ 25) * of_int width"
  proof (rule f64.rnd_le)
    have "(2 ^ 25 - 1) * width \<le> (2 ^ 25 - 1) * 2 ^ 25" using assms by (intro mult_left_mono) auto
    then have "\<bar>(2 ^ 25 - 1) * width\<bar> \<le> 2 ^ 53" using assms(4) by simp
    then have "fl (of_int ((2 ^ 25 - 1) * width) * 2 powi (- 25)) =
        of_int ((2 ^ 25 - 1) * width) * 2 powi (- 25)" by (rule fl_exact)
    moreover have "of_int ((2 ^ 25 - 1) * width) * 2 powi (- 25) = (1 - 1 / 2 ^ 25) * rat_of_int width"
      by (simp add: power_int_minus field_simps)
    ultimately show "fl ((1 - 1 / 2 ^ 25) * of_int width) = (1 - 1 / 2 ^ 25) * of_int width" by simp
    show "?p * of_int width \<le> (1 - 1 / 2 ^ 25) * of_int width"
      using p rw by (intro mult_right_mono) auto
  qed
  also have "\<dots> < of_int width" using rw by simp
  finally have "\<lfloor>?x\<rfloor> < width" by (simp add: floor_less_iff)
  then have vw: "0 \<le> v" "v < width" using x0 by (simp_all add: v to_int_def)
  have err: "\<bar>?x - q * of_int width\<bar> \<le> 3 * (q * of_int width) * (1 / 2 ^ 53)"
  proof -
    let ?e = "1 / 2 ^ 53 :: rat" and ?w = "rat_of_int width"
    have "?x \<le> ?p * ?w * (1 + ?e)" "?p * ?w * (1 - ?e) \<le> ?x"
      using p rw by (intro f64.rnd_error_pos f64.rnd_error_low; simp)+
    moreover have "?p \<le> q * (1 + ?e)" "q * (1 - ?e) \<le> ?p"
      using q(1) by (intro f64.rnd_error_pos f64.rnd_error_low; simp)+
    then have "?p * (?w * (1 + ?e)) \<le> q * (1 + ?e) * (?w * (1 + ?e))"
      "q * (1 - ?e) * (?w * (1 - ?e)) \<le> ?p * (?w * (1 - ?e))"
      using rw by (intro mult_right_mono; simp)+
    moreover have "q * (1 + ?e) * (?w * (1 + ?e)) = q * ?w * ((1 + ?e) * (1 + ?e))"
      "q * (1 - ?e) * (?w * (1 - ?e)) = q * ?w * ((1 - ?e) * (1 - ?e))"
      by (simp_all only: mult_ac)
    moreover have "q * ?w * ((1 + ?e) * (1 + ?e)) \<le> q * ?w * (1 + 3 * ?e)"
      "q * ?w * (1 - 3 * ?e) \<le> q * ?w * ((1 - ?e) * (1 - ?e))"
      using q rw by (intro mult_left_mono; simp)+
    ultimately have "?x \<le> q * ?w * (1 + 3 * ?e)" "q * ?w * (1 - 3 * ?e) \<le> ?x"
      by (simp_all only: mult.assoc)
    then show ?thesis by (rule relative_error)
  qed
  have "\<bar>?x * of_int old - of_int (d * width)\<bar> = \<bar>?x - q * of_int width\<bar> * of_int old"
  proof -
    have "rat_of_int (d * width) = q * of_int width * of_int old" using ro by (simp add: q_def)
    then show ?thesis
      using ro(1) by (simp only: left_diff_distrib [symmetric] abs_mult abs_of_pos)
  qed
  also have "\<dots> \<le> 3 * (q * of_int width) * (1 / 2 ^ 53) * of_int old"
    using err ro by (intro mult_right_mono) auto
  also have "\<dots> \<le> 3 * (1 * 2 ^ 25) * (1 / 2 ^ 53) * 2 ^ 25"
    using q ro rw by (intro mult_mono mult_left_mono mult_right_mono) auto
  also have "\<dots> < 1" by simp
  finally have e1: "\<bar>?x * of_int old - of_int (d * width)\<bar> < 1" .
  have "of_int v \<le> ?x" "?x < of_int v + 1" using x0 floor_correct [of ?x] by (simp_all add: v to_int_def)
  then have "of_int v * of_int old \<le> ?x * of_int old" "?x * of_int old < (of_int v + 1) * of_int old"
    using ro by simp_all
  with e1 have "rat_of_int (v * old - d * width) < of_int 1"
    "rat_of_int (d * width - v * old) < of_int (old + 1)"
    by (simp_all add: distrib_right abs_less_iff)
  then have "v * old - d * width < 1" "d * width - v * old < old + 1"
    by (simp_all only: of_int_less_iff)
  then show ?thesis using vw assms by (simp add: abs_le_iff)
qed

lemma zoom_from_eq:
  "zoom_from h vf old width = h - to_int (fl (fl (fl (of_int (h - vf)) / fl (of_int old)) * fl (of_int width)))"
  by (simp add: zoom_from_def)

definition zoom_width :: "int \<Rightarrow> 'a map_frame_scheme \<Rightarrow> int" where
  "zoom_width width f = min (max width 32) (int (nblocks (m f)))"

text \<open>
  C11. A zoom with the pointer on a block of the window gives the window the width asked for,
  at least 32 blocks and at most the map, and keeps that block in it. Unless the edge of the
  map is in the way the block keeps its place, to within one block: its distance from the
  top, scaled by the old width, is off by at most one old width.
\<close>

theorem zoom_anchors_pointer:
  assumes "window_ok f" and "viewFrom f \<le> hoverFrom f" and "hoverFrom f < viewTo f"
    and "hoverFrom f < hoverTo f" and "nblocks (m f) \<le> 2 ^ 25"
  shows "viewTo (zoom width f) - viewFrom (zoom width f) = zoom_width width f \<and>
    viewFrom (zoom width f) \<le> hoverFrom f \<and> hoverFrom f < viewTo (zoom width f) \<and>
    (0 < viewFrom (zoom width f) \<and> viewTo (zoom width f) < int (nblocks (m f)) \<longrightarrow>
      \<bar>(hoverFrom f - viewFrom (zoom width f)) * (viewTo f - viewFrom f) -
        (hoverFrom f - viewFrom f) * zoom_width width f\<bar> \<le> viewTo f - viewFrom f)"
proof -
  let ?h = "hoverFrom f" and ?old = "viewTo f - viewFrom f" and ?w = "zoom_width width f"
  let ?vf = "zoom_from ?h (viewFrom f) ?old ?w"
  have win: "0 \<le> viewFrom f" "viewTo f \<le> int (nblocks (m f))" and n: "int (nblocks (m f)) \<le> 2 ^ 25"
    using assms by (simp_all add: window_ok_def)
  have w: "1 \<le> ?w" "?w \<le> int (nblocks (m f))"
    using win assms(2,3) by (auto simp: zoom_width_def)
  have b: "0 \<le> ?h - ?vf" "?h - ?vf < ?w"
    "\<bar>(?h - ?vf) * ?old - (?h - viewFrom f) * ?w\<bar> \<le> ?old"
    using zoom_from_bounds [of "?h - viewFrom f" ?old ?w] win n w assms(2,3)
    by (simp_all add: zoom_from_eq)
  let ?g = "f\<lparr>viewFrom := ?vf, viewTo := ?vf + ?w\<rparr>"
  have z: "zoom width f = clamp ?g"
    using assms(2-4) by (auto simp: zoom_def Let_def zoom_width_def max_def min_def)
  have "viewTo (clamp ?g) - viewFrom (clamp ?g) = ?w" using w by (subst clamp_width) simp_all
  moreover have "viewFrom (clamp ?g) \<le> ?h \<and> ?h < viewTo (clamp ?g)"
    using b win assms(2,3) by (intro clamp_keeps_inside) auto
  moreover have "0 < viewFrom (clamp ?g) \<and> viewTo (clamp ?g) < int (nblocks (m f)) \<Longrightarrow>
      viewFrom (clamp ?g) = ?vf"
    by (auto simp: clamp_def Let_def split: if_splits)
  ultimately show ?thesis using b(3) unfolding z by auto
qed

definition sample_ui :: ui_frame where
  "sample_ui = \<lparr>m = \<lparr>firstPFN = 0, nblocks = 1000, counts = replicate 1000 mixed_block,
     ranges = []\<rparr>, pagesPerBlock = 512, views = [], hostages = 0, hostageFree = 0,
     viewFrom = 100, viewTo = 500, share = 8, paused = False, byClass = False, pixels = True,
     layout = no_layout, pxKey = \<lparr>kfrom = 0, kto = 0, kwidth = 0, krows = 0, kcellW = 0,
       kcellH = 0, kgen = 0, khoverFrom = 0, khoverTo = 0\<rparr>, gen = 0, mapTop = 0,
     hoverCol = -1, hoverRow = -1, hoverFrom = 200, hoverTo = 201, boxFrom = 0, boxTo = 0,
     rowBlocks = 0, screenBlocks = 0, focusSlab = False, slabSort = 0, slabScroll = 0,
     slabRows = 0, slabTotal = 0\<rparr>"

lemma zoom_anchors_pointer_witness:
  "viewFrom (zoom 100 sample_ui) \<le> 200 \<and> 200 < viewTo (zoom 100 sample_ui)"
  using zoom_anchors_pointer [of sample_ui 100] by (simp add: sample_ui_def window_ok_def)

end
