(* ===== verification/Draw.thy ===== *)
theory Draw
  imports Window
begin

text \<open>
  Drawing, as far as it changes the frame or is drawn in characters: \<^verbatim>\<open>render\<close>,
  \<^verbatim>\<open>slabFullPane\<close> and \<^verbatim>\<open>blockMap\<close> of \<^verbatim>\<open>packages/fragview/render.go\<close>, \<^verbatim>\<open>pixelBlockMap\<close> and
  \<^verbatim>\<open>paintPixels\<close> of \<^verbatim>\<open>pixmap.go\<close>.
\<close>

section \<open>Drawing\<close>

text \<open>
  \<^verbatim>\<open>slabFullPane\<close>: the number of rows and the scroll position. \<open>n\<close> is the number of
  caches, \<open>reserve\<close> the lines kept for the legend.
\<close>

definition slab_window :: "int \<Rightarrow> int \<Rightarrow> int \<Rightarrow> 'a ui_frame_scheme \<Rightarrow> 'a ui_frame_scheme" where
  "slab_window rows n reserve f =
     (let sr = max (rows - 2 - reserve) 1;
          s1 = (if slabScroll f > n - sr then n - sr else slabScroll f);
          s2 = (if s1 < 0 then 0 else s1)
      in f\<lparr>slabTotal := n, slabRows := sr, slabScroll := s2\<rparr>)"

text \<open>The rows \<^verbatim>\<open>render\<close> gives to the map, and the blocks one character cell stands for.\<close>

definition per_cell :: "int \<Rightarrow> int \<Rightarrow> int \<Rightarrow> int" where
  "per_cell width cols rows = max ((width + cols * rows - 1) sdiv (cols * rows)) 1"

definition map_cols :: "int \<Rightarrow> int" where
  "map_cols w = max (w - mapLabel) 16"

definition map_height :: "bool \<Rightarrow> int \<Rightarrow> int \<Rightarrow> int \<Rightarrow> int \<Rightarrow> int" where
  "map_height px width w avail leftLen =
     (let tableRows = min (max (avail sdiv 2) 3) (max leftLen 18);
          mapRows = max (avail - tableRows) 1;
          cols = map_cols w;
          per = per_cell width cols mapRows;
          needed = (width + cols * per - 1) sdiv (cols * per)
      in if needed < mapRows \<and> \<not> px then needed else mapRows)"

text \<open>
  \<^verbatim>\<open>blockMap\<close>: the cells of one row, with the index the next row starts at, and the rows.
\<close>

fun row_cells ::
  "block_view list \<Rightarrow> bool \<Rightarrow> int \<Rightarrow> int \<Rightarrow> nat \<Rightarrow> int \<Rightarrow> (cell_colour \<times> int) option list \<times> int" where
  "row_cells vs own per vt 0 idx = ([], idx)"
| "row_cells vs own per vt (Suc n) idx =
     (if idx \<ge> vt then (let (cs, idx') = row_cells vs own per vt n idx in (None # cs, idx'))
      else (let (cs, idx') = row_cells vs own per vt n (idx + per)
            in (cellFor vs (nat idx) (nat (idx + per)) own # cs, idx')))"

fun map_cells ::
  "block_view list \<Rightarrow> bool \<Rightarrow> int \<Rightarrow> int \<Rightarrow> nat \<Rightarrow> nat \<Rightarrow> int \<Rightarrow> (cell_colour \<times> int) option list list" where
  "map_cells vs own per vt cols 0 idx = []"
| "map_cells vs own per vt cols (Suc r) idx =
     (let (cs, idx') = row_cells vs own per vt cols idx
      in cs # map_cells vs own per vt cols r idx')"

definition blockMap ::
  "int \<Rightarrow> int \<Rightarrow> 'a ui_frame_scheme \<Rightarrow> (cell_colour \<times> int) option list list \<times> 'a ui_frame_scheme" where
  "blockMap w rows f =
     (let cols = map_cols w;
          per = per_cell (viewTo f - viewFrom f) cols rows
      in (map_cells (views f) (byClass f) per (viewTo f) (nat cols) (nat rows) (viewFrom f),
          f\<lparr>rowBlocks := cols * per, screenBlocks := cols * per * rows\<rparr>))"

text \<open>
  \<^verbatim>\<open>paintPixels\<close> and the decision to repaint in \<^verbatim>\<open>pixelBlockMap\<close>. \<open>due\<close> says that the last
  picture is at least \<^verbatim>\<open>minRedraw\<close> old, \<open>cw\<close> and \<open>ch\<close> are \<^verbatim>\<open>cellPixels()\<close>.
\<close>

definition paintPixels :: "int \<Rightarrow> int \<Rightarrow> int \<Rightarrow> int \<Rightarrow> 'a ui_frame_scheme \<Rightarrow> 'a ui_frame_scheme" where
  "paintPixels cols rows cw ch f =
     (let l = pixLayoutFor (viewTo f - viewFrom f) (cols * cw) cw ch rows
      in f\<lparr>rowBlocks := blocksPerRow l, screenBlocks := blocksPerRow l * tileRows l,
           layout := l\<lparr>lviewFrom := viewFrom f\<rparr>\<rparr>)"

definition pixelBlockMap ::
  "bool \<Rightarrow> int \<Rightarrow> int \<Rightarrow> int \<Rightarrow> int \<Rightarrow> 'a ui_frame_scheme \<Rightarrow> 'a ui_frame_scheme" where
  "pixelBlockMap due w rows cw ch f =
     (let cols = map_cols w;
          k = \<lparr>kfrom = viewFrom f, kto = viewTo f, kwidth = cols, krows = rows, kcellW = cw,
               kcellH = ch, kgen = gen f, khoverFrom = boxFrom f, khoverTo = boxTo f\<rparr>
      in if k \<noteq> pxKey f \<and> due then paintPixels cols rows cw ch (f\<lparr>pxKey := k\<rparr>) else f)"

text \<open>
  \<^verbatim>\<open>render\<close>. The lines above the map are eleven: title, composition, verdict and free
  lists with their rules. \<open>leftLen\<close> is the height of the left pane, \<open>n\<close> the number of
  caches the table lists.
\<close>

definition render ::
  "bool \<Rightarrow> bool \<Rightarrow> int \<Rightarrow> int \<Rightarrow> int \<Rightarrow> int \<Rightarrow> int \<Rightarrow> int \<Rightarrow> int \<Rightarrow> 'a ui_frame_scheme \<Rightarrow> 'a ui_frame_scheme" where
  "render abdMovable due cw ch leftLen n reserve rows cols f =
     (let f1 = frame_summarise abdMovable f;
          w = (if cols - 1 < 60 then 60 else cols - 1);
          avail = rows - 11 - 3
      in if focusSlab f1 then slab_window (avail + 2) n reserve f1
         else
           (let f2 = resolveHover f1;
                mapRows = map_height (pixels f2) (viewTo f2 - viewFrom f2) w avail leftLen;
                f3 = f2\<lparr>slabTotal := n, mapTop := 11 + 1\<rparr>
            in if pixels f3 then pixelBlockMap due w mapRows cw ch f3
               else snd (blockMap w mapRows f3)))"

section \<open>The cells cover the window\<close>

lemma length_row_cells: "length (fst (row_cells vs own per vt n idx)) = n"
  by (induction n arbitrary: idx) (simp_all add: Let_def case_prod_beta)

definition cell_at :: "block_view list \<Rightarrow> bool \<Rightarrow> int \<Rightarrow> int \<Rightarrow> int \<Rightarrow> (cell_colour \<times> int) option" where
  "cell_at vs own per vt idx =
     (if idx \<ge> vt then None else cellFor vs (nat idx) (nat (idx + per)) own)"

lemma row_cells_eq:
  assumes "0 < per"
  shows "fst (row_cells vs own per vt n idx) = map (\<lambda>k. cell_at vs own per vt (idx + int k * per)) [0..<n] \<and>
    (snd (row_cells vs own per vt n idx) = idx + int n * per \<or>
     vt \<le> snd (row_cells vs own per vt n idx) \<and> vt \<le> idx + int n * per)"
proof (induction n arbitrary: idx)
  case 0
  show ?case by simp
next
  case (Suc n)
  have up: "[0..<Suc n] = 0 # map Suc [0..<n]"
    by (simp add: map_Suc_upt upt_conv_Cons del: upt_Suc)
  show ?case
  proof (cases "idx \<ge> vt")
    case True
    have none: "cell_at vs own per vt (idx + int k * per) = None" for k
      using True assms by (simp add: cell_at_def add_increasing2)
    have "vt \<le> idx + int k * per" for k using True assms by (simp add: add_increasing2)
    moreover have "vt \<le> snd (row_cells vs own per vt n idx)"
      using Suc.IH [of idx] True assms by (auto simp: add_increasing2)
    ultimately show ?thesis
      using Suc.IH [of idx] True none
      by (simp add: up Let_def case_prod_beta del: upt_Suc of_nat_Suc)
  next
    case False
    then show ?thesis
      using Suc.IH [of "idx + per"]
      by (simp add: up Let_def case_prod_beta comp_def cell_at_def algebra_simps del: upt_Suc)
  qed
qed

lemma cell_at_past:
  "0 < per \<Longrightarrow> vt \<le> idx \<Longrightarrow> cell_at vs own per vt (idx + int k * per) = None"
  by (simp add: cell_at_def add_increasing2)

lemma length_map_cells: "length (map_cells vs own per vt cols r idx) = r"
  by (induction r arbitrary: idx) (simp_all add: Let_def case_prod_beta)

lemma map_cells_eq:
  assumes "0 < per"
  shows "concat (map_cells vs own per vt cols r idx) =
    map (\<lambda>k. cell_at vs own per vt (idx + int k * per)) [0..<r * cols]"
proof (induction r arbitrary: idx)
  case 0
  show ?case by simp
next
  case (Suc r)
  let ?f = "\<lambda>idx k. cell_at vs own per vt (idx + int k * per)"
  let ?i = "snd (row_cells vs own per vt cols idx)"
  note row = row_cells_eq [OF assms, of vs own vt cols idx]
  have "map (?f ?i) [0..<r * cols] = map (?f (idx + int cols * per)) [0..<r * cols]"
    using row cell_at_past [OF assms] by auto
  moreover have "[0..<Suc r * cols] = [0..<cols] @ map (\<lambda>k. k + cols) [0..<r * cols]"
    by (simp add: map_add_upt upt_add_eq_append [of 0, simplified] add.commute)
  ultimately show ?case
    using row Suc.IH [of ?i]
    by (simp add: Let_def case_prod_beta comp_def algebra_simps)
qed

lemma per_cell_covers:
  assumes "0 < cols" and "0 < rows" and "0 \<le> width"
  shows "0 < per_cell width cols rows \<and> width \<le> cols * rows * per_cell width cols rows"
proof -
  have cr: "0 < cols * rows" using assms by simp
  have "width \<le> (width + cols * rows - 1) div (cols * rows) * (cols * rows)"
    by (rule ceil_div_ge [OF cr])
  also have "\<dots> \<le> per_cell width cols rows * (cols * rows)"
    using cr assms(3) by (intro mult_right_mono) (auto simp: per_cell_def sdiv_nonneg)
  finally show ?thesis by (auto simp: per_cell_def mult_ac)
qed

lemma nth_in_run:
  assumes "i \<le> b" and "b < j" and "b < length xs"
  shows "xs ! b \<in> set (take (j - i) (drop i xs))"
proof -
  have "take (j - i) (drop i xs) ! (b - i) = xs ! b" using assms by simp
  moreover have "b - i < length (take (j - i) (drop i xs))"
    using diff_less_mono [OF assms(2,1)] diff_less_mono [OF assms(3,1)] by simp
  ultimately show ?thesis by (metis nth_mem)
qed

lemma map_cols_pos: "16 \<le> map_cols w"
  by (simp add: map_cols_def)

lemma map_height_pos:
  assumes "0 < width"
  shows "1 \<le> map_height px width w avail leftLen"
proof -
  have "0 < (width + q - 1) sdiv q" if "0 < q" for q
    using that assms by (simp add: sdiv_nonneg pos_imp_zdiv_pos_iff)
  moreover have "0 < map_cols w * per_cell width (map_cols w) rows" for rows
    using map_cols_pos [of w] by (auto simp: per_cell_def intro!: mult_pos_pos)
  ultimately show ?thesis
    by (simp add: map_height_def Let_def max_def int_one_le_iff_zero_less)
qed

text \<open>
  The character map hides no hostage: wherever in the window a hostage block is, the
  drawn map, of exactly the rows and columns it was given, has a cell in the hostage colour.
\<close>

theorem blockMap_shows_hostage:
  assumes "views f = map (summarise mv) (counts (m f))" and "map_ok (m f)" and "window_ok f"
    and "0 < rows" and "viewFrom f \<le> b" and "b < viewTo f"
    and "hostage (summarise mv (counts (m f) ! nat b))"
  shows "length (fst (blockMap w rows f)) = nat rows \<and>
    (\<exists>row \<in> set (fst (blockMap w rows f)). Some (cHostage, 1) \<in> set row)"
proof -
  let ?cols = "map_cols w" and ?width = "viewTo f - viewFrom f"
  define per where "per = per_cell ?width ?cols rows"
  have cols: "0 < ?cols" using map_cols_pos [of w] by simp
  have per: "0 < per" "?width \<le> ?cols * rows * per"
    using per_cell_covers [OF cols assms(4), of ?width] assms(5,6) by (simp_all add: per_def)
  define k where "k = (b - viewFrom f) div per"
  have k0: "0 \<le> k" using assms(5) per by (simp add: k_def pos_imp_zdiv_nonneg_iff)
  have lo: "k * per \<le> b - viewFrom f"
    using per unfolding k_def by (simp add: minus_mod_eq_div_mult [symmetric])
  have hi: "b - viewFrom f < k * per + per"
  proof -
    have "(b - viewFrom f) mod per < per" using per by simp
    moreover have "k * per + (b - viewFrom f) mod per = b - viewFrom f"
      unfolding k_def by (rule div_mult_mod_eq)
    ultimately show ?thesis by linarith
  qed
  have "k < ?cols * rows"
  proof (rule ccontr)
    assume "\<not> k < ?cols * rows"
    then have "?cols * rows * per \<le> k * per" using per by (intro mult_right_mono) auto
    then show False using lo per assms(6) by linarith
  qed
  then have kn: "nat k < nat rows * nat ?cols"
    using k0 assms(4) cols by (simp add: nat_less_iff mult.commute flip: nat_mult_distrib)
  let ?idx = "viewFrom f + k * per"
  have idx: "0 \<le> ?idx" using assms(3) k0 per by (simp add: window_ok_def)
  have n: "nat b < length (counts (m f))"
    using assms(2,3,5,6) by (auto simp: map_ok_def window_ok_def)
  have "nat b < nat (?idx + per)" "nat ?idx \<le> nat b" using lo hi idx by auto
  with n have "counts (m f) ! nat b \<in>
      set (take (nat (?idx + per) - nat ?idx) (drop (nat ?idx) (counts (m f))))"
    by (intro nth_in_run)
  then have "cellFor (views f) (nat ?idx) (nat (?idx + per)) (byClass f) = Some (cHostage, 1)"
    unfolding assms(1) using assms(7) by (rule cellFor_hostage)
  then have "cell_at (views f) (byClass f) per (viewTo f) (viewFrom f + int (nat k) * per) =
      Some (cHostage, 1)"
    using lo assms(6) k0 by (simp add: cell_at_def)
  then have "Some (cHostage, 1) \<in> set (concat (fst (blockMap w rows f)))"
    using kn by (force simp: blockMap_def Let_def map_cells_eq [OF per(1)] per_def [symmetric]
        simp del: set_concat)
  then show ?thesis by (auto simp: blockMap_def Let_def length_map_cells)
qed

lemma summarise_sample_ui:
  "views (frame_summarise False sample_ui) = map (summarise False) (counts (m (frame_summarise False sample_ui)))"
  "map_ok (m (frame_summarise False sample_ui))" "window_ok (frame_summarise False sample_ui)"
  by (simp_all add: frame_summarise_eq map_ok_def sample_ui_def window_ok_def)

lemma blockMap_shows_hostage_witness:
  "\<exists>row \<in> set (fst (blockMap 100 20 (frame_summarise False sample_ui))). Some (cHostage, 1) \<in> set row"
proof -
  have "hostage (summarise False (counts (m (frame_summarise False sample_ui)) ! nat 200))"
    by (simp add: frame_summarise_eq map_ok_def sample_ui_def hostage_mixed_block)
  then show ?thesis
    using blockMap_shows_hostage [OF summarise_sample_ui, of 20 200]
    by (simp add: frame_summarise_eq map_ok_def sample_ui_def)
qed

end
