(* ===== verification/Pixels.thy ===== *)
theory Pixels
  imports Bands Draw
begin

text \<open>
  Painting the map as pixels, \<^verbatim>\<open>packages/fragview/pixmap.go\<close>: the canvas (\<^verbatim>\<open>set\<close>), the stack of
  bands of a tile (\<^verbatim>\<open>stack\<close>), boxes (\<^verbatim>\<open>box\<close>, \<^verbatim>\<open>markHover\<close>) and the two ways to paint the
  window (\<^verbatim>\<open>paintBlocks\<close>, \<^verbatim>\<open>paintAggregated\<close>). A pixel holds what it stands for rather than
  its colour; the palette is a table.
\<close>

section \<open>Canvas\<close>

datatype paint = Owner pclass | HostageBox | HostageShade rat | HoverBox

record canvas =
  wid :: int
  hgt :: int
  pix :: "int \<Rightarrow> int \<Rightarrow> paint option"

definition blank :: "int \<Rightarrow> int \<Rightarrow> canvas" where
  "blank w h = \<lparr>wid = w, hgt = h, pix = \<lambda>_ _. None\<rparr>"

definition set_px :: "paint \<Rightarrow> int \<Rightarrow> int \<Rightarrow> canvas \<Rightarrow> canvas" where
  "set_px c x y img =
     (if 0 \<le> x \<and> x < wid img \<and> 0 \<le> y \<and> y < hgt img
      then img\<lparr>pix := (pix img)(x := (pix img x)(y := Some c))\<rparr> else img)"

definition fill_row :: "paint \<Rightarrow> int \<Rightarrow> int \<Rightarrow> int \<Rightarrow> canvas \<Rightarrow> canvas" where
  "fill_row c x0 x1 y img = foldl (\<lambda>img x. set_px c x y img) img [x0..x1]"

section \<open>Stacks and boxes\<close>

text \<open>The loop over one band: at most \<open>n\<close> rows, never above the top.\<close>

fun paint_band :: "pclass \<Rightarrow> int \<Rightarrow> int \<Rightarrow> int \<Rightarrow> nat \<Rightarrow> canvas \<times> int \<Rightarrow> canvas \<times> int" where
  "paint_band c x0 x1 tp 0 (img, y) = (img, y)"
| "paint_band c x0 x1 tp (Suc n) (img, y) =
     (if y < tp then (img, y)
      else paint_band c x0 x1 tp n (fill_row (Owner c) x0 x1 y img, y - 1))"

definition paint_bands ::
  "heights \<Rightarrow> int \<Rightarrow> int \<Rightarrow> int \<Rightarrow> pclass list \<Rightarrow> canvas \<times> int \<Rightarrow> canvas \<times> int" where
  "paint_bands out x0 x1 tp cs s = foldl (\<lambda>s c. paint_band c x0 x1 tp (nat (out c)) s) s cs"

definition stack ::
  "(pclass \<Rightarrow> nat) \<Rightarrow> nat \<Rightarrow> int \<Rightarrow> int \<Rightarrow> int \<Rightarrow> int \<Rightarrow> canvas \<Rightarrow> canvas option" where
  "stack pg known x0 x1 tp bottom img =
     (let h = bottom - tp + 1
      in if h < 1 \<or> x1 < x0 then Some img
         else
           (let minBand = (if h \<ge> 10 then 2 else 1)
            in case bandHeights pg known h minBand of
                 None \<Rightarrow> None
               | Some out \<Rightarrow> Some (fst (paint_bands out x0 x1 tp stackOrder (img, bottom)))))"

definition box :: "int \<Rightarrow> int \<Rightarrow> int \<Rightarrow> int \<Rightarrow> paint \<Rightarrow> canvas \<Rightarrow> canvas" where
  "box x0 x1 tp bottom c img =
     (let img1 = foldl (\<lambda>img x. set_px c x bottom (set_px c x tp img)) img [x0..x1]
      in foldl (\<lambda>img y. set_px c x1 y (set_px c x0 y img)) img1 [tp..bottom])"

section \<open>Pixel by pixel\<close>

lemma set_px_dims [simp]: "wid (set_px c x y img) = wid img" "hgt (set_px c x y img) = hgt img"
  by (simp_all add: set_px_def)

lemma foldl_dims:
  "(\<And>img x. wid (g img x) = wid img \<and> hgt (g img x) = hgt img) \<Longrightarrow>
   wid (foldl g img xs) = wid img \<and> hgt (foldl g img xs) = hgt img"
  by (induction xs arbitrary: img) auto

definition on_canvas :: "canvas \<Rightarrow> int \<Rightarrow> int \<Rightarrow> bool" where
  "on_canvas img x y \<longleftrightarrow> 0 \<le> x \<and> x < wid img \<and> 0 \<le> y \<and> y < hgt img"

lemma pix_set_px:
  "on_canvas img x' y' \<Longrightarrow>
   pix (set_px c x y img) x' y' = (if x' = x \<and> y' = y then Some c else pix img x' y')"
  by (auto simp: set_px_def on_canvas_def)

lemma on_canvas_set_px [simp]: "on_canvas (set_px c x y img) = on_canvas img"
  by (simp add: on_canvas_def fun_eq_iff)

lemma fill_row_dims [simp]: "wid (fill_row c x0 x1 y img) = wid img" "hgt (fill_row c x0 x1 y img) = hgt img"
  unfolding fill_row_def by (simp_all add: foldl_dims)

lemma foldl_row:
  "on_canvas img x' y' \<Longrightarrow>
   pix (foldl (\<lambda>img x. set_px c x y img) img xs) x' y' =
     (if x' \<in> set xs \<and> y' = y then Some c else pix img x' y')"
  by (induction xs arbitrary: img) (auto simp: pix_set_px)

lemma pix_fill_row:
  "on_canvas img x' y' \<Longrightarrow>
   pix (fill_row c x0 x1 y img) x' y' =
     (if x0 \<le> x' \<and> x' \<le> x1 \<and> y' = y then Some c else pix img x' y')"
  unfolding fill_row_def by (auto simp: foldl_row)

lemma paint_band_dims:
  "wid (fst (paint_band c x0 x1 tp n s)) = wid (fst s) \<and>
   hgt (fst (paint_band c x0 x1 tp n s)) = hgt (fst s)"
  by (induction c x0 x1 tp n s rule: paint_band.induct) auto

lemma paint_bands_dims:
  "wid (fst (paint_bands out x0 x1 tp cs s)) = wid (fst s) \<and>
   hgt (fst (paint_bands out x0 x1 tp cs s)) = hgt (fst s)"
  unfolding paint_bands_def by (induction cs arbitrary: s) (simp_all add: paint_band_dims)

lemma paint_band_props:
  "on_canvas (fst s) x' y' \<Longrightarrow> int n \<le> snd s - tp + 1 \<Longrightarrow>
   snd (paint_band c x0 x1 tp n s) = snd s - int n \<and>
   pix (fst (paint_band c x0 x1 tp n s)) x' y' =
     (if x0 \<le> x' \<and> x' \<le> x1 \<and> snd s - int n < y' \<and> y' \<le> snd s then Some (Owner c)
      else pix (fst s) x' y')"
proof (induction c x0 x1 tp n s rule: paint_band.induct)
  case (1 c x0 x1 tp img y)
  then show ?case by auto
next
  case (2 c x0 x1 tp n img y)
  have "on_canvas (fill_row (Owner c) x0 x1 y img) x' y'"
    using 2 by (simp add: on_canvas_def)
  then show ?case using 2 by (auto simp: pix_fill_row)
qed

text \<open>The rows of a stack from the bottom up.\<close>

definition band_rows :: "heights \<Rightarrow> pclass list \<Rightarrow> pclass list" where
  "band_rows out cs = concat (map (\<lambda>c. replicate (nat (out c)) c) cs)"

lemma length_band_rows:
  "\<forall>c \<in> set cs. 0 \<le> out c \<Longrightarrow> int (length (band_rows out cs)) = (\<Sum>c\<leftarrow>cs. out c)"
  by (induction cs) (simp_all add: band_rows_def)

lemma paint_bands_props:
  assumes "on_canvas (fst s) x' y'" and "int (length (band_rows out cs)) \<le> snd s - tp + 1"
  shows "wid (fst (paint_bands out x0 x1 tp cs s)) = wid (fst s) \<and>
    hgt (fst (paint_bands out x0 x1 tp cs s)) = hgt (fst s) \<and>
    pix (fst (paint_bands out x0 x1 tp cs s)) x' y' =
     (if x0 \<le> x' \<and> x' \<le> x1 \<and> y' \<le> snd s \<and> snd s - y' < int (length (band_rows out cs))
      then Some (Owner (band_rows out cs ! nat (snd s - y'))) else pix (fst s) x' y')"
  using assms
proof (induction cs arbitrary: s)
  case Nil
  then show ?case by (auto simp: paint_bands_def band_rows_def)
next
  case (Cons c cs)
  let ?n = "nat (out c)"
  let ?s = "paint_band c x0 x1 tp ?n s"
  have rows: "band_rows out (c # cs) = replicate ?n c @ band_rows out cs" by (simp add: band_rows_def)
  note dims = paint_band_dims [of c x0 x1 tp ?n s]
  have c: "snd ?s = snd s - int ?n"
    "pix (fst ?s) x' y' = (if x0 \<le> x' \<and> x' \<le> x1 \<and> snd s - int ?n < y' \<and> y' \<le> snd s
       then Some (Owner c) else pix (fst s) x' y')"
    using paint_band_props [of s x' y' ?n tp c x0 x1] Cons.prems by (auto simp: rows)
  have "on_canvas (fst ?s) x' y'" using Cons.prems(1) dims by (simp add: on_canvas_def)
  moreover have "int (length (band_rows out cs)) \<le> snd ?s - tp + 1"
    using Cons.prems(2) c(1) by (simp add: rows)
  ultimately have IH: "wid (fst (paint_bands out x0 x1 tp cs ?s)) = wid (fst ?s) \<and>
    hgt (fst (paint_bands out x0 x1 tp cs ?s)) = hgt (fst ?s) \<and>
    pix (fst (paint_bands out x0 x1 tp cs ?s)) x' y' =
     (if x0 \<le> x' \<and> x' \<le> x1 \<and> y' \<le> snd ?s \<and> snd ?s - y' < int (length (band_rows out cs))
      then Some (Owner (band_rows out cs ! nat (snd ?s - y'))) else pix (fst ?s) x' y')"
    by (rule Cons.IH)
  have step: "paint_bands out x0 x1 tp (c # cs) s = paint_bands out x0 x1 tp cs ?s"
    by (simp add: paint_bands_def)
  have nth: "(replicate ?n c @ band_rows out cs) ! nat (snd s - y') =
      (if snd s - y' < int ?n then c else band_rows out cs ! nat (snd s - int ?n - y'))"
    if "y' \<le> snd s"
  proof -
    have "nat (snd s - y') - ?n = nat (snd s - int ?n - y')"
      "nat (snd s - y') < ?n \<longleftrightarrow> snd s - y' < int ?n" using that by linarith+
    then show ?thesis by (simp add: nth_append)
  qed
  show ?case unfolding step using IH dims c rows nth by auto
qed

text \<open>A stack in a rectangle of the canvas, and a box.\<close>

definition tile_bands :: "(pclass \<Rightarrow> nat) \<Rightarrow> nat \<Rightarrow> int \<Rightarrow> heights" where
  "tile_bands pg known h = the (bandHeights pg known h (if h \<ge> 10 then 2 else 1))"

lemma stack_props:
  assumes "c0 \<noteq> clNone" and "pg c0 \<noteq> 0"
  shows "\<exists>img'. stack pg known x0 x1 tp bottom img = Some img' \<and>
    wid img' = wid img \<and> hgt img' = hgt img \<and>
    (\<forall>x y. on_canvas img x y \<longrightarrow> pix img' x y =
      (if x0 \<le> x \<and> x \<le> x1 \<and> tp \<le> y \<and> y \<le> bottom
       then Some (Owner (band_rows (tile_bands pg known (bottom - tp + 1)) stackOrder !
              nat (bottom - y)))
       else pix img x y))"
proof (cases "bottom - tp + 1 < 1 \<or> x1 < x0")
  case True
  then show ?thesis by (auto simp: stack_def)
next
  case False
  let ?h = "bottom - tp + 1"
  define mb :: int where "mb = (if ?h \<ge> 10 then 2 else 1)"
  obtain out where out: "bandHeights pg known ?h mb = Some out" "stack_sum out = ?h" "bands_ok pg out"
  proof -
    have "0 \<le> mb" by (simp add: mb_def)
    then show ?thesis
      using bandHeights_props [of ?h mb c0 pg known] False assms that by auto
  qed
  have len: "int (length (band_rows out stackOrder)) = ?h"
    using length_band_rows [of stackOrder out] out(2,3) by (simp add: stack_sum_def bands_ok_def)
  let ?img = "fst (paint_bands out x0 x1 tp stackOrder (img, bottom))"
  have "stack pg known x0 x1 tp bottom img = Some ?img"
    using False out(1) by (simp add: stack_def Let_def mb_def)
  moreover have "wid ?img = wid img" "hgt ?img = hgt img" by (simp_all add: paint_bands_dims)
  moreover have "tile_bands pg known ?h = out" using out(1) by (simp add: tile_bands_def mb_def)
  moreover have "pix ?img x y =
      (if x0 \<le> x \<and> x \<le> x1 \<and> tp \<le> y \<and> y \<le> bottom
       then Some (Owner (band_rows out stackOrder ! nat (bottom - y))) else pix img x y)"
    if "on_canvas img x y" for x y
    using paint_bands_props [of "(img, bottom)" x y out stackOrder tp x0 x1] that len by auto
  ultimately show ?thesis by auto
qed

lemma foldl_box_row:
  "on_canvas img x' y' \<Longrightarrow>
   pix (foldl (\<lambda>img x. set_px c x b (set_px c x a img)) img xs) x' y' =
     (if x' \<in> set xs \<and> (y' = a \<or> y' = b) then Some c else pix img x' y')"
  by (induction xs arbitrary: img) (auto simp: pix_set_px)

lemma foldl_box_col:
  "on_canvas img x' y' \<Longrightarrow>
   pix (foldl (\<lambda>img y. set_px c b y (set_px c a y img)) img ys) x' y' =
     (if y' \<in> set ys \<and> (x' = a \<or> x' = b) then Some c else pix img x' y')"
  by (induction ys arbitrary: img) (auto simp: pix_set_px)

lemma box_dims [simp]: "wid (box x0 x1 tp bottom c img) = wid img"
  "hgt (box x0 x1 tp bottom c img) = hgt img"
  by (simp_all add: box_def foldl_dims)

definition on_border :: "int \<Rightarrow> int \<Rightarrow> int \<Rightarrow> int \<Rightarrow> int \<Rightarrow> int \<Rightarrow> bool" where
  "on_border x0 x1 tp bottom x y \<longleftrightarrow> x0 \<le> x \<and> x \<le> x1 \<and> (y = tp \<or> y = bottom) \<or>
     tp \<le> y \<and> y \<le> bottom \<and> (x = x0 \<or> x = x1)"

lemma pix_box:
  assumes "on_canvas img x y"
  shows "pix (box x0 x1 tp bottom c img) x y =
    (if on_border x0 x1 tp bottom x y then Some c else pix img x y)"
proof -
  let ?img = "foldl (\<lambda>img x. set_px c x bottom (set_px c x tp img)) img [x0..x1]"
  have "wid ?img = wid img \<and> hgt ?img = hgt img" by (rule foldl_dims) simp
  then have "on_canvas ?img x y" using assms by (simp add: on_canvas_def)
  then show ?thesis
    using assms by (auto simp: box_def foldl_box_col foldl_box_row on_border_def)
qed

section \<open>Painting block by block\<close>

definition block_sums :: "counts \<Rightarrow> pclass \<Rightarrow> nat" where
  "block_sums cs c = (if c = clNone then 0 else unat (cs c))"

text \<open>
  The body of the two loops of \<^verbatim>\<open>paintBlocks\<close> over its tiles: the \<^verbatim>\<open>return\<close> at the end of the
  window, the \<^verbatim>\<open>continue\<close> over holes.
\<close>

fun paint_tiles ::
  "'a ui_frame_scheme \<Rightarrow> pix_layout \<Rightarrow> (int \<times> int) list \<Rightarrow> canvas \<Rightarrow> canvas option" where
  "paint_tiles fr l [] img = Some img"
| "paint_tiles fr l ((t, j) # tiles) img =
     (let blk = viewFrom fr + t * blocksPerRow l + j
      in if blk \<ge> viewTo fr \<or> blk \<ge> int (length (counts (m fr))) then Some img
         else
           (let cs = counts (m fr) ! nat blk
            in if known_pages cs = 0 then paint_tiles fr l tiles img
               else
                 (let (tp, bottom) = rowSpanY l t; (x0, x1) = blockSpan l j
                  in case stack (block_sums cs) (known_pages cs) (x0 + inset l) (x1 - inset l)
                            (tp + inset l) (bottom - inset l) img of
                       None \<Rightarrow> None
                     | Some img1 \<Rightarrow>
                         paint_tiles fr l tiles
                           (if blk < int (length (views fr)) \<and> hostage (views fr ! nat blk)
                            then box x0 x1 tp bottom HostageBox img1 else img1))))"

definition paintBlocks :: "'a ui_frame_scheme \<Rightarrow> pix_layout \<Rightarrow> canvas \<Rightarrow> canvas option" where
  "paintBlocks fr l img =
     paint_tiles fr l (List.product [0..tileRows l - 1] [0..blocksPerRow l - 1]) img"

definition markHover :: "int \<Rightarrow> int \<Rightarrow> pix_layout \<Rightarrow> canvas \<Rightarrow> canvas" where
  "markHover from to l img =
     (case hover_box l from to of None \<Rightarrow> img
      | Some (x0, x1, tp, bottom) \<Rightarrow> box x0 x1 tp bottom HoverBox img)"

text \<open>What a pixel of a tile is to show.\<close>

definition tile_pixel ::
  "'a ui_frame_scheme \<Rightarrow> pix_layout \<Rightarrow> int \<Rightarrow> int \<Rightarrow> int \<Rightarrow> int \<Rightarrow> paint option \<Rightarrow> paint option" where
  "tile_pixel fr l t j x y old =
     (let blk = viewFrom fr + t * blocksPerRow l + j; cs = counts (m fr) ! nat blk;
          (tp, bottom) = rowSpanY l t; (x0, x1) = blockSpan l j; i = inset l
      in if known_pages cs = 0 then old
         else if blk < int (length (views fr)) \<and> hostage (views fr ! nat blk) \<and>
           on_border x0 x1 tp bottom x y then Some HostageBox
         else if x0 + i \<le> x \<and> x \<le> x1 - i \<and> tp + i \<le> y \<and> y \<le> bottom - i
         then Some (Owner (band_rows (tile_bands (block_sums cs) (known_pages cs)
                (bottom - i - (tp + i) + 1)) stackOrder ! nat (bottom - i - y)))
         else old)"

definition in_tile :: "pix_layout \<Rightarrow> int \<Rightarrow> int \<Rightarrow> int \<Rightarrow> int \<Rightarrow> bool" where
  "in_tile l t j x y \<longleftrightarrow> fst (blockSpan l j) \<le> x \<and> x \<le> snd (blockSpan l j) \<and>
     fst (rowSpanY l t) \<le> y \<and> y \<le> snd (rowSpanY l t)"

lemma block_sums_pos: "known_pages cs \<noteq> 0 \<Longrightarrow> \<exists>c. c \<noteq> clNone \<and> block_sums cs c \<noteq> 0"
proof (rule ccontr)
  assume "known_pages cs \<noteq> 0" and "\<not> ?thesis"
  then have "\<forall>c. c \<noteq> clNone \<longrightarrow> unat (cs c) = 0" by (auto simp: block_sums_def)
  then have "known_pages cs = 0" by (simp add: known_pages_def ram_classes_eq)
  with \<open>known_pages cs \<noteq> 0\<close> show False by simp
qed

definition tile_block :: "'a ui_frame_scheme \<Rightarrow> pix_layout \<Rightarrow> int \<times> int \<Rightarrow> int" where
  "tile_block fr l p = viewFrom fr + fst p * blocksPerRow l + snd p"

lemma paint_tile_pixel:
  assumes "on_canvas img x y" and "known_pages cs \<noteq> 0"
    and "stack (block_sums cs) (known_pages cs) x0' x1' tp' bottom' img = Some img1"
  shows "on_canvas img1 = on_canvas img \<and> wid img1 = wid img \<and> hgt img1 = hgt img \<and>
    pix img1 x y = (if x0' \<le> x \<and> x \<le> x1' \<and> tp' \<le> y \<and> y \<le> bottom'
      then Some (Owner (band_rows (tile_bands (block_sums cs) (known_pages cs) (bottom' - tp' + 1))
             stackOrder ! nat (bottom' - y)))
      else pix img x y)"
proof -
  obtain c0 where "c0 \<noteq> clNone" "block_sums cs c0 \<noteq> 0" using block_sums_pos [OF assms(2)] by blast
  then show ?thesis
    using stack_props [of c0 "block_sums cs" "known_pages cs" x0' x1' tp' bottom' img] assms(1,3)
    by (auto simp: on_canvas_def fun_eq_iff)
qed

lemma stack_some:
  assumes "known_pages cs \<noteq> 0"
  shows "\<exists>img1. stack (block_sums cs) (known_pages cs) x0 x1 tp bottom img = Some img1"
proof -
  obtain c0 where "c0 \<noteq> clNone" "block_sums cs c0 \<noteq> 0" using block_sums_pos [OF assms] by blast
  then show ?thesis using stack_props [of c0 "block_sums cs"] by blast
qed

text \<open>
  The tile of one block, and where it ends: a pixel outside it stays, a pixel inside shows
  what it is to show.
\<close>

lemma paint_tiles_pixel:
  assumes "0 \<le> inset l" and "on_canvas img x y"
    and "sorted_wrt (\<lambda>p q. tile_block fr l p < tile_block fr l q) tiles"
    and "\<And>p. p \<in> set tiles \<Longrightarrow> p \<noteq> (t0, j0) \<Longrightarrow> \<not> in_tile l (fst p) (snd p) x y"
    and "in_tile l t0 j0 x y"
    and "\<And>p. p \<in> set tiles \<Longrightarrow> fst (rowSpanY l (fst p)) \<le> snd (rowSpanY l (fst p)) \<and>
      fst (blockSpan l (snd p)) \<le> snd (blockSpan l (snd p))"
  shows "\<exists>img'. paint_tiles fr l tiles img = Some img' \<and> pix img' x y =
    (if (t0, j0) \<in> set tiles \<and> tile_block fr l (t0, j0) < viewTo fr \<and>
       tile_block fr l (t0, j0) < int (length (counts (m fr)))
     then tile_pixel fr l t0 j0 x y (pix img x y) else pix img x y)"
  using assms(2-4,6)
proof (induction tiles arbitrary: img)
  case Nil
  then show ?case by simp
next
  case (Cons p tiles)
  obtain t j where p: "p = (t, j)" by (cases p)
  let ?blk = "viewFrom fr + t * blocksPerRow l + j"
  let ?cs = "counts (m fr) ! nat ?blk"
  have blk: "tile_block fr l (t, j) = ?blk" by (simp add: tile_block_def)
  have later: "?blk < tile_block fr l q" if "q \<in> set tiles" for q
    using Cons.prems(2) that by (simp add: p blk)
  have rest: "\<And>q. q \<in> set tiles \<Longrightarrow> q \<noteq> (t0, j0) \<Longrightarrow> \<not> in_tile l (fst q) (snd q) x y"
    "sorted_wrt (\<lambda>p q. tile_block fr l p < tile_block fr l q) tiles"
    "\<And>q. q \<in> set tiles \<Longrightarrow> fst (rowSpanY l (fst q)) \<le> snd (rowSpanY l (fst q)) \<and>
      fst (blockSpan l (snd q)) \<le> snd (blockSpan l (snd q))"
    using Cons.prems by auto
  have once: "(t0, j0) \<notin> set tiles" if "(t, j) = (t0, j0)" using later [of "(t, j)"] that blk by auto
  show ?case
  proof (cases "?blk \<ge> viewTo fr \<or> ?blk \<ge> int (length (counts (m fr)))")
    case True
    have "\<not> (tile_block fr l (t0, j0) < viewTo fr \<and>
        tile_block fr l (t0, j0) < int (length (counts (m fr))))"
      if "(t0, j0) \<in> set (p # tiles)"
      using that True later [of "(t0, j0)"] by (auto simp: p blk)
    then show ?thesis using True by (auto simp: p Let_def)
  next
    case in_range: False
    show ?thesis
    proof (cases "known_pages ?cs = 0")
      case True
      have "paint_tiles fr l (p # tiles) img = paint_tiles fr l tiles img"
        using True in_range by (simp add: p)
      moreover have "tile_pixel fr l t j x y old = old" for old
        using True by (simp add: tile_pixel_def Let_def case_prod_beta)
      ultimately show ?thesis
        using Cons.IH [OF Cons.prems(1) rest(2,1,3)] once
        by (cases "(t, j) = (t0, j0)") (auto simp: p)
    next
      case False
      let ?tp = "fst (rowSpanY l t)" and ?bt = "snd (rowSpanY l t)"
      let ?x0 = "fst (blockSpan l j)" and ?x1 = "snd (blockSpan l j)"
      let ?i = "inset l"
      obtain img1 where st: "stack (block_sums ?cs) (known_pages ?cs) (?x0 + ?i) (?x1 - ?i) (?tp + ?i)
          (?bt - ?i) img = Some img1"
        using stack_some [OF False] by blast
      note px = paint_tile_pixel [OF Cons.prems(1) False st]
      let ?held = "?blk < int (length (views fr)) \<and> hostage (views fr ! nat ?blk)"
      let ?img2 = "if ?held then box ?x0 ?x1 ?tp ?bt HostageBox img1 else img1"
      have on: "on_canvas ?img2 x y" using px Cons.prems(1) by (simp add: on_canvas_def)
      have step: "paint_tiles fr l (p # tiles) img = paint_tiles fr l tiles ?img2"
        using in_range False st by (simp add: p case_prod_beta Let_def)
      have on1: "on_canvas img1 x y" using px Cons.prems(1) by simp
      have ne: "?tp \<le> ?bt" "?x0 \<le> ?x1" using Cons.prems(4) [of p] by (auto simp: p)
      have border: "on_border ?x0 ?x1 ?tp ?bt x y \<Longrightarrow> in_tile l t j x y"
        using ne by (auto simp: on_border_def in_tile_def)
      have inner: "?x0 + ?i \<le> x \<and> x \<le> ?x1 - ?i \<and> ?tp + ?i \<le> y \<and> y \<le> ?bt - ?i \<Longrightarrow>
          in_tile l t j x y"
        using assms(1) by (auto simp: in_tile_def)
      have px2: "pix ?img2 x y = (if in_tile l t j x y then tile_pixel fr l t j x y (pix img x y)
          else pix img x y)"
      proof (cases "in_tile l t j x y")
        case True
        then show ?thesis
          using px pix_box [OF on1, of ?x0 ?x1 ?tp ?bt HostageBox] False
          by (simp add: tile_pixel_def Let_def case_prod_beta)
      next
        case outside: False
        then have "pix img1 x y = pix img x y" using px inner by auto
        then show ?thesis
          using outside border pix_box [OF on1, of ?x0 ?x1 ?tp ?bt HostageBox] by auto
      qed
      show ?thesis
      proof (cases "(t, j) = (t0, j0)")
        case True
        then show ?thesis
          using Cons.IH [OF on rest(2,1,3)] once px2 in_range assms(5) unfolding step
          by (auto simp: p tile_block_def)
      next
        case other: False
        then have "\<not> in_tile l t j x y" using Cons.prems(3) [of p] by (auto simp: p)
        then show ?thesis
          using Cons.IH [OF on rest(2,1,3)] px2 other unfolding step by (auto simp: p)
      qed
    qed
  qed
qed

section \<open>The tiles do not overlap\<close>

lemma grow_rows_inset: "inset (grow_rows width rs l) = inset l"
  by (induction width rs l rule: grow_rows.induct) (subst grow_rows.simps, simp add: Let_def)

lemma pixLayoutFor_inset: "0 \<le> inset (pixLayoutFor width w cw ch rows)"
  by (simp add: pixLayoutFor_def Let_def set_inset_def grow_rows_inset no_layout_def)

lemma rowSpanY_tile:
  assumes "layout_ok l"
  shows "fst (rowSpanY l t) \<le> y \<and> y \<le> snd (rowSpanY l t) \<longleftrightarrow> t = y div (rowSpan l * cellH l)"
    and "fst (rowSpanY l t) \<le> snd (rowSpanY l t)"
proof -
  let ?h = "rowSpan l * cellH l"
  have h: "0 < ?h" using layout_okD [OF assms] by simp
  have e: "fst (rowSpanY l t) = t * ?h" "snd (rowSpanY l t) = t * ?h + ?h - 1"
    by (simp_all add: rowSpanY_def algebra_simps)
  have "t * ?h \<le> y \<and> y \<le> t * ?h + ?h - 1 \<longleftrightarrow> t = y div ?h"
  proof
    assume "t * ?h \<le> y \<and> y \<le> t * ?h + ?h - 1"
    then show "t = y div ?h"
      using h by (intro int_div_pos_eq [where r = "y - t * ?h", symmetric]) (auto simp: mult.commute)
  next
    assume t: "t = y div ?h"
    show "t * ?h \<le> y \<and> y \<le> t * ?h + ?h - 1"
      unfolding t using pos_mod_sign [OF h, of y] pos_mod_bound [OF h, of y]
        div_mult_mod_eq [of y ?h] by linarith
  qed
  then show "fst (rowSpanY l t) \<le> y \<and> y \<le> snd (rowSpanY l t) \<longleftrightarrow> t = y div ?h"
    unfolding e .
  show "fst (rowSpanY l t) \<le> snd (rowSpanY l t)" unfolding e using h by simp
qed

lemma blockSpan_tile:
  assumes "layout_ok l" and "0 < blockPx l" and "0 \<le> i" and "0 \<le> j"
  shows "fst (blockSpan l j) \<le> snd (blockSpan l j)"
    and "fst (blockSpan l i) \<le> x \<and> x \<le> snd (blockSpan l i) \<Longrightarrow>
      fst (blockSpan l j) \<le> x \<and> x \<le> snd (blockSpan l j) \<Longrightarrow> i = j"
proof -
  have b: "0 < blocksPerRow l" "0 \<le> pxW l" using layout_okD [OF assms(1)] by auto
  show "fst (blockSpan l j) \<le> snd (blockSpan l j)"
    using block_width(1) [OF assms(1), of j] assms(2,4) by (simp add: block_edges [OF assms(1)])
  have "x \<le> snd (blockSpan l i') \<Longrightarrow> fst (blockSpan l j') \<le> x \<Longrightarrow> \<not> i' < j'"
    if "0 \<le> i'" "0 \<le> j'" for i' j'
    using that block_edge_mono [OF b, of "i' + 1" j'] by (auto simp: block_edges [OF assms(1)])
  from this [of i j] this [of j i]
  show "fst (blockSpan l i) \<le> x \<and> x \<le> snd (blockSpan l i) \<Longrightarrow>
      fst (blockSpan l j) \<le> x \<and> x \<le> snd (blockSpan l j) \<Longrightarrow> i = j"
    using assms(3,4) by force
qed

lemma sorted_product:
  assumes "sorted_wrt (<) xs" and "sorted_wrt (<) ys" and "\<forall>y \<in> set ys. 0 \<le> y \<and> y < (b::int)"
  shows "sorted_wrt (\<lambda>p q. fst p * b + snd p < fst q * b + snd q) (List.product xs ys)"
  using assms(1)
proof (induction xs)
  case Nil
  then show ?case by simp
next
  case (Cons x xs)
  have "x * b + y < x' * b + y'" if "x' \<in> set xs" "y \<in> set ys" "y' \<in> set ys" for x' y y'
  proof -
    have "0 \<le> b" using assms(3) that(2) by fastforce
    have "x + 1 \<le> x'" using Cons.prems that(1) by fastforce
    then have "(x + 1) * b \<le> x' * b" using \<open>0 \<le> b\<close> by (rule mult_right_mono)
    moreover have "(x + 1) * b = x * b + b" by (simp add: distrib_right)
    moreover have "y < b" "0 \<le> y'" using assms(3) that by auto
    ultimately show ?thesis by linarith
  qed
  then show ?case
    using Cons assms(2) by (auto simp: sorted_wrt_append sorted_wrt_map)
qed

lemma sorted_upto_int: "sorted_wrt (<) [i..j::int]"
proof (induction i j rule: upto.induct)
  case (1 i j)
  then show ?case by (subst upto.simps) auto
qed

section \<open>Properties\<close>

text \<open>
  C13. The picture shows the blocks: painting block by block returns a picture in which every
  pixel of the tile of a block of the window shows what it is to show - the hostage box around
  a hostage, else the band its row falls into when the owners are stacked in their order from
  the bottom, else nothing, and nothing at all for a hole. No tile paints over another.
\<close>

theorem paintBlocks_shows:
  assumes "viewFrom fr \<le> viewTo fr" and "0 < w" and "0 < cw" and "0 < ch" and "0 < rows"
    and "l = pixLayoutFor (viewTo fr - viewFrom fr) w cw ch rows" and "0 < blockPx l"
    and "0 \<le> t" and "t < tileRows l" and "0 \<le> j" and "j < blocksPerRow l"
    and "viewFrom fr + t * blocksPerRow l + j < viewTo fr"
    and "viewFrom fr + t * blocksPerRow l + j < int (length (counts (m fr)))"
    and "in_tile l t j x y"
  shows "\<exists>img. paintBlocks fr l (blank w (rows * ch)) = Some img \<and>
    pix img x y = tile_pixel fr l t j x y None"
proof -
  have ok: "layout_ok l" and par: "pxW l = w" "cellH l = ch" "mapRows l = rows" "0 \<le> inset l"
    using pixLayoutFor_ok [of "viewTo fr - viewFrom fr" w cw ch rows] assms(1-6)
    by (auto simp: pixLayoutFor_params pixLayoutFor_inset)
  note d = layout_okD [OF ok]
  let ?tiles = "List.product [0..tileRows l - 1] [0..blocksPerRow l - 1]"
  have x: "0 \<le> x" "x < w"
  proof -
    have "0 * pxW l div blocksPerRow l \<le> j * pxW l div blocksPerRow l"
      "(j + 1) * pxW l div blocksPerRow l \<le> blocksPerRow l * pxW l div blocksPerRow l"
      using d assms(10,11) by (intro block_edge_mono; simp)+
    then show "0 \<le> x" "x < w"
      using assms(10,14) d(8) by (auto simp: in_tile_def block_edges [OF ok] par)
  qed
  have y: "0 \<le> y" "y < rows * ch"
  proof -
    have "(t + 1) * (rowSpan l * ch) \<le> tileRows l * (rowSpan l * ch)"
      using assms(9) d par by (intro mult_right_mono) auto
    also have "\<dots> = tileRows l * rowSpan l * ch" by simp
    also have "\<dots> \<le> rows * ch" using d(7) par assms(4) by (intro mult_right_mono) auto
    finally have "(t + 1) * rowSpan l * ch \<le> rows * ch" by (simp add: mult.assoc)
    moreover have "0 \<le> t * rowSpan l * ch" using assms(4,8) d(6) by simp
    ultimately show "0 \<le> y" "y < rows * ch"
      using assms(14) by (auto simp: in_tile_def rowSpanY_def par)
  qed
  have "\<exists>img. paint_tiles fr l ?tiles (blank w (rows * ch)) = Some img \<and> pix img x y =
    (if (t, j) \<in> set ?tiles \<and> tile_block fr l (t, j) < viewTo fr \<and>
       tile_block fr l (t, j) < int (length (counts (m fr)))
     then tile_pixel fr l t j x y (pix (blank w (rows * ch)) x y) else pix (blank w (rows * ch)) x y)"
  proof (rule paint_tiles_pixel)
    show "0 \<le> inset l" by (fact par)
    show "on_canvas (blank w (rows * ch)) x y" using x y by (simp add: on_canvas_def blank_def)
    have "sorted_wrt (\<lambda>p q. fst p * blocksPerRow l + snd p < fst q * blocksPerRow l + snd q) ?tiles"
      by (intro sorted_product sorted_upto_int) auto
    then show "sorted_wrt (\<lambda>p q. tile_block fr l p < tile_block fr l q) ?tiles"
      by (simp add: tile_block_def)
    show "in_tile l t j x y" by (fact assms(14))
    show "fst (rowSpanY l (fst p)) \<le> snd (rowSpanY l (fst p)) \<and>
        fst (blockSpan l (snd p)) \<le> snd (blockSpan l (snd p))" if "p \<in> set ?tiles" for p
      using that rowSpanY_tile(2) [OF ok] blockSpan_tile(1) [OF ok assms(7)] by auto
    show "\<not> in_tile l (fst p) (snd p) x y" if "p \<in> set ?tiles" "p \<noteq> (t, j)" for p
    proof
      assume in_p: "in_tile l (fst p) (snd p) x y"
      have "fst p = y div (rowSpan l * cellH l)" "t = y div (rowSpan l * cellH l)"
        using in_p assms(14) rowSpanY_tile(1) [OF ok] by (auto simp: in_tile_def)
      moreover have "snd p = j"
        using in_p assms(10,14) that(1) by (intro blockSpan_tile(2) [OF ok assms(7)])
          (auto simp: in_tile_def)
      ultimately show False using that(2) by (cases p) auto
    qed
  qed
  then show ?thesis
    using assms(8-13) by (simp add: paintBlocks_def tile_block_def blank_def)
qed

definition whole_ui :: ui_frame where
  "whole_ui = sample_ui\<lparr>viewFrom := 0, viewTo := 1000\<rparr>"

lemma whole_ui_fields:
  "viewFrom whole_ui = 0" "viewTo whole_ui = 1000" "length (counts (m whole_ui)) = 1000"
  by (simp_all add: whole_ui_def sample_ui_def)

lemma paintBlocks_shows_witness:
  "\<exists>img. paintBlocks whole_ui (pixLayoutFor 1000 800 8 16 20) (blank 800 320) = Some img \<and>
     pix img 20 20 = tile_pixel whole_ui (pixLayoutFor 1000 800 8 16 20) 1 1 20 20 None"
proof -
  have "in_tile (pixLayoutFor 1000 800 8 16 20) 1 1 20 20"
    by (simp add: in_tile_def sample_layout blockSpan_def rowSpanY_def sdiv_nonneg)
  moreover have "0 < blockPx (pixLayoutFor 1000 800 8 16 20)" "1 < tileRows (pixLayoutFor 1000 800 8 16 20)"
    "blocksPerRow (pixLayoutFor 1000 800 8 16 20) = 50" by (simp_all add: sample_layout)
  ultimately show ?thesis
    using paintBlocks_shows [of whole_ui 800 8 16 20 "pixLayoutFor 1000 800 8 16 20" 1 1 20 20]
    by (simp add: whole_ui_fields)
qed

end
