(* ===== verification/GoStr.thy ===== *)
theory GoStr
  imports Prelude "HOL-Library.Char_ord"
begin

text \<open>
  What the sources use of the packages \<^verbatim>\<open>strings\<close>, \<^verbatim>\<open>strconv\<close> and \<^verbatim>\<open>bufio\<close>, on the byte strings
  these files are made of: fields and cuts, decimal and hexadecimal numbers with the 64-bit
  range check, and the lines of a file as \<^verbatim>\<open>bufio.Scanner\<close> hands them out. White space is the
  ASCII one; kernel reporting holds no other.
\<close>

section \<open>Cutting strings\<close>

definition is_space :: "char \<Rightarrow> bool" where
  "is_space c \<longleftrightarrow> of_char c \<in> {9, 10, 11, 12, 13, 32 :: nat}"

function str_fields :: "string \<Rightarrow> string list" where
  "str_fields s =
     (let s' = dropWhile is_space s
      in if s' = [] then []
         else takeWhile (\<lambda>c. \<not> is_space c) s' # str_fields (dropWhile (\<lambda>c. \<not> is_space c) s'))"
  by pat_completeness auto
termination
proof (relation "measure length")
  show "wf (measure (length :: string \<Rightarrow> nat))" by simp
next
  fix s s' :: string
  assume s': "s' = dropWhile is_space s" and ne: "s' \<noteq> []"
  have "\<not> is_space (hd s')" using hd_dropWhile [of is_space s] ne s' by simp
  then have "length (dropWhile (\<lambda>c. \<not> is_space c) s') < length s'"
    using ne by (cases s') (auto simp: le_imp_less_Suc length_dropWhile_le)
  also have "\<dots> \<le> length s" by (simp add: s' length_dropWhile_le)
  finally show "(dropWhile (\<lambda>c. \<not> is_space c) s', s) \<in> measure length" by simp
qed

declare str_fields.simps [simp del]

text \<open>\<^verbatim>\<open>strings.Cut\<close> around the first occurrence of a separator.\<close>

fun cut :: "string \<Rightarrow> string \<Rightarrow> (string \<times> string) option" where
  "cut sep s =
     (if take (length sep) s = sep then Some ([], drop (length sep) s)
      else (case s of [] \<Rightarrow> None
            | c # cs \<Rightarrow> (case cut sep cs of None \<Rightarrow> None | Some (a, b) \<Rightarrow> Some (c # a, b))))"

declare cut.simps [simp del]

definition has_prefix :: "string \<Rightarrow> string \<Rightarrow> bool" where
  "has_prefix p s \<longleftrightarrow> take (length p) s = p"

definition has_suffix :: "string \<Rightarrow> string \<Rightarrow> bool" where
  "has_suffix p s \<longleftrightarrow> length p \<le> length s \<and> drop (length s - length p) s = p"

definition trim_prefix :: "string \<Rightarrow> string \<Rightarrow> string" where
  "trim_prefix p s = (if has_prefix p s then drop (length p) s else s)"

definition trim_suffix :: "string \<Rightarrow> string \<Rightarrow> string" where
  "trim_suffix p s = (if has_suffix p s then take (length s - length p) s else s)"

definition trim_space :: "string \<Rightarrow> string" where
  "trim_space s = rev (dropWhile is_space (rev (dropWhile is_space s)))"

definition word_ok :: "string \<Rightarrow> bool" where
  "word_ok w \<longleftrightarrow> w \<noteq> [] \<and> (\<forall>c \<in> set w. \<not> is_space c)"

lemma str_fields_Nil [simp]: "str_fields [] = []"
  by (simp add: str_fields.simps)

lemma fields_space: "is_space c \<Longrightarrow> str_fields (c # s) = str_fields s"
  by (simp add: str_fields.simps [of "c # s"]) (simp add: str_fields.simps [of s])

lemma fields_word:
  assumes "word_ok w" and "s = [] \<or> is_space (hd s)"
  shows "str_fields (w @ s) = w # str_fields s"
proof -
  obtain c w' where w: "w = c # w'" using assms(1) by (cases w) (auto simp: word_ok_def)
  have "dropWhile is_space (w @ s) = w @ s" using assms(1) by (simp add: w word_ok_def)
  moreover have "takeWhile (\<lambda>c. \<not> is_space c) (w @ s) = w"
    using assms by (cases s) (auto simp: word_ok_def takeWhile_append)
  moreover have "dropWhile (\<lambda>c. \<not> is_space c) (w @ s) = s"
    using assms by (cases s) (auto simp: word_ok_def dropWhile_append)
  moreover have "w @ s \<noteq> []" by (simp add: w)
  ultimately show ?thesis by (simp add: str_fields.simps [of "w @ s"] Let_def)
qed

text \<open>A line of words as the kernel prints it.\<close>

fun spaced :: "string list \<Rightarrow> string" where
  "spaced [] = []"
| "spaced [w] = w"
| "spaced (w # ws) = w @ CHR '' '' # spaced ws"

lemma is_space_blank [simp]: "is_space CHR '' ''"
  by (simp add: is_space_def)

lemma fields_spaced: "list_all word_ok ws \<Longrightarrow> str_fields (spaced ws) = ws"
proof (induction ws rule: spaced.induct)
  case (2 w)
  then show ?case using fields_word [of w "[]"] by simp
next
  case (3 w v ws)
  then show ?case using fields_word [of w "CHR '' '' # spaced (v # ws)"] by (simp add: fields_space)
qed simp

section \<open>Numbers\<close>

text \<open>
  \<^verbatim>\<open>strconv.ParseUint\<close> for a 64-bit result: the value and whether it came without an error. A
  digit out of place gives zero, a number out of range the largest one, whichever comes
  first. Callers that ignore the error use the value.
\<close>

definition digit_val :: "char \<Rightarrow> nat option" where
  "digit_val c =
     (let n = of_char c
      in if 48 \<le> n \<and> n \<le> 57 then Some (n - 48)
         else if 97 \<le> n \<and> n \<le> 122 then Some (n - 97 + 10)
         else if 65 \<le> n \<and> n \<le> 90 then Some (n - 65 + 10)
         else None)"

fun parse_loop :: "nat \<Rightarrow> nat \<Rightarrow> string \<Rightarrow> nat \<times> bool" where
  "parse_loop base n [] = (n, True)"
| "parse_loop base n (c # cs) =
     (case digit_val c of
        None \<Rightarrow> (0, False)
      | Some d \<Rightarrow>
          if base \<le> d then (0, False)
          else if 2 ^ 64 \<le> n * base + d then (2 ^ 64 - 1, False)
          else parse_loop base (n * base + d) cs)"

definition parse_uint :: "nat \<Rightarrow> string \<Rightarrow> u64 \<times> bool" where
  "parse_uint base s =
     (if s = [] then (0, False) else (let (n, ok) = parse_loop base 0 s in (of_nat n, ok)))"

definition digit :: "nat \<Rightarrow> char" where
  "digit d = char_of (48 + d)"

fun decimal :: "nat \<Rightarrow> string" where
  "decimal n = (if n < 10 then [digit n] else decimal (n div 10) @ [digit (n mod 10)])"

declare decimal.simps [simp del]

lemma digit_val_digit: "d < 10 \<Longrightarrow> digit_val (digit d) = Some d"
  by (simp add: digit_val_def digit_def Let_def)

lemma digit_not_space: "d < 10 \<Longrightarrow> \<not> is_space (digit d)"
  by (simp add: is_space_def digit_def)

lemma decimal_word: "word_ok (decimal n)"
proof (induction n rule: decimal.induct)
  case (1 n)
  then show ?case
    by (cases "n < 10")
      (auto simp: decimal.simps [of n] word_ok_def digit_not_space)
qed

lemma parse_loop_append:
  "parse_loop base n xs = (v, True) \<Longrightarrow> parse_loop base n (xs @ ys) = parse_loop base v ys"
  by (induction xs arbitrary: n) (auto split: option.splits if_splits)

lemma parse_loop_decimal: "n < 2 ^ 64 \<Longrightarrow> parse_loop 10 0 (decimal n) = (n, True)"
proof (induction n rule: decimal.induct)
  case (1 n)
  show ?case
  proof (cases "n < 10")
    case True
    then show ?thesis using "1.prems" by (simp add: decimal.simps [of n] digit_val_digit)
  next
    case False
    have "parse_loop 10 0 (decimal (n div 10)) = (n div 10, True)"
      using "1.IH" False "1.prems" by simp
    moreover have "n div 10 * 10 + n mod 10 = n" by simp
    ultimately show ?thesis
      using False "1.prems"
      by (simp add: decimal.simps [of n] parse_loop_append digit_val_digit del: div_mult_mod_eq)
  qed
qed

lemma parse_uint_decimal: "n < 2 ^ 64 \<Longrightarrow> parse_uint 10 (decimal n) = (of_nat n, True)"
  using decimal_word [of n] by (simp add: parse_uint_def parse_loop_decimal word_ok_def)

lemma parse_uint_unat [simp]: "parse_uint 10 (decimal (unat w)) = (w, True)" for w :: u64
  using unsigned_less [of w, where ?'a = nat] by (simp add: parse_uint_decimal)

section \<open>The lines of a file\<close>

text \<open>
  \<^verbatim>\<open>bufio.Scanner\<close>: a line ends at a newline and loses a carriage return before it, what is
  left at the end of the file is a line if it is not empty, and a line that does not fit the
  buffer of 64K ends the scan with an error.
\<close>

definition drop_cr :: "string \<Rightarrow> string" where
  "drop_cr s = (if s \<noteq> [] \<and> List.last s = CHR 0x0D then butlast s else s)"

function scan_lines :: "string \<Rightarrow> string list \<times> bool" where
  "scan_lines s =
     (if s = [] then ([], True)
      else
        (let l = takeWhile (\<lambda>c. c \<noteq> CHR 0x0A) s; rest = dropWhile (\<lambda>c. c \<noteq> CHR 0x0A) s
         in if 65536 \<le> length l then ([], False)
            else (let (ls, ok) = scan_lines (tl rest) in (drop_cr l # ls, ok))))"
  by pat_completeness auto
termination
proof (relation "measure length")
  show "wf (measure (length :: string \<Rightarrow> nat))" by simp
next
  fix s l rest :: string
  assume "s \<noteq> []" "rest = dropWhile (\<lambda>c. c \<noteq> CHR 0x0A) s"
  moreover have "length (tl (dropWhile (\<lambda>c. c \<noteq> CHR 0x0A) s)) < length s"
  proof (cases "dropWhile (\<lambda>c. c \<noteq> CHR 0x0A) s")
    case Nil
    then show ?thesis using \<open>s \<noteq> []\<close> by (simp only: list.sel length_greater_0_conv list.size not_False_eq_True)
  next
    case (Cons c cs)
    then show ?thesis using length_dropWhile_le [of "\<lambda>c. c \<noteq> CHR 0x0A" s] by simp
  qed
  ultimately show "(tl rest, s) \<in> measure length" by simp
qed

declare scan_lines.simps [simp del]

text \<open>A file written line by line.\<close>

definition line_ok :: "string \<Rightarrow> bool" where
  "line_ok l \<longleftrightarrow> CHR 0x0A \<notin> set l \<and> CHR 0x0D \<notin> set l \<and> length l < 65536"

definition unlines :: "string list \<Rightarrow> string" where
  "unlines ls = concat (map (\<lambda>l. l @ [CHR 0x0A]) ls)"

lemma scan_lines_Nil [simp]: "scan_lines [] = ([], True)"
  by (simp add: scan_lines.simps)

lemma scan_lines_line:
  assumes "line_ok l"
  shows "scan_lines (l @ CHR 0x0A # s) = (l # fst (scan_lines s), snd (scan_lines s))"
proof -
  have "takeWhile (\<lambda>c. c \<noteq> CHR 0x0A) (l @ CHR 0x0A # s) = l"
    using assms by (induction l) (auto simp: line_ok_def)
  moreover have "dropWhile (\<lambda>c. c \<noteq> CHR 0x0A) (l @ CHR 0x0A # s) = CHR 0x0A # s"
    using assms by (induction l) (auto simp: line_ok_def)
  moreover have "drop_cr l = l"
    using assms by (auto simp: drop_cr_def line_ok_def dest: last_in_set)
  ultimately show ?thesis
    using assms
    by (simp add: scan_lines.simps [of "l @ CHR 0x0A # s"] Let_def line_ok_def case_prod_beta')
qed

lemma scan_unlines: "list_all line_ok ls \<Longrightarrow> scan_lines (unlines ls) = (ls, True)"
  by (induction ls) (simp_all add: unlines_def scan_lines_line)

lemma word_no_newline: "word_ok w \<Longrightarrow> CHR 0x0A \<notin> set w \<and> CHR 0x0D \<notin> set w"
  by (auto simp: word_ok_def is_space_def)

lemma digit_no_newline [simp]: "d < 10 \<Longrightarrow> CHR 0x0A \<noteq> digit d" "d < 10 \<Longrightarrow> CHR 0x0D \<noteq> digit d"
proof -
  have "is_space CHR 0x0A" "is_space CHR 0x0D" by (simp_all add: is_space_def)
  then show "d < 10 \<Longrightarrow> CHR 0x0A \<noteq> digit d" "d < 10 \<Longrightarrow> CHR 0x0D \<noteq> digit d"
    using digit_not_space by metis+
qed

lemma map_filter_back: "(\<And>x. x \<in> set xs \<Longrightarrow> f (g x) = Some x) \<Longrightarrow> List.map_filter f (map g xs) = xs"
  by (induction xs) (simp_all add: map_filter_simps)

section \<open>Cutting what was put together\<close>

lemma cut_skip:
  assumes "take (length sep) (d # s) \<noteq> sep"
  shows "cut sep (d # s) = map_option (\<lambda>(x, y). (d # x, y)) (cut sep s)"
  unfolding cut.simps [of sep "d # s"] using assms by (auto split: option.splits)

lemma cut_skip_char:
  "c \<noteq> d \<Longrightarrow> cut (c # cs) (d # s) = map_option (\<lambda>(x, y). (d # x, y)) (cut (c # cs) s)"
  by (rule cut_skip) simp

lemma cut_none: "c \<notin> set s \<Longrightarrow> cut (c # cs) s = None"
proof (induction s)
  case Nil
  show ?case by (subst cut.simps) simp
qed (auto simp: cut_skip_char)

lemma cut_past:
  "c \<notin> set a \<Longrightarrow> cut (c # cs) (a @ s) = map_option (\<lambda>(x, y). (a @ x, y)) (cut (c # cs) s)"
proof (induction a)
  case Nil
  then show ?case by (cases "cut (c # cs) s") auto
next
  case (Cons d a)
  then show ?case by (cases "cut (c # cs) s") (auto simp: cut_skip_char)
qed

lemma cut_here: "cut sep (sep @ b) = Some ([], b)"
  by (subst cut.simps) simp

lemma cut_first: "c \<notin> set a \<Longrightarrow> cut (c # cs) (a @ (c # cs) @ b) = Some (a, b)"
  by (subst cut_past) (simp_all add: cut_here del: append_Cons)

lemma cut_char: "c \<notin> set a \<Longrightarrow> cut [c] (a @ c # b) = Some (a, b)"
  using cut_first [of c a "[]" b] by simp

text \<open>A first character of the separator that does not start it.\<close>

lemma cut_false_start:
  "s = [] \<or> hd s \<noteq> d \<Longrightarrow> cut [c, d] (c # s) = map_option (\<lambda>(x, y). (c # x, y)) (cut [c, d] s)"
  by (rule cut_skip) (cases s, auto)

lemma has_suffix_append: "has_suffix p (s @ p)"
  by (simp add: has_suffix_def)

lemma trim_suffix_append: "trim_suffix p (s @ p) = s"
  by (simp add: trim_suffix_def has_suffix_append)

end
