(* ===== verification/Aggregate.thy ===== *)
theory Aggregate
  imports Pixels GoStr
begin

text \<open>
  The map zoomed out past one pixel per block, \<^verbatim>\<open>paintAggregated\<close> of
  \<^verbatim>\<open>packages/fragview/pixmap.go\<close>, and the colours of the pixels: the palette of the classes,
  derived from the escape sequences of the legend, and the shade of a hostage share.
\<close>

section \<open>Colours\<close>

type_synonym rgb = "u8 \<times> u8 \<times> u8"

definition esc_colour :: "string \<Rightarrow> string" where
  "esc_colour n = CHR 0x1B # ''[38;5;'' @ n @ ''m''"

fun classColor :: "pclass \<Rightarrow> string" where
  "classColor clNone = esc_colour ''234''"
| "classColor clFree = esc_colour ''238''"
| "classColor clFile = esc_colour ''31''"
| "classColor clShmem = esc_colour ''37''"
| "classColor clAnon = esc_colour ''65''"
| "classColor clABD = esc_colour ''96''"
| "classColor clSlab = esc_colour ''136''"
| "classColor clPgtab = esc_colour ''97''"
| "classColor clCompound = esc_colour ''131''"
| "classColor clUncached = esc_colour ''130''"
| "classColor clKernel = esc_colour ''95''"
| "classColor clReserved = esc_colour ''242''"
| "classColor clUnknown = esc_colour ''245''"

text \<open>\<^verbatim>\<open>strconv.Atoi\<close> with its error ignored, on texts without a sign.\<close>

definition paletteIndex :: "string \<Rightarrow> nat" where
  "paletteIndex esc =
     (case cut ''38;5;'' esc of None \<Rightarrow> 0
      | Some (_, rest) \<Rightarrow> (let (n, ok) = parse_loop 10 0 (trim_suffix ''m'' rest) in if ok then n else 0))"

definition cube_levels :: "u8 list" where
  "cube_levels = [0, 95, 135, 175, 215, 255]"

definition xterm256RGB :: "nat \<Rightarrow> rgb" where
  "xterm256RGB idx =
     (if 232 \<le> idx then (let v = of_nat (8 + (idx - 232) * 10) in (v, v, v))
      else if 16 \<le> idx then
        (let i = idx - 16
         in (cube_levels ! (i div 36), cube_levels ! (i div 6 mod 6), cube_levels ! (i mod 6)))
      else
        (let v = (if 8 \<le> idx then 255 else 128)
         in (v * of_nat (idx mod 2), v * of_nat (idx div 2 mod 2), v * of_nat (idx div 4 mod 2))))"

definition classRGB :: "pclass \<Rightarrow> rgb" where
  "classRGB c = xterm256RGB (paletteIndex (classColor c))"

definition hostagePx :: rgb where "hostagePx = (255, 95, 95)"
definition hoverPx :: rgb where "hoverPx = (255, 255, 255)"

definition fade_part :: "rat \<Rightarrow> u8 \<Rightarrow> u8" where
  "fade_part part v = of_int (to_int (fl (of_nat (unat v) * fl (1 / 4 + fl (3 / 4 * part)))))"

definition fade :: "rgb \<Rightarrow> rat \<Rightarrow> rgb" where
  "fade c part =
     (let p = (if 1 < part then 1 else part); (r, g, b) = c
      in (fade_part p r, fade_part p g, fade_part p b))"

text \<open>The colour of what a pixel shows.\<close>

fun paint_rgb :: "paint \<Rightarrow> rgb" where
  "paint_rgb (Owner c) = classRGB c"
| "paint_rgb HostageBox = hostagePx"
| "paint_rgb (HostageShade part) = fade hostagePx part"
| "paint_rgb HoverBox = hoverPx"

lemma paletteIndex_esc:
  "paletteIndex (esc_colour n) = (let (v, ok) = parse_loop 10 0 n in if ok then v else 0)"
proof -
  have "cut (CHR ''3'' # ''8;5;'') ([CHR 0x1B, CHR ''['' ] @ (CHR ''3'' # ''8;5;'') @ (n @ ''m'')) =
      Some ([CHR 0x1B, CHR ''['' ], n @ ''m'')"
    by (rule cut_first) simp
  then have "cut ''38;5;'' (esc_colour n) = Some ([CHR 0x1B, CHR ''['' ], n @ ''m'')"
    by (simp add: esc_colour_def)
  then show ?thesis by (simp only: paletteIndex_def option.case prod.case trim_suffix_append)
qed

lemma paletteIndex_table:
  "map (\<lambda>c. paletteIndex (classColor c)) (clNone # ram_classes) =
     [234, 238, 31, 37, 65, 96, 136, 97, 131, 130, 95, 242, 245]"
  by (simp add: ram_classes_eq paletteIndex_esc digit_val_def Let_def)

lemma classRGB_table:
  "classRGB clFree = (68, 68, 68)" "classRGB clFile = (0, 135, 175)" "classRGB clShmem = (0, 175, 175)"
  "classRGB clAnon = (95, 135, 95)" "classRGB clABD = (135, 95, 135)" "classRGB clSlab = (175, 135, 0)"
  "classRGB clPgtab = (135, 95, 175)" "classRGB clCompound = (175, 95, 95)"
  "classRGB clUncached = (175, 95, 0)" "classRGB clKernel = (135, 95, 95)"
  "classRGB clReserved = (108, 108, 108)" "classRGB clUnknown = (138, 138, 138)"
  using paletteIndex_table
  by (simp_all add: ram_classes_eq classRGB_def xterm256RGB_def cube_levels_def Let_def)

text \<open>No two classes share a colour, and none has the colour of a box.\<close>

theorem palette_distinct: "distinct (hostagePx # hoverPx # map classRGB ram_classes)"
  by (simp add: ram_classes_eq classRGB_table hostagePx_def hoverPx_def)

section \<open>Columns\<close>

record column_tally =
  colSum :: "pclass \<Rightarrow> nat"
  colKnown :: nat
  colHeld :: nat
  colN :: nat

definition no_column :: column_tally where
  "no_column = \<lparr>colSum = \<lambda>_. 0, colKnown = 0, colHeld = 0, colN = 0\<rparr>"

definition column_step :: "'a ui_frame_scheme \<Rightarrow> column_tally \<Rightarrow> int \<Rightarrow> column_tally" where
  "column_step fr s blk =
     (let cs = counts (m fr) ! nat blk;
          seen_view = (blk < int (length (views fr)) \<and> valid (views fr ! nat blk))
      in \<lparr>colSum = \<lambda>c. colSum s c + block_sums cs c,
          colKnown = colKnown s + known_pages cs,
          colHeld = (if seen_view \<and> hostage (views fr ! nat blk) then colHeld s + 1 else colHeld s),
          colN = (if seen_view then colN s + 1 else colN s)\<rparr>)"

text \<open>The blocks under one column: up to the end of the window and of the map.\<close>

definition column_of :: "'a ui_frame_scheme \<Rightarrow> pix_layout \<Rightarrow> int \<Rightarrow> int \<Rightarrow> column_tally" where
  "column_of fr l r x =
     (let lo = viewFrom fr + r * blocksPerRow l + x * perCol l; hi = min (lo + perCol l) (viewTo fr)
      in foldl (column_step fr) no_column [lo .. min hi (int (length (counts (m fr)))) - 1])"

fun paint_columns ::
  "'a ui_frame_scheme \<Rightarrow> pix_layout \<Rightarrow> (int \<times> int) list \<Rightarrow> canvas \<Rightarrow> canvas option" where
  "paint_columns fr l [] img = Some img"
| "paint_columns fr l ((r, x) # cols) img =
     (let s = column_of fr l r x
      in if colKnown s = 0 then paint_columns fr l cols img
         else
           (let tp = r * cellH l; bottom = (r + 1) * cellH l - 1
            in case stack (colSum s) (colKnown s) x x tp bottom img of
                 None \<Rightarrow> None
               | Some img1 \<Rightarrow>
                   paint_columns fr l cols
                     (if 0 < colHeld s
                      then set_px (HostageShade (fl (of_nat (colHeld s) / of_nat (colN s)))) x tp img1
                      else img1)))"

definition paintAggregated :: "'a ui_frame_scheme \<Rightarrow> pix_layout \<Rightarrow> canvas \<Rightarrow> canvas option" where
  "paintAggregated fr l img =
     paint_columns fr l (List.product [0..mapRows l - 1] [0..pxW l - 1]) img"

section \<open>What a column shows\<close>

text \<open>
  The blocks of the window and of the map under a column, those of them with a verdict, and the
  pixel \<open>y\<close> of the column: nothing over a hole, the share of hostages on top, the band of its
  owner below.
\<close>

definition blocks_under :: "'a ui_frame_scheme \<Rightarrow> pix_layout \<Rightarrow> int \<Rightarrow> int \<Rightarrow> int list" where
  "blocks_under fr l r x =
     filter (\<lambda>b. viewFrom fr + r * blocksPerRow l + x * perCol l \<le> b \<and>
         b < viewFrom fr + r * blocksPerRow l + x * perCol l + perCol l)
       [viewFrom fr + r * blocksPerRow l + x * perCol l .. min (viewTo fr) (int (length (counts (m fr)))) - 1]"

definition pages_under :: "'a ui_frame_scheme \<Rightarrow> int list \<Rightarrow> pclass \<Rightarrow> nat" where
  "pages_under fr bs c = (\<Sum>b\<leftarrow>bs. block_sums (counts (m fr) ! nat b) c)"

definition known_under :: "'a ui_frame_scheme \<Rightarrow> int list \<Rightarrow> nat" where
  "known_under fr bs = (\<Sum>b\<leftarrow>bs. known_pages (counts (m fr) ! nat b))"

definition judged :: "'a ui_frame_scheme \<Rightarrow> int list \<Rightarrow> int list" where
  "judged fr bs = filter (\<lambda>b. b < int (length (views fr)) \<and> valid (views fr ! nat b)) bs"

definition held_under :: "'a ui_frame_scheme \<Rightarrow> int list \<Rightarrow> nat" where
  "held_under fr bs = length (filter (\<lambda>b. hostage (views fr ! nat b)) (judged fr bs))"

definition column_pixel ::
  "'a ui_frame_scheme \<Rightarrow> pix_layout \<Rightarrow> int \<Rightarrow> int \<Rightarrow> int \<Rightarrow> paint option \<Rightarrow> paint option" where
  "column_pixel fr l r x y old =
     (let bs = blocks_under fr l r x; bottom = (r + 1) * cellH l - 1
      in if known_under fr bs = 0 then old
         else if 0 < held_under fr bs \<and> y = r * cellH l
         then Some (HostageShade (fl (of_nat (held_under fr bs) / of_nat (length (judged fr bs)))))
         else Some (Owner
           (band_rows (tile_bands (pages_under fr bs) (known_under fr bs) (cellH l)) stackOrder ! nat (bottom - y))))"

definition in_column :: "pix_layout \<Rightarrow> int \<Rightarrow> int \<Rightarrow> int \<Rightarrow> int \<Rightarrow> bool" where
  "in_column l r c x y \<longleftrightarrow> x = c \<and> r * cellH l \<le> y \<and> y \<le> (r + 1) * cellH l - 1"

lemma foldl_column_step:
  "colKnown (foldl (column_step fr) s bs) = colKnown s + known_under fr bs \<and>
   colSum (foldl (column_step fr) s bs) c = colSum s c + pages_under fr bs c \<and>
   colN (foldl (column_step fr) s bs) = colN s + length (judged fr bs) \<and>
   colHeld (foldl (column_step fr) s bs) = colHeld s + held_under fr bs"
  by (induction bs arbitrary: s)
    (simp_all add: column_step_def Let_def known_under_def pages_under_def judged_def held_under_def)

lemma filter_below_upto: "filter (\<lambda>b. a \<le> b \<and> b < a + w) [a .. c - 1] = [a .. min (a + w) c - 1]"
proof (cases "a + w \<le> c")
  case True
  have "filter (\<lambda>b. a \<le> b \<and> b < a + w) [a .. c - 1] = [a .. a + w - 1]"
  proof (cases "0 \<le> w")
    case w: True
    then have "[a .. c - 1] = [a .. a + w - 1] @ [a + w .. c - 1]"
      using upto_split1 [of a "a + w" "c - 1"] True by (cases "a + w \<le> c - 1") auto
    then show ?thesis by (auto simp: filter_id_conv filter_empty_conv)
  qed (auto simp: filter_empty_conv)
  then show ?thesis using True by simp
qed (auto simp: filter_id_conv)

lemma column_of_fields:
  "colKnown (column_of fr l r x) = known_under fr (blocks_under fr l r x)"
  "colSum (column_of fr l r x) = pages_under fr (blocks_under fr l r x)"
  "colN (column_of fr l r x) = length (judged fr (blocks_under fr l r x))"
  "colHeld (column_of fr l r x) = held_under fr (blocks_under fr l r x)"
proof -
  have "column_of fr l r x = foldl (column_step fr) no_column (blocks_under fr l r x)"
    by (simp add: column_of_def blocks_under_def Let_def filter_below_upto min.assoc)
  then show "colKnown (column_of fr l r x) = known_under fr (blocks_under fr l r x)"
    "colSum (column_of fr l r x) = pages_under fr (blocks_under fr l r x)"
    "colN (column_of fr l r x) = length (judged fr (blocks_under fr l r x))"
    "colHeld (column_of fr l r x) = held_under fr (blocks_under fr l r x)"
    using foldl_column_step [of fr no_column "blocks_under fr l r x"] by (simp_all add: no_column_def fun_eq_iff)
qed

lemma column_has_class:
  assumes "known_under fr bs \<noteq> 0"
  shows "\<exists>c. c \<noteq> clNone \<and> pages_under fr bs c \<noteq> 0"
proof -
  have "\<exists>n\<in>set (map (\<lambda>b. known_pages (counts (m fr) ! nat b)) bs). n \<noteq> 0"
    using assms unfolding known_under_def by (metis sum_list_eq_0_iff)
  then obtain b where b: "b \<in> set bs" "known_pages (counts (m fr) ! nat b) \<noteq> 0" by auto
  then obtain c where c: "c \<noteq> clNone" "block_sums (counts (m fr) ! nat b) c \<noteq> 0"
    using block_sums_pos by blast
  have "pages_under fr bs c \<noteq> 0"
    unfolding pages_under_def using b(1) c(2) by (metis (no_types, lifting) image_eqI set_map sum_list_eq_0_iff)
  then show ?thesis using c(1) by blast
qed

lemma paint_column_pixel:
  assumes "on_canvas img x y" and "colKnown (column_of fr l r c) \<noteq> 0" and "0 < cellH l"
  shows "\<exists>img2. paint_columns fr l ((r, c) # cols) img = paint_columns fr l cols img2 \<and>
    on_canvas img2 x y \<and>
    pix img2 x y = (if in_column l r c x y then column_pixel fr l r c y (pix img x y) else pix img x y)"
proof -
  let ?s = "column_of fr l r c"
  let ?tp = "r * cellH l" and ?bt = "(r + 1) * cellH l - 1"
  obtain c0 where c0: "c0 \<noteq> clNone" "colSum ?s c0 \<noteq> 0" 
    using column_has_class [of fr "blocks_under fr l r c"] assms(2) unfolding column_of_fields by blast
  then obtain img1 where st: "stack (colSum ?s) (colKnown ?s) c c ?tp ?bt img = Some img1"
    and dims: "wid img1 = wid img" "hgt img1 = hgt img"
    and px: "\<And>x y. on_canvas img x y \<Longrightarrow> pix img1 x y =
      (if c \<le> x \<and> x \<le> c \<and> ?tp \<le> y \<and> y \<le> ?bt
       then Some (Owner (band_rows (tile_bands (colSum ?s) (colKnown ?s) (?bt - ?tp + 1)) stackOrder ! nat (?bt - y)))
       else pix img x y)"
    using stack_props [of c0 "colSum ?s" "colKnown ?s" c c ?tp ?bt img] c0 by blast
  have h: "?bt - ?tp + 1 = cellH l" by (simp add: algebra_simps)
  have on1: "on_canvas img1 x y" using assms(1) dims by (simp add: on_canvas_def)
  let ?img2 = "if 0 < colHeld ?s
    then set_px (HostageShade (fl (of_nat (colHeld ?s) / of_nat (colN ?s)))) c ?tp img1 else img1"
  have "paint_columns fr l ((r, c) # cols) img = paint_columns fr l cols ?img2"
    using assms(2) st by (simp add: Let_def)
  moreover have "on_canvas ?img2 x y" using on1 by simp
  moreover have "?tp \<le> ?bt" using assms(3) by (simp add: algebra_simps)
  then have "pix ?img2 x y = (if in_column l r c x y then column_pixel fr l r c y (pix img x y) else pix img x y)"
    using px [OF assms(1)] on1 assms(2)
    by (auto simp: pix_set_px in_column_def column_pixel_def Let_def h column_of_fields)
  ultimately show ?thesis by blast
qed

lemma paint_columns_pixel:
  assumes "0 < cellH l" and "in_column l r0 c0 x y" and "on_canvas img x y" and "distinct cols"
  shows "\<exists>img'. paint_columns fr l cols img = Some img' \<and> pix img' x y =
    (if (r0, c0) \<in> set cols then column_pixel fr l r0 c0 y (pix img x y) else pix img x y)"
  using assms(3,4)
proof (induction cols arbitrary: img)
  case (Cons p cols)
  obtain r c where p: "p = (r, c)" by (cases p)
  have other: "r = r0 \<and> c = c0" if "in_column l r c x y"
  proof -
    have "r = y div cellH l" if "r * cellH l \<le> y" "y \<le> (r + 1) * cellH l - 1" for r
      using that assms(1) by (intro int_div_pos_eq [symmetric, of _ _ _ "y - r * cellH l"]) (simp_all add: algebra_simps)
    then show ?thesis using that assms(2) unfolding in_column_def by metis
  qed
  show ?case
  proof (cases "colKnown (column_of fr l r c) = 0")
    case True
    then have "column_pixel fr l r c y old = old" for old
      by (simp add: column_pixel_def column_of_fields)
    moreover have "paint_columns fr l (p # cols) img = paint_columns fr l cols img" using True by (simp add: p)
    ultimately show ?thesis using Cons by (cases "(r, c) = (r0, c0)") (auto simp: p)
  next
    case False
    obtain img2 where img2: "paint_columns fr l ((r, c) # cols) img = paint_columns fr l cols img2"
      "on_canvas img2 x y"
      "pix img2 x y = (if in_column l r c x y then column_pixel fr l r c y (pix img x y) else pix img x y)"
      using paint_column_pixel [OF Cons.prems(1) False assms(1)] by blast
    have dist: "distinct cols" and fresh: "(r, c) \<notin> set cols" using Cons.prems(2) p by auto
    obtain img3 where img3: "paint_columns fr l cols img2 = Some img3" "pix img3 x y =
        (if (r0, c0) \<in> set cols then column_pixel fr l r0 c0 y (pix img2 x y) else pix img2 x y)"
      using Cons.IH [OF img2(2) dist] by blast
    have run: "paint_columns fr l (p # cols) img = Some img3" using img2(1) img3(1) p by simp
    show ?thesis
    proof (cases "(r, c) = (r0, c0)")
      case True
      then have "pix img3 x y = column_pixel fr l r0 c0 y (pix img x y)"
        using img3(2) img2(3) assms(2) fresh by simp
      then show ?thesis using run True p by simp
    next
      case False
      then have "pix img2 x y = pix img x y" using img2(3) other by auto
      then show ?thesis using run img3(2) False p by auto
    qed
  qed
qed simp




end
