(* ===== verification/Stats.thy ===== *)
theory Stats
  imports GoStr BlockMap Float64 "HOL-Library.AList"
begin

text \<open>
  The readers of kernel reporting: \<^verbatim>\<open>packages/fragview/stats.go\<close>, the readers at the top of
  \<^verbatim>\<open>main.go\<close> and \<^verbatim>\<open>readRAMRanges\<close> of \<^verbatim>\<open>kpage.go\<close>. The argument \<open>proc\<close> is the directory the
  files are read from: the content of a file by its relative name, nothing where it does not
  open. Counters are 64-bit words and add with wrap-around, as in the code.
\<close>

type_synonym proc_fs = "string \<Rightarrow> string option"

text \<open>A number whose error the caller ignores.\<close>

definition num_at :: "string list \<Rightarrow> nat \<Rightarrow> u64" where
  "num_at ws i = fst (parse_uint 10 (ws ! i))"

text \<open>What \<^verbatim>\<open>sc.Err()\<close> returns at the end of a scan.\<close>

definition scan_err :: "bool \<Rightarrow> go_error option" where
  "scan_err ok = (if ok then None else Some (IOError ''token too long''))"

definition no_file :: "go_error option" where
  "no_file = Some (IOError ''open'')"

section \<open>Free lists\<close>

record free_ladder =
  orders :: "u64 list"
  maxOrder :: int

definition no_ladder :: free_ladder where
  "no_ladder = \<lparr>orders = [], maxOrder = 0\<rparr>"

fun zone_start :: "nat \<Rightarrow> string list \<Rightarrow> nat option" where
  "zone_start i [] = None"
| "zone_start i (s # ss) = (if s = ''zone'' then Some (i + 2) else zone_start (i + 1) ss)"

definition add_order :: "nat \<Rightarrow> u64 \<Rightarrow> u64 list \<Rightarrow> u64 list" where
  "add_order i n os =
     (let os' = os @ replicate (i + 1 - length os) 0 in os'[i := os' ! i + n])"

fun add_orders :: "nat \<Rightarrow> string list \<Rightarrow> u64 list \<Rightarrow> u64 list" where
  "add_orders i [] os = os"
| "add_orders i (s # ss) os =
     (let (n, ok) = parse_uint 10 s in add_orders (i + 1) ss (if ok then add_order i n os else os))"

definition buddy_line :: "u64 list \<Rightarrow> string \<Rightarrow> u64 list" where
  "buddy_line os line =
     (let ws = str_fields line
      in case zone_start 0 ws of
           None \<Rightarrow> os
         | Some idx \<Rightarrow> if length ws < idx then os else add_orders 0 (drop idx ws) os)"

definition readBuddyinfo :: "proc_fs \<Rightarrow> free_ladder \<times> go_error option" where
  "readBuddyinfo proc =
     (case proc ''buddyinfo'' of
        None \<Rightarrow> (no_ladder, no_file)
      | Some txt \<Rightarrow>
          (let (ls, ok) = scan_lines txt; os = foldl buddy_line [] ls
           in (\<lparr>orders = os, maxOrder = int (length os) - 1\<rparr>, scan_err ok)))"

text \<open>\<^verbatim>\<open>float64(n) * float64(uint64(1)<<o)\<close>; the shift leaves nothing from order 64 on.\<close>

definition order_pages :: "nat \<Rightarrow> u64 \<Rightarrow> rat" where
  "order_pages ord n =
     fl (fl (of_nat (unat n)) * fl (of_nat (if ord < 64 then 2 ^ ord else 0)))"

fun sum_orders :: "nat \<Rightarrow> u64 list \<Rightarrow> rat \<Rightarrow> rat" where
  "sum_orders ord [] acc = acc"
| "sum_orders ord (n # ns) acc = sum_orders (ord + 1) ns (fl (acc + order_pages ord n))"

definition unusableIndex :: "free_ladder \<Rightarrow> rat list option" where
  "unusableIndex l =
     (let tot = sum_orders 0 (orders l) 0
      in if tot = 0 then None
         else Some (map (\<lambda>want. fl (sum_orders 0 (take want (orders l)) 0 / tot))
                        [0 ..< length (orders l)]))"

section \<open>Pageblocks by migrate type\<close>

record block_types =
  names :: "string list"
  tcounts :: "u64 list"

definition no_types :: block_types where
  "no_types = \<lparr>names = [], tcounts = []\<rparr>"

fun add_types :: "nat \<Rightarrow> string list \<Rightarrow> u64 list \<Rightarrow> u64 list" where
  "add_types i [] cs = cs"
| "add_types i (s # ss) cs =
     (let (n, ok) = parse_uint 10 s
      in add_types (i + 1) ss (if ok then cs[i := cs ! i + n] else cs))"

definition type_title :: string where
  "type_title = ''Number of blocks type''"

definition pagetype_line :: "block_types \<times> bool \<Rightarrow> string \<Rightarrow> block_types \<times> bool" where
  "pagetype_line s line =
     (let (bt, inTable) = s
      in if has_prefix type_title line then
           (let ns = str_fields (trim_prefix type_title line)
            in (\<lparr>names = ns, tcounts = replicate (length ns) 0\<rparr>, True))
         else if \<not> inTable \<or> \<not> has_prefix ''Node'' line then (bt, inTable)
         else
           (let ws = str_fields line
            in if length ws < length (names bt) then (bt, inTable)
               else (bt\<lparr>tcounts := add_types 0 (drop (length ws - length (names bt)) ws) (tcounts bt)\<rparr>,
                     inTable)))"

definition readPagetypeinfo :: "proc_fs \<Rightarrow> block_types \<times> go_error option" where
  "readPagetypeinfo proc =
     (case proc ''pagetypeinfo'' of
        None \<Rightarrow> (no_types, no_file)
      | Some txt \<Rightarrow>
          (let (ls, ok) = scan_lines txt
           in (fst (foldl pagetype_line (no_types, False) ls), scan_err ok)))"

text \<open>\<^verbatim>\<open>readPageblockOrder\<close>: the first line that names an order decides.\<close>

fun order_in :: "string list \<Rightarrow> u64" where
  "order_in [] = 9"
| "order_in (l # ls) =
     (case cut ''Page block order:'' l of
        None \<Rightarrow> order_in ls
      | Some (_, v) \<Rightarrow> (let (n, ok) = parse_uint 10 (trim_space v) in if ok then n else order_in ls))"

definition readPageblockOrder :: "proc_fs \<Rightarrow> u64" where
  "readPageblockOrder proc =
     (case proc ''pagetypeinfo'' of None \<Rightarrow> 9 | Some txt \<Rightarrow> order_in (fst (scan_lines txt)))"

section \<open>Slab caches\<close>

record slab_cache =
  sname :: string
  active :: u64
  stotal :: u64
  objSize :: u64
  pagesPerSlab :: u64
  slabs :: u64
  activeSlabs :: u64

definition slab_bytes :: "slab_cache \<Rightarrow> u64" where
  "slab_bytes c = stotal c * objSize c"

definition liveBytes :: "slab_cache \<Rightarrow> u64" where
  "liveBytes c = active c * objSize c"

definition wasted :: "slab_cache \<Rightarrow> u64" where
  "wasted c = slab_bytes c - liveBytes c"

definition occupancy :: "slab_cache \<Rightarrow> rat" where
  "occupancy c = (if stotal c = 0 then 0 else fl (fl (of_nat (unat (active c))) / fl (of_nat (unat (stotal c)))))"

text \<open>The loop over the fields for \<^verbatim>\<open>slabdata\<close>; the last one with two fields after it counts.\<close>

fun slabdata :: "string list \<Rightarrow> nat \<Rightarrow> nat \<Rightarrow> u64 \<times> u64 \<Rightarrow> u64 \<times> u64" where
  "slabdata ws 0 i s = s"
| "slabdata ws (Suc k) i s =
     slabdata ws k (i + 1)
       (if ws ! i = ''slabdata'' \<and> i + 2 < length ws then (num_at ws (i + 1), num_at ws (i + 2))
        else s)"

definition slab_line :: "string \<Rightarrow> slab_cache option" where
  "slab_line line =
     (if has_prefix ''#'' line \<or> has_prefix ''slabinfo'' line then None
      else
        (let ws = str_fields line
         in if length ws < 6 then None
            else
              (let (acts, ns) = slabdata ws (length ws) 0 (0, 0)
               in Some \<lparr>sname = ws ! 0, active = num_at ws 1, stotal = num_at ws 2,
                        objSize = num_at ws 3, pagesPerSlab = num_at ws 5,
                        slabs = ns, activeSlabs = acts\<rparr>)))"

text \<open>
  \<^verbatim>\<open>sort.Slice\<close> leaves the order of caches of one size open on long tables, so the sorting
  routine is an argument.
\<close>

definition readSlabinfo ::
  "((slab_cache \<Rightarrow> slab_cache \<Rightarrow> bool) \<Rightarrow> slab_cache list \<Rightarrow> slab_cache list) \<Rightarrow>
   proc_fs \<Rightarrow> slab_cache list \<times> go_error option" where
  "readSlabinfo srt proc =
     (case proc ''slabinfo'' of
        None \<Rightarrow> ([], no_file)
      | Some txt \<Rightarrow>
          (let (ls, ok) = scan_lines txt
           in (srt (\<lambda>a b. slab_bytes b < slab_bytes a) (List.map_filter slab_line ls), scan_err ok)))"

section \<open>Key and value files\<close>

type_synonym table = "(string \<times> u64) list"

definition meminfo_line :: "table \<Rightarrow> string \<Rightarrow> table" where
  "meminfo_line t line =
     (case cut '':'' line of
        None \<Rightarrow> t
      | Some (k, v) \<Rightarrow>
          (case str_fields v of
             [] \<Rightarrow> t
           | f # fs \<Rightarrow>
               (let (n, ok) = parse_uint 10 f
                in if \<not> ok then t
                   else AList.update k (if fs \<noteq> [] \<and> hd fs = ''kB'' then n * 1024 else n) t)))"

definition vmstat_line :: "table \<Rightarrow> string \<Rightarrow> table" where
  "vmstat_line t line =
     (case str_fields line of
        [k, v] \<Rightarrow> (let (n, ok) = parse_uint 10 v in if ok then AList.update k n t else t)
      | _ \<Rightarrow> t)"

definition kstat_line :: "table \<Rightarrow> string \<Rightarrow> table" where
  "kstat_line t line =
     (case str_fields line of
        [k, _, v] \<Rightarrow> (let (n, ok) = parse_uint 10 v in if ok then AList.update k n t else t)
      | _ \<Rightarrow> t)"

definition read_table :: "(table \<Rightarrow> string \<Rightarrow> table) \<Rightarrow> string option \<Rightarrow> table" where
  "read_table step txt =
     (case txt of None \<Rightarrow> [] | Some s \<Rightarrow> foldl step [] (fst (scan_lines s)))"

definition readMeminfo :: "proc_fs \<Rightarrow> table" where
  "readMeminfo proc = read_table meminfo_line (proc ''meminfo'')"

definition readVmstat :: "proc_fs \<Rightarrow> table" where
  "readVmstat proc = read_table vmstat_line (proc ''vmstat'')"

definition readKstat :: "proc_fs \<Rightarrow> string \<Rightarrow> table" where
  "readKstat proc rel = read_table kstat_line (proc rel)"

definition readARC :: "proc_fs \<Rightarrow> table" where
  "readARC proc = readKstat proc ''spl/kstat/zfs/arcstats''"

definition abdRelocationBuilt :: "proc_fs \<Rightarrow> bool" where
  "abdRelocationBuilt proc =
     (map_of (readKstat proc ''spl/kstat/zfs/abdstats'') ''page_isolate_asked'' \<noteq> None)"

section \<open>The tables of the slabwho module\<close>

record who_stat =
  wblocks :: u64
  whostageBlocks :: u64
  wpages :: u64
  whostagePages :: u64
  mobile :: bool

definition no_who :: who_stat where
  "no_who = \<lparr>wblocks = 0, whostageBlocks = 0, wpages = 0, whostagePages = 0, mobile = False\<rparr>"

record who_totals =
  tot_blocks :: u64
  tot_hostageBlocks :: u64
  tot_hostageFreePages :: u64
  tot_walkUS :: u64

definition no_totals :: who_totals where
  "no_totals = \<lparr>tot_blocks = 0, tot_hostageBlocks = 0, tot_hostageFreePages = 0, tot_walkUS = 0\<rparr>"

record site_stat =
  site_cache :: string
  site_fn :: string
  site_file :: string
  site_objects :: u64
  site_blocks :: u64

text \<open>The pairs of a line that starts with \<^verbatim>\<open>#\<close>, read two fields at a time.\<close>

fun who_pairs :: "string list \<Rightarrow> who_totals \<Rightarrow> who_totals" where
  "who_pairs (k # v # ws) t =
     who_pairs ws
       (let n = fst (parse_uint 10 v)
        in if k = ''blocks'' then t\<lparr>tot_blocks := n\<rparr>
           else if k = ''hostage_blocks'' then t\<lparr>tot_hostageBlocks := n\<rparr>
           else if k = ''hostage_free_pages'' then t\<lparr>tot_hostageFreePages := n\<rparr>
           else if k = ''walk_us'' then t\<lparr>tot_walkUS := n\<rparr>
           else t)"
| "who_pairs ws t = t"

definition who_line ::
  "(string \<times> who_stat) list \<times> who_totals \<Rightarrow> string \<Rightarrow> (string \<times> who_stat) list \<times> who_totals" where
  "who_line s line =
     (let (out, tot) = s; ws = str_fields line
      in if ws = [] then (out, tot)
         else if hd ws = ''#'' then (out, who_pairs (tl ws) tot)
         else if length ws < 6 then (out, tot)
         else (AList.update (ws ! 0)
                 \<lparr>wblocks = num_at ws 2, whostageBlocks = num_at ws 4, wpages = num_at ws 1,
                  whostagePages = num_at ws 3, mobile = (ws ! 5 = ''1'')\<rparr> out,
               tot))"

text \<open>The table, nothing where the module is not loaded, and why it is missing.\<close>

definition readSlabwho ::
  "proc_fs \<Rightarrow> (string \<times> who_stat) list option \<times> who_totals \<times> string" where
  "readSlabwho proc =
     (case proc ''slabwho'' of
        None \<Rightarrow> (None, no_totals, [])
      | Some txt \<Rightarrow>
          (let (out, tot) = foldl who_line ([], no_totals) (fst (scan_lines txt))
           in if out = [] then (None, no_totals, ''/proc/slabwho is empty'')
              else (Some out, tot, [])))"

definition site_line :: "string \<Rightarrow> site_stat option" where
  "site_line line =
     (let ws = str_fields line
      in if length ws < 6 \<or> ws ! 0 \<noteq> ''@'' then None
         else Some \<lparr>site_cache = ws ! 3, site_fn = ws ! 4, site_file = ws ! 5,
                    site_objects = num_at ws 1, site_blocks = num_at ws 2\<rparr>)"

definition readSites :: "proc_fs \<Rightarrow> site_stat list" where
  "readSites proc =
     (case proc ''slabwho_sites'' of
        None \<Rightarrow> []
      | Some txt \<Rightarrow> List.map_filter site_line (fst (scan_lines txt)))"

definition hostname :: "proc_fs \<Rightarrow> string" where
  "hostname proc =
     (case proc ''sys/kernel/hostname'' of None \<Rightarrow> [] | Some txt \<Rightarrow> trim_space txt)"

section \<open>Memory ranges\<close>

text \<open>
  A line of \<^verbatim>\<open>/proc/iomem\<close>: top-level, about system memory, with two hexadecimal bounds in
  bytes. The indented lines inside a range start with a blank.
\<close>

definition ram_line :: "string \<Rightarrow> ram_range option" where
  "ram_line line =
     (if \<not> has_suffix ''System RAM'' (trim_space line) \<or> has_prefix '' '' line then None
      else
        (let s = trim_space line;
             part = (case cut '' :'' s of None \<Rightarrow> s | Some (a, _) \<Rightarrow> a)
         in case cut ''-'' part of
              None \<Rightarrow> None
            | Some (a, b) \<Rightarrow>
                (let (lo, ok1) = parse_uint 16 a; (hi, ok2) = parse_uint 16 b
                 in if \<not> ok1 \<or> \<not> ok2 then None
                    else Some \<lparr>first = unat lo div 4096, last = unat hi div 4096\<rparr>)))"

definition readRAMRanges :: "proc_fs \<Rightarrow> ram_range list go_result" where
  "readRAMRanges proc =
     (case proc ''iomem'' of
        None \<Rightarrow> Inl (IOError ''open'')
      | Some txt \<Rightarrow>
          (let (ls, ok) = scan_lines txt; out = List.map_filter ram_line ls
           in if out = [] then Inl (BadInput ''no System RAM line in /proc/iomem (needs root)'')
              else if \<not> ok then Inl (IOError ''token too long'')
              else Inr out))"

section \<open>The index of unusable free memory\<close>

lemma order_pages_nonneg: "0 \<le> order_pages ord n"
  unfolding order_pages_def by (intro f64.rnd_nonneg mult_nonneg_nonneg of_nat_0_le_iff)

lemma sum_orders_append:
  "sum_orders ord (xs @ ys) acc = sum_orders (ord + length xs) ys (sum_orders ord xs acc)"
  by (induction xs arbitrary: ord acc) simp_all

lemma sum_orders_ge: "fl acc = acc \<Longrightarrow> acc \<le> sum_orders ord ns acc"
proof (induction ns arbitrary: ord acc)
  case Nil
  then show ?case by simp
next
  case (Cons n ns)
  have "acc \<le> fl (acc + order_pages ord n)"
    using Cons.prems order_pages_nonneg [of ord n] by (intro f64.rnd_ge) simp_all
  also have "\<dots> \<le> sum_orders (ord + 1) ns (fl (acc + order_pages ord n))"
    by (intro Cons.IH) simp
  finally show ?case by simp
qed

lemma sum_orders_rounded: "fl acc = acc \<Longrightarrow> fl (sum_orders ord ns acc) = sum_orders ord ns acc"
  by (induction ns arbitrary: ord acc) simp_all

lemma sum_orders_prefix:
  assumes "i \<le> j"
  shows "sum_orders 0 (take i ns) 0 \<le> sum_orders 0 (take j ns) 0"
proof -
  have "take j ns = take i ns @ drop i (take j ns)" using assms
    by (metis append_take_drop_id min.absorb1 take_take)
  then have "sum_orders 0 (take j ns) 0 =
      sum_orders (length (take i ns)) (drop i (take j ns)) (sum_orders 0 (take i ns) 0)"
    using sum_orders_append [of 0 "take i ns" "drop i (take j ns)" 0] by simp
  then show ?thesis by (simp add: sum_orders_ge sum_orders_rounded)
qed

lemma order_pages_0_iff: "order_pages ord n = 0 \<longleftrightarrow> n = 0 \<or> 64 \<le> ord"
proof -
  have pos: "0 < fl (of_nat k) \<longleftrightarrow> 0 < k" for k by (simp add: fl_pos_iff)
  have "0 < order_pages ord n \<longleftrightarrow> 0 < unat n \<and> ord < 64"
  proof (cases "unat n = 0 \<or> 64 \<le> ord")
    case True
    then show ?thesis by (auto simp: order_pages_def unat_eq_0)
  next
    case False
    then have "0 < fl (of_nat (unat n))" "0 < fl (rat_of_nat (2 ^ ord))"
      unfolding pos by simp_all
    then have "0 < fl (of_nat (unat n)) * fl (rat_of_nat (2 ^ ord))" by (rule mult_pos_pos)
    then have "0 < order_pages ord n" using False by (simp only: order_pages_def fl_pos_iff) simp
    then show ?thesis using False by simp
  qed
  then show ?thesis using order_pages_nonneg [of ord n] by (auto simp: unat_eq_0 not_le)
qed

lemma sum_orders_0_iff:
  assumes "fl acc = acc" and "0 \<le> acc"
  shows "sum_orders ord ns acc = 0 \<longleftrightarrow> acc = 0 \<and> (\<forall>i < length ns. ord + i < 64 \<longrightarrow> ns ! i = 0)"
  using assms
proof (induction ns arbitrary: ord acc)
  case Nil
  then show ?case by simp
next
  case (Cons n ns)
  let ?p = "order_pages ord n"
  have zero: "fl (acc + ?p) = 0 \<longleftrightarrow> acc = 0 \<and> (ord < 64 \<longrightarrow> n = 0)"
    using Cons.prems order_pages_nonneg [of ord n] order_pages_0_iff [of ord n]
      fl_pos_iff [of "acc + ?p"] f64.rnd_nonneg [of "acc + ?p"] by (auto simp: not_less)
  have "sum_orders (ord + 1) ns (fl (acc + ?p)) = 0 \<longleftrightarrow>
      fl (acc + ?p) = 0 \<and> (\<forall>i < length ns. ord + 1 + i < 64 \<longrightarrow> ns ! i = 0)"
    using Cons.prems order_pages_nonneg [of ord n] by (intro Cons.IH f64.rnd_nonneg) simp_all
  then show ?case unfolding sum_orders.simps zero by (auto simp: All_less_Suc2)
qed

text \<open>
  The index of unusable free memory is there exactly when some free list of an order below
  64 is not empty. It then has one entry per order, starts at zero, never falls as the order
  grows, and stays between zero and one, whatever rounding does.
\<close>

theorem unusableIndex_monotone:
  "(unusableIndex l = None \<longleftrightarrow> (\<forall>i < length (orders l). i < 64 \<longrightarrow> orders l ! i = 0)) \<and>
   (\<forall>us. unusableIndex l = Some us \<longrightarrow>
      length us = length (orders l) \<and> us ! 0 = 0 \<and> sorted us \<and> (\<forall>u \<in> set us. 0 \<le> u \<and> u \<le> 1))"
proof (intro conjI allI impI ballI)
  let ?s = "\<lambda>i. sum_orders 0 (take i (orders l)) 0"
  let ?tot = "sum_orders 0 (orders l) 0"
  show "unusableIndex l = None \<longleftrightarrow> (\<forall>i < length (orders l). i < 64 \<longrightarrow> orders l ! i = 0)"
    using sum_orders_0_iff [of 0 0 "orders l"] by (simp add: unusableIndex_def)
  fix us
  assume us: "unusableIndex l = Some us"
  then have nz: "?tot \<noteq> 0" and eq: "us = map (\<lambda>i. fl (?s i / ?tot)) [0 ..< length (orders l)]"
    by (auto simp: unusableIndex_def Let_def split: if_splits)
  have tot: "0 \<le> ?tot" using sum_orders_ge [of 0 0 "orders l"] by simp
  show "length us = length (orders l)" by (simp add: eq)
  have "orders l \<noteq> []" using nz by auto
  then show "us ! 0 = 0" by (simp add: eq)
  have "fl (?s i / ?tot) \<le> fl (?s j / ?tot)" if "i \<le> j" for i j
    using sum_orders_prefix [OF that, of "orders l"] tot by (intro fl_mono divide_right_mono)
  then show "sorted us" by (auto simp: eq sorted_iff_nth_mono)
  fix u
  assume "u \<in> set us"
  then obtain i where i: "i < length (orders l)" "u = fl (?s i / ?tot)" by (auto simp: eq)
  have "0 \<le> ?s i" using sum_orders_prefix [of 0 i "orders l"] by simp
  moreover have "?s i \<le> ?tot" using sum_orders_prefix [of i "length (orders l)" "orders l"] i by simp
  ultimately show "0 \<le> u" "u \<le> 1" using f64.rnd_quotient [of "?s i" ?tot] by (simp_all add: i)
qed

lemma unusableIndex_monotone_witness:
  "unusableIndex \<lparr>orders = [0, 0, 3], maxOrder = 2\<rparr> \<noteq> None \<and>
   list_all (\<lambda>u. u \<le> 1) (the (unusableIndex \<lparr>orders = [0, 0, 3], maxOrder = 2\<rparr>))"
proof -
  let ?l = "\<lparr>orders = [0, 0, 3], maxOrder = 2\<rparr>"
  have "orders ?l ! 2 \<noteq> 0" "(2::nat) < length (orders ?l)" "(2::nat) < 64" by simp_all
  then have "unusableIndex ?l \<noteq> None" using unusableIndex_monotone [of ?l] by blast
  then obtain us where "unusableIndex ?l = Some us" by blast
  then show ?thesis using unusableIndex_monotone [of ?l] by (auto simp: list_all_iff)
qed

section \<open>Adding up the zones\<close>

definition order_at :: "u64 list \<Rightarrow> nat \<Rightarrow> u64" where
  "order_at os i = (if i < length os then os ! i else 0)"

lemma add_order_at: "order_at (add_order i n os) j = order_at os j + (if j = i then n else 0)"
  by (auto simp: order_at_def add_order_def Let_def nth_list_update nth_append)

lemma length_add_order: "length (add_order i n os) = max (length os) (i + 1)"
  by (simp add: add_order_def Let_def)

lemma add_orders_at:
  "order_at (add_orders i (map (\<lambda>c. decimal (unat c)) cs) os) j =
     order_at os j + (if i \<le> j \<and> j - i < length cs then cs ! (j - i) else 0)"
proof (induction cs arbitrary: i os)
  case Nil
  then show ?case by simp
next
  case (Cons c cs)
  have "j = i \<or> j < i \<or> (\<exists>d. j = i + 1 + d)" by presburger
  then show ?case by (auto simp: Cons.IH add_order_at)
qed

lemma length_add_orders:
  "length (add_orders i (map (\<lambda>c. decimal (unat c)) cs) os) =
     (if cs = [] then length os else max (length os) (i + length cs))" for cs :: "u64 list"
  by (induction cs arbitrary: i os) (auto simp: length_add_order)

text \<open>A line of \<^verbatim>\<open>/proc/buddyinfo\<close> for a zone with these free counts.\<close>

definition zone_line :: "string \<Rightarrow> u64 list \<Rightarrow> bool" where
  "zone_line l cs \<longleftrightarrow>
     (\<exists>node n z. str_fields l = node # n # ''zone'' # z # map (\<lambda>c. decimal (unat c)) cs \<and>
       node \<noteq> ''zone'' \<and> n \<noteq> ''zone'')"

lemma buddy_zone_line:
  "zone_line l cs \<Longrightarrow> buddy_line os l = add_orders 0 (map (\<lambda>c. decimal (unat c)) cs) os"
  by (auto simp: zone_line_def buddy_line_def Let_def numeral_eq_Suc)

lemma buddy_lines:
  "list_all2 zone_line ls zs \<Longrightarrow>
     order_at (foldl buddy_line os ls) i = order_at os i + (\<Sum>cs\<leftarrow>zs. order_at cs i) \<and>
     length (foldl buddy_line os ls) = foldl max (length os) (map length zs)"
proof (induction ls zs arbitrary: os rule: list_all2_induct)
  case Nil
  then show ?case by simp
next
  case (Cons l ls cs zs)
  have "order_at (add_orders 0 (map (\<lambda>c. decimal (unat c)) cs) os) i = order_at os i + order_at cs i"
    unfolding add_orders_at by (simp add: order_at_def)
  then show ?case
    using Cons.IH [of "buddy_line os l"] Cons.hyps(1)
    by (cases "cs = []") (simp_all add: buddy_zone_line length_add_orders)
qed

text \<open>
  C19. The free lists are added up over the zones: for a file with one line per zone the ladder
  is as long as the longest line and every order has the sum of its free counts, modulo
  \<open>2 ^ 64\<close>.
\<close>

theorem readBuddyinfo_sums:
  assumes "proc ''buddyinfo'' = Some txt" and "scan_lines txt = (ls, True)"
    and "list_all2 zone_line ls zs"
  shows "\<exists>l. readBuddyinfo proc = (l, None) \<and>
    length (orders l) = foldl max 0 (map length zs) \<and> maxOrder l = int (length (orders l)) - 1 \<and>
    (\<forall>i < length (orders l). orders l ! i = (\<Sum>cs\<leftarrow>zs. if i < length cs then cs ! i else 0))"
proof -
  let ?os = "foldl buddy_line [] ls"
  have "?os ! i = (\<Sum>cs\<leftarrow>zs. if i < length cs then cs ! i else 0)" if "i < length ?os" for i
    using buddy_lines [OF assms(3), of "[]" i] that by (simp add: order_at_def)
  moreover have "length ?os = foldl max 0 (map length zs)"
    using buddy_lines [OF assms(3), of "[]"] by simp
  ultimately show ?thesis using assms(1,2) by (simp add: readBuddyinfo_def scan_err_def)
qed

definition two_zones :: "string list" where
  "two_zones = map spaced
     [[''Node'', ''0,'', ''zone'', ''DMA'', decimal 1, decimal 0],
      [''Node'', ''0,'', ''zone'', ''Normal'', decimal 7, decimal 3, decimal 2]]"

lemma readBuddyinfo_sums_witness:
  "orders (fst (readBuddyinfo (\<lambda>_. Some (unlines two_zones)))) = [8, 3, 2]"
proof -
  have words: "list_all word_ok [''Node'', ''0,'', ''zone'', ''DMA'', ''Normal'']"
    by (simp add: word_ok_def is_space_def)
  have line: "zone_line (spaced (''Node'' # ''0,'' # ''zone'' # z # map (\<lambda>c. decimal (unat c)) cs)) cs"
    if "word_ok z" for z and cs :: "u64 list"
  proof -
    have F: "str_fields (spaced (''Node'' # ''0,'' # ''zone'' # z # map (\<lambda>c. decimal (unat c)) cs)) =
        ''Node'' # ''0,'' # ''zone'' # z # map (\<lambda>c. decimal (unat c)) cs"
      by (rule fields_spaced) (use words that in \<open>simp add: list_all_iff decimal_word\<close>)
    show ?thesis unfolding zone_line_def F by simp
  qed
  have "list_all2 zone_line two_zones [[1, 0], [7, 3, 2]]"
    using line [of "''DMA''" "[1, 0]"] line [of "''Normal''" "[7, 3, 2]"] words
    by (simp add: two_zones_def)
  moreover have "list_all line_ok two_zones"
    by (simp add: two_zones_def line_ok_def decimal.simps)
  then have "scan_lines (unlines two_zones) = (two_zones, True)" by (rule scan_unlines)
  ultimately obtain l where l: "readBuddyinfo (\<lambda>_. Some (unlines two_zones)) = (l, None)"
    "length (orders l) = 3"
    "\<forall>i < length (orders l). orders l ! i =
      (\<Sum>cs\<leftarrow>[[1, 0], [7, 3, 2]]. if i < length cs then cs ! i else 0)"
    using readBuddyinfo_sums [of "\<lambda>_. Some (unlines two_zones)" "unlines two_zones" two_zones
      "[[1, 0], [7, 3, 2]]"] by auto
  have "orders l = map (\<lambda>i. orders l ! i) [0 ..< 3]" using l(2) map_nth [of "orders l"] by simp
  also have "\<dots> = map (\<lambda>i. \<Sum>cs\<leftarrow>[[1, 0], [7, 3, 2]]. if i < length cs then cs ! i else 0) [0 ..< 3]"
    using l(2,3) by (intro map_cong) auto
  also have "\<dots> = [8, 3, 2]" by (simp add: upt_rec)
  finally have "orders l = [8, 3, 2]" .
  then show ?thesis by (simp add: l)
qed

section \<open>What the module prints\<close>

text \<open>
  \<^verbatim>\<open>slabwho_show\<close> of \<^verbatim>\<open>packages/slabwho/slabwho.c\<close>: two lines of totals, then one line per
  cache, whose last number fragview does not use.
\<close>

definition show_totals :: "who_totals \<Rightarrow> nat \<Rightarrow> nat \<Rightarrow> string" where
  "show_totals t hostage_max age =
     spaced [''#'', ''blocks'', decimal (unat (tot_blocks t)),
       ''hostage_blocks'', decimal (unat (tot_hostageBlocks t)),
       ''hostage_free_pages'', decimal (unat (tot_hostageFreePages t)),
       ''hostage_max'', decimal hostage_max, ''age_ms'', decimal age,
       ''walk_us'', decimal (unat (tot_walkUS t))]"

definition show_pinned :: "nat \<Rightarrow> nat \<Rightarrow> nat \<Rightarrow> nat \<Rightarrow> nat \<Rightarrow> string" where
  "show_pinned one two three nonslab all_mobile =
     spaced [''#'', ''pinned_by_one'', decimal one, ''pinned_by_two'', decimal two,
       ''pinned_by_more'', decimal three, ''nonslab'', decimal nonslab,
       ''all_mobile'', decimal all_mobile]"

definition show_cache :: "string \<times> who_stat \<times> nat \<Rightarrow> string" where
  "show_cache row =
     (let (nm, st, solo) = row
      in spaced [nm, decimal (unat (wpages st)), decimal (unat (wblocks st)),
           decimal (unat (whostagePages st)), decimal (unat (whostageBlocks st)),
           (if mobile st then ''1'' else ''0''), decimal solo])"

lemma ascii_words [simp]:
  "word_ok ''#''" "word_ok ''blocks''" "word_ok ''hostage_blocks''" "word_ok ''hostage_free_pages''"
  "word_ok ''hostage_max''" "word_ok ''age_ms''" "word_ok ''walk_us''" "word_ok ''pinned_by_one''"
  "word_ok ''pinned_by_two''" "word_ok ''pinned_by_more''" "word_ok ''nonslab''"
  "word_ok ''all_mobile''" "word_ok ''0''" "word_ok ''1''"
  by (simp_all add: word_ok_def is_space_def)

lemma fields_totals: "str_fields (show_totals t x age) =
    [''#'', ''blocks'', decimal (unat (tot_blocks t)),
       ''hostage_blocks'', decimal (unat (tot_hostageBlocks t)),
       ''hostage_free_pages'', decimal (unat (tot_hostageFreePages t)),
       ''hostage_max'', decimal x, ''age_ms'', decimal age,
       ''walk_us'', decimal (unat (tot_walkUS t))]"
  unfolding show_totals_def by (rule fields_spaced) (simp add: decimal_word)

lemma fields_pinned: "str_fields (show_pinned a b c d e) =
    [''#'', ''pinned_by_one'', decimal a, ''pinned_by_two'', decimal b,
       ''pinned_by_more'', decimal c, ''nonslab'', decimal d, ''all_mobile'', decimal e]"
  unfolding show_pinned_def by (rule fields_spaced) (simp add: decimal_word)

lemma fields_cache:
  "word_ok nm \<Longrightarrow> str_fields (show_cache (nm, st, solo)) =
    [nm, decimal (unat (wpages st)), decimal (unat (wblocks st)),
       decimal (unat (whostagePages st)), decimal (unat (whostageBlocks st)),
       (if mobile st then ''1'' else ''0''), decimal solo]"
  unfolding show_cache_def Let_def prod.case by (rule fields_spaced) (simp add: decimal_word)

lemma who_line_totals:
  "who_line (out, no_totals) (show_totals t x age) = (out, t)"
  by (cases t) (simp add: who_line_def fields_totals Let_def no_totals_def)

lemma who_line_pinned: "who_line (out, t) (show_pinned a b c d e) = (out, t)"
  by (simp add: who_line_def fields_pinned Let_def)

lemma who_line_cache:
  "word_ok nm \<Longrightarrow> nm \<noteq> ''#'' \<Longrightarrow>
     who_line (out, t) (show_cache (nm, st, solo)) = (AList.update nm st out, t)"
  by (cases st) (simp add: who_line_def fields_cache Let_def num_at_def)

lemma update_fresh: "k \<notin> fst ` set xs \<Longrightarrow> AList.update k v xs = xs @ [(k, v)]"
  by (induction xs) auto

definition rows_ok :: "(string \<times> who_stat \<times> nat) list \<Rightarrow> bool" where
  "rows_ok rows \<longleftrightarrow> distinct (map fst rows) \<and> list_all (\<lambda>r. word_ok (fst r) \<and> fst r \<noteq> ''#'') rows"

lemma who_lines_caches:
  "rows_ok rows \<Longrightarrow> fst ` set out \<inter> fst ` set rows = {} \<Longrightarrow>
     foldl who_line (out, t) (map show_cache rows) = (out @ map (\<lambda>(nm, st, solo). (nm, st)) rows, t)"
proof (induction rows arbitrary: out)
  case Nil
  then show ?case by simp
next
  case (Cons r rows)
  obtain nm st solo where r: "r = (nm, st, solo)" by (cases r)
  have "who_line (out, t) (show_cache r) = (out @ [(nm, st)], t)"
    using Cons.prems by (simp add: r rows_ok_def who_line_cache update_fresh)
  moreover have "rows_ok rows" "fst ` set (out @ [(nm, st)]) \<inter> fst ` set rows = {}"
    using Cons.prems by (auto simp: r rows_ok_def)
  ultimately show ?case using Cons.IH [of "out @ [(nm, st)]"] by (simp add: r)
qed

text \<open>
  The reader understands the module: from the file the module prints for a table of caches,
  under names that are single words and not a lone hash sign, the reader gets back that
  table, with every number of every cache, and the totals of the walk.
\<close>

theorem readSlabwho_reads_module:
  assumes "rows_ok rows" and "rows \<noteq> []"
    and "ls = show_totals t x age # show_pinned a b c d e # map show_cache rows"
    and "list_all line_ok ls" and "proc ''slabwho'' = Some (unlines ls)"
  shows "readSlabwho proc = (Some (map (\<lambda>(nm, st, solo). (nm, st)) rows), t, [])"
  using assms who_lines_caches [of rows "[]" t] scan_unlines [of ls]
  by (simp add: readSlabwho_def who_line_totals who_line_pinned)

definition sample_rows :: "(string \<times> who_stat \<times> nat) list" where
  "sample_rows = [(''dentry'', no_who\<lparr>wpages := 40, wblocks := 9\<rparr>, 1), (''dnode_t'', no_who, 0)]"

lemma readSlabwho_reads_module_witness:
  "readSlabwho (\<lambda>_. Some (unlines (show_totals no_totals 64 5 # show_pinned 0 0 0 0 0 #
      map show_cache sample_rows))) =
    (Some [(''dentry'', no_who\<lparr>wpages := 40, wblocks := 9\<rparr>), (''dnode_t'', no_who)], no_totals, [])"
proof -
  have "rows_ok sample_rows"
    by (simp add: rows_ok_def sample_rows_def word_ok_def is_space_def)
  moreover have "list_all line_ok (show_totals no_totals 64 5 # show_pinned 0 0 0 0 0 #
      map show_cache sample_rows)"
    by (simp add: show_totals_def show_pinned_def show_cache_def sample_rows_def no_totals_def
      no_who_def line_ok_def decimal.simps)
  ultimately show ?thesis
    using readSlabwho_reads_module [of sample_rows _ no_totals 64 5 0 0 0 0 0
      "\<lambda>_. Some (unlines (show_totals no_totals 64 5 # show_pinned 0 0 0 0 0 #
        map show_cache sample_rows))"]
    by (simp add: sample_rows_def)
qed

end
