(* ===== verification/Merge.thy ===== *)
theory Merge
  imports Stats "HOL-Library.List_Lexorder"
begin

text \<open>
  Merged slab caches, \<^verbatim>\<open>packages/fragview/merge.go\<close>: which cache names stand for one
  \<^verbatim>\<open>kmem_cache\<close>, the label of a merged cache and the legend that spells the sets out, and the
  order of the slab table (\<^verbatim>\<open>sortedSlabs\<close> of \<^verbatim>\<open>render.go\<close>).
\<close>

section \<open>Loading the aliases\<close>

text \<open>\<^verbatim>\<open>filepath.Base\<close>.\<close>

definition base_name :: "string \<Rightarrow> string" where
  "base_name p =
     (if p = [] then ''.''
      else
        (let q = rev (dropWhile (\<lambda>c. c = CHR ''/'') (rev p))
         in if q = [] then ''/'' else rev (takeWhile (\<lambda>c. c \<noteq> CHR ''/'') (rev q))))"

type_synonym groups = "(string \<times> string list) list"

text \<open>\<^verbatim>\<open>byGroup[g] = append(byGroup[g], name)\<close>.\<close>

definition add_member :: "string \<times> string \<Rightarrow> groups \<Rightarrow> groups" where
  "add_member nt gs =
     (let (name, target) = nt; g = base_name target
      in AList.update g ((case map_of gs g of None \<Rightarrow> [] | Some ms \<Rightarrow> ms) @ [name]) gs)"

text \<open>
  An entry of \<^verbatim>\<open>/sys/kernel/slab\<close>: its name, whether it is a symbolic link, and where the link
  points if it can be read.
\<close>

record dir_entry =
  ename :: string
  symlink :: bool
  linkTarget :: "string option"

definition dir_member :: "dir_entry \<Rightarrow> (string \<times> string) option" where
  "dir_member e =
     (if \<not> symlink e then None else map_option (\<lambda>t. (ename e, t)) (linkTarget e))"

definition merge_line :: "string \<Rightarrow> (string \<times> string) option" where
  "merge_line line = (case str_fields line of [n, t] \<Rightarrow> Some (n, t) | _ \<Rightarrow> None)"

text \<open>
  The members come from the running kernel, or from a captured list where another root is
  read. Nothing where neither can be read.
\<close>

definition alias_members ::
  "bool \<Rightarrow> dir_entry list option \<Rightarrow> proc_fs \<Rightarrow> (string \<times> string) list option" where
  "alias_members live ents proc =
     (if live then map_option (List.map_filter dir_member) ents
      else map_option (\<lambda>txt. List.map_filter merge_line (fst (scan_lines txt))) (proc ''slabmerge''))"

text \<open>
  The table from a name to all names of its group, for groups of two and more. The order in
  which Go visits the groups does not matter as long as no name is in two of them.
\<close>

definition alias_step :: "groups \<Rightarrow> string \<times> string list \<Rightarrow> groups" where
  "alias_step out g =
     (if length (snd g) < 2 then out
      else foldl (\<lambda>out nm. AList.update nm (sort (snd g)) out) out (sort (snd g)))"

definition alias_table :: "groups \<Rightarrow> groups" where
  "alias_table gs = foldl alias_step [] gs"

definition loadCacheAliases ::
  "bool \<Rightarrow> dir_entry list option \<Rightarrow> proc_fs \<Rightarrow> groups option" where
  "loadCacheAliases live ents proc =
     (case alias_members live ents proc of
        None \<Rightarrow> None
      | Some ms \<Rightarrow>
          (let out = alias_table (foldl (\<lambda>gs m. add_member m gs) [] ms)
           in if out = [] then None else Some out))"

section \<open>Labels\<close>

text \<open>\<^verbatim>\<open>cacheAliases[name]\<close>: an absent table and an absent name read as the empty list.\<close>

definition aliases_of :: "groups option \<Rightarrow> string \<Rightarrow> string list" where
  "aliases_of al name =
     (case al of None \<Rightarrow> [] | Some t \<Rightarrow> (case map_of t name of None \<Rightarrow> [] | Some a \<Rightarrow> a))"

function itoa_loop :: "int \<Rightarrow> string \<Rightarrow> string" where
  "itoa_loop n b = (if n \<le> 0 then b else itoa_loop (n div 10) (digit (nat (n mod 10)) # b))"
  by pat_completeness auto
termination
  by (relation "measure (nat \<circ> fst)") auto

declare itoa_loop.simps [simp del]

definition itoa :: "int \<Rightarrow> string" where
  "itoa n = (if n = 0 then ''0'' else itoa_loop n [])"

definition cacheLabel :: "groups option \<Rightarrow> string \<Rightarrow> string" where
  "cacheLabel al name =
     (let a = aliases_of al name
      in if length a < 2 then name else name @ ''+'' @ itoa (int (length a) - 1))"

section \<open>The legend\<close>

fun legend_lines :: "groups option \<Rightarrow> string list \<Rightarrow> string list \<Rightarrow> string list" where
  "legend_lines al seen [] = []"
| "legend_lines al seen (n # ns) =
     (let a = aliases_of al n
      in if length a < 2 \<or> hd a \<in> set seen then legend_lines al seen ns
         else (''  '' @ cacheLabel al n @ ''  '' @ spaced a) # legend_lines al (hd a # seen) ns)"

text \<open>The lines of \<^verbatim>\<open>aliasLegend\<close> under its two lines of explanation.\<close>

definition aliasLegend :: "groups option \<Rightarrow> string list \<Rightarrow> string list" where
  "aliasLegend al shown = legend_lines al [] shown"

text \<open>
  The inner loop of \<^verbatim>\<open>aliasLines\<close>: the members of one set, broken over lines. It returns from
  the whole routine when the lines are used up.
\<close>

fun wrap_names ::
  "nat \<Rightarrow> nat \<Rightarrow> string list \<Rightarrow> string list \<Rightarrow> string \<Rightarrow> string list + string list \<times> string" where
  "wrap_names width mx [] out line = Inr (out, line)"
| "wrap_names width mx (nm # ns) out line =
     (if length line + 1 + length nm > width then
        (if mx \<le> length (out @ [line]) then Inl (out @ [line])
         else wrap_names width mx ns (out @ [line]) (''     '' @ '' '' @ nm))
      else wrap_names width mx ns out (line @ '' '' @ nm))"

fun alias_loop ::
  "groups option \<Rightarrow> nat \<Rightarrow> nat \<Rightarrow> string list \<Rightarrow> string list \<Rightarrow> string list \<Rightarrow> string list" where
  "alias_loop al width mx seen out [] = out"
| "alias_loop al width mx seen out (n # ns) =
     (let a = aliases_of al n
      in if length a < 2 \<or> hd a \<in> set seen \<or> mx \<le> length out then alias_loop al width mx seen out ns
         else
           (case wrap_names width mx a out ('' '' @ cacheLabel al n @ '' ='') of
              Inl r \<Rightarrow> r
            | Inr (out', line) \<Rightarrow> alias_loop al width mx (hd a # seen) (out' @ [line]) ns))"

definition aliasLines :: "groups option \<Rightarrow> string list \<Rightarrow> nat \<Rightarrow> nat \<Rightarrow> string list" where
  "aliasLines al shown width mx = alias_loop al width mx [] [] shown"

text \<open>\<^verbatim>\<open>trunc\<close>, with the three bytes of the ellipsis.\<close>

definition trunc :: "string \<Rightarrow> nat \<Rightarrow> string" where
  "trunc s n = (if length s \<le> n then s else take (n - 1) s @ [CHR 0xE2, CHR 0x80, CHR 0xA6])"

section \<open>The order of the slab table\<close>

definition who_of :: "(string \<times> who_stat) list option \<Rightarrow> string \<Rightarrow> who_stat" where
  "who_of who name =
     (case who of None \<Rightarrow> no_who | Some t \<Rightarrow> (case map_of t name of None \<Rightarrow> no_who | Some w \<Rightarrow> w))"

text \<open>The four orders of \<^verbatim>\<open>slabSorts\<close>.\<close>

fun slab_less :: "nat \<Rightarrow> slab_cache \<Rightarrow> slab_cache \<Rightarrow> who_stat \<Rightarrow> who_stat \<Rightarrow> bool" where
  "slab_less 0 a b wa wb =
     (if whostagePages wa \<noteq> whostagePages wb then whostagePages wa > whostagePages wb
      else wblocks wa > wblocks wb)"
| "slab_less (Suc 0) a b wa wb =
     (if wblocks wa \<noteq> wblocks wb then wblocks wa > wblocks wb
      else whostagePages wa > whostagePages wb)"
| "slab_less (Suc (Suc 0)) a b wa wb = (wasted a > wasted b)"
| "slab_less (Suc (Suc (Suc k))) a b wa wb = (slab_bytes a > slab_bytes b)"

definition sortedSlabs ::
  "int \<Rightarrow> (string \<times> who_stat) list option \<Rightarrow> slab_cache list \<Rightarrow> slab_cache list go_result" where
  "sortedSlabs order who cs =
     (let out = filter (\<lambda>c. \<not> (who \<noteq> None \<and> wblocks (who_of who (sname c)) = 0)) cs;
          k = order smod 4
      in if k < 0 then Inl SliceOutOfRange
         else Inr (slice_isort
                (\<lambda>a b. slab_less (nat k) a b (who_of who (sname a)) (who_of who (sname b))) out))"

section \<open>What the legend keeps to\<close>

lemma wrap_names_Inl:
  "wrap_names width mx ns out line = Inl r \<Longrightarrow> length out < mx \<Longrightarrow> length r \<le> mx"
  by (induction ns arbitrary: out line) (auto split: if_splits)

lemma wrap_names_Inr:
  "wrap_names width mx ns out line = Inr (out', line') \<Longrightarrow> length out < mx \<Longrightarrow> length out' < mx"
  by (induction ns arbitrary: out line) (auto split: if_splits)

lemma wrap_names_width:
  assumes "\<forall>l \<in> set out. length l \<le> width" and "length line \<le> width"
    and "\<forall>nm \<in> set ns. 6 + length nm \<le> width"
  shows "case wrap_names width mx ns out line of
      Inl r \<Rightarrow> \<forall>l \<in> set r. length l \<le> width
    | Inr (out', line') \<Rightarrow> (\<forall>l \<in> set out'. length l \<le> width) \<and> length line' \<le> width"
  using assms
proof (induction ns arbitrary: out line)
  case Nil
  then show ?case by simp
next
  case (Cons nm ns)
  consider (new) "length line + 1 + length nm > width" "\<not> mx \<le> length (out @ [line])"
    | (stop) "length line + 1 + length nm > width" "mx \<le> length (out @ [line])"
    | (fits) "length line + 1 + length nm \<le> width" by linarith
  then show ?case
  proof cases
    case new
    then have eq: "wrap_names width mx (nm # ns) out line =
        wrap_names width mx ns (out @ [line]) (''     '' @ '' '' @ nm)" by simp
    show ?thesis unfolding eq by (rule Cons.IH) (use Cons.prems in auto)
  next
    case stop
    then have eq: "wrap_names width mx (nm # ns) out line = Inl (out @ [line])" by simp
    show ?thesis unfolding eq using Cons.prems by simp
  next
    case fits
    then have eq: "wrap_names width mx (nm # ns) out line =
        wrap_names width mx ns out (line @ '' '' @ nm)" by simp
    show ?thesis unfolding eq by (rule Cons.IH) (use Cons.prems fits in auto)
  qed
qed

definition legend_fits :: "groups option \<Rightarrow> string list \<Rightarrow> nat \<Rightarrow> bool" where
  "legend_fits al shown width \<longleftrightarrow>
     (\<forall>n \<in> set shown. length (cacheLabel al n) + 3 \<le> width \<and>
       (\<forall>nm \<in> set (aliases_of al n). 6 + length nm \<le> width))"

lemma alias_loop_length:
  "length out \<le> mx \<Longrightarrow> length (alias_loop al width mx seen out ns) \<le> mx"
proof (induction ns arbitrary: seen out)
  case Nil
  then show ?case by simp
next
  case (Cons n ns)
  let ?w = "wrap_names width mx (aliases_of al n) out ('' '' @ cacheLabel al n @ '' ='')"
  show ?case
  proof (cases "length out < mx")
    case True
    then show ?thesis
      using Cons wrap_names_Inl [of width mx "aliases_of al n" out] wrap_names_Inr [of width mx "aliases_of al n" out]
      by (fastforce simp: Let_def Suc_le_eq split: sum.splits)
  next
    case False
    then show ?thesis using Cons by (simp add: Let_def)
  qed
qed

lemma alias_loop_width:
  "legend_fits al ns width \<Longrightarrow> \<forall>l \<in> set out. length l \<le> width \<Longrightarrow>
     \<forall>l \<in> set (alias_loop al width mx seen out ns). length l \<le> width"
proof (induction ns arbitrary: seen out)
  case Nil
  then show ?case by simp
next
  case (Cons n ns)
  let ?line = "'' '' @ cacheLabel al n @ '' =''"
  have fits: "legend_fits al ns width" using Cons.prems(1) by (simp add: legend_fits_def)
  have W: "case wrap_names width mx (aliases_of al n) out ?line of
      Inl r \<Rightarrow> \<forall>l \<in> set r. length l \<le> width
    | Inr (out', line') \<Rightarrow> (\<forall>l \<in> set out'. length l \<le> width) \<and> length line' \<le> width"
    using Cons.prems by (intro wrap_names_width) (auto simp: legend_fits_def)
  let ?a = "aliases_of al n"
  show ?case
  proof (cases "length ?a < 2 \<or> hd ?a \<in> set seen \<or> mx \<le> length out")
    case True
    then have "alias_loop al width mx seen out (n # ns) = alias_loop al width mx seen out ns"
      by (simp add: Let_def)
    then show ?thesis using Cons.IH [OF fits Cons.prems(2)] by simp
  next
    case False
    show ?thesis
    proof (cases "wrap_names width mx ?a out ?line")
      case (Inl r)
      then have "alias_loop al width mx seen out (n # ns) = r"
        using False by (simp add: Let_def)
      then show ?thesis using W Inl by simp
    next
      case (Inr p)
      then have eq: "alias_loop al width mx seen out (n # ns) =
          alias_loop al width mx (hd ?a # seen) (fst p @ [snd p]) ns"
        using False by (simp add: Let_def case_prod_beta')
      have "\<forall>l \<in> set (fst p @ [snd p]). length l \<le> width"
        using W Inr by (auto simp: case_prod_beta')
      then show ?thesis unfolding eq by (rule Cons.IH [OF fits])
    qed
  qed
qed

text \<open>
  The legend stays in its place: it never takes more lines than it was given, and no line
  is wider than the pane as long as the label of every cache shown, and every alias on a line
  of its own, fit into it.
\<close>

theorem aliasLines_fits:
  "length (aliasLines al shown width mx) \<le> mx \<and>
   (legend_fits al shown width \<longrightarrow> (\<forall>l \<in> set (aliasLines al shown width mx). length l \<le> width))"
  using alias_loop_length [of "[]" mx al width "[]" shown] alias_loop_width [of al shown width "[]" mx "[]"]
  by (simp add: aliasLines_def)

definition sample_aliases :: groups where
  "sample_aliases = [(''kmalloc-64'', [''dnode_cache'', ''kmalloc-64'', ''vm_area'']),
     (''vm_area'', [''dnode_cache'', ''kmalloc-64'', ''vm_area''])]"

lemma aliasLines_fits_witness:
  "list_all (\<lambda>l. length l \<le> 18) (aliasLines (Some sample_aliases) [''kmalloc-64'', ''vm_area''] 18 3)"
proof -
  have "legend_fits (Some sample_aliases) [''kmalloc-64'', ''vm_area''] 18"
    by (simp add: legend_fits_def aliases_of_def sample_aliases_def cacheLabel_def itoa_def
      itoa_loop.simps)
  then show ?thesis unfolding list_all_iff using aliasLines_fits by blast
qed

section \<open>Groups\<close>

definition group_of :: "(string \<times> string) list \<Rightarrow> string \<Rightarrow> string list" where
  "group_of ms g = map fst (filter (\<lambda>p. base_name (snd p) = g) ms)"

definition as_list :: "string list option \<Rightarrow> string list" where
  "as_list r = (case r of None \<Rightarrow> [] | Some xs \<Rightarrow> xs)"

lemma add_members_groups:
  "as_list (map_of (foldl (\<lambda>gs p. add_member p gs) gs ms) g) = as_list (map_of gs g) @ group_of ms g"
proof (induction ms arbitrary: gs)
  case Nil
  show ?case by (simp add: group_of_def)
next
  case (Cons p ms)
  have "as_list (map_of (add_member p gs) g) =
      as_list (map_of gs g) @ (if base_name (snd p) = g then [fst p] else [])"
    by (cases p) (auto simp: add_member_def Let_def as_list_def update_conv' split: option.splits)
  then show ?case using Cons.IH [of "add_member p gs"] by (simp add: group_of_def)
qed

lemma add_members_distinct:
  "distinct (map fst gs) \<Longrightarrow> distinct (map fst (foldl (\<lambda>gs p. add_member p gs) gs ms))"
  by (induction ms arbitrary: gs) (simp_all add: add_member_def Let_def case_prod_beta' distinct_update)

lemma add_members_mem:
  assumes "(g, xs) \<in> set (foldl (\<lambda>gs p. add_member p gs) [] ms)"
  shows "xs = group_of ms g"
proof -
  have "distinct (map fst (foldl (\<lambda>gs p. add_member p gs) [] ms))" by (rule add_members_distinct) simp
  then have "map_of (foldl (\<lambda>gs p. add_member p gs) [] ms) g = Some xs" using assms by simp
  then show ?thesis using add_members_groups [of "[]" ms g] by (simp add: as_list_def)
qed

lemma update_members:
  "map_of (foldl (\<lambda>out nm. AList.update nm v out) out ns) n =
     (if n \<in> set ns then Some v else map_of out n)"
  by (induction ns arbitrary: out) (auto simp: update_conv')

text \<open>Every name is in one group only.\<close>

definition one_group :: "groups \<Rightarrow> string \<Rightarrow> string list \<Rightarrow> bool" where
  "one_group gs n xs \<longleftrightarrow> (\<forall>g \<in> set gs. n \<in> set (snd g) \<longrightarrow> snd g = xs)"

lemma alias_step_lookup:
  "map_of (alias_step out g) n =
    (if 2 \<le> length (snd g) \<and> n \<in> set (snd g) then Some (sort (snd g)) else map_of out n)"
  by (simp add: alias_step_def update_members)

lemma alias_steps_lookup:
  "one_group gs n xs \<Longrightarrow> map_of (foldl alias_step out gs) n =
    (if 2 \<le> length xs \<and> (\<exists>g \<in> set gs. n \<in> set (snd g)) then Some (sort xs) else map_of out n)"
proof (induction gs arbitrary: out)
  case Nil
  then show ?case by simp
next
  case (Cons g gs)
  have one: "one_group gs n xs" using Cons.prems by (simp add: one_group_def)
  note IH = Cons.IH [OF one, of "alias_step out g"]
  show ?case
  proof (cases "n \<in> set (snd g)")
    case True
    then have "snd g = xs" using Cons.prems by (simp add: one_group_def)
    then show ?thesis using IH True by (simp add: alias_step_lookup)
  next
    case False
    then show ?thesis using IH by (auto simp: alias_step_lookup)
  qed
qed

lemma alias_table_lookup:
  "one_group gs n xs \<Longrightarrow> map_of (alias_table gs) n =
    (if 2 \<le> length xs \<and> (\<exists>g \<in> set gs. n \<in> set (snd g)) then Some (sort xs) else None)"
  unfolding alias_table_def by (simp add: alias_steps_lookup)

text \<open>
  A name knows the caches it shares a \<^verbatim>\<open>kmem_cache\<close> with: with every name listed once, the
  aliases of a listed name are all names whose link points to the same cache, sorted, when
  there are at least two, and none otherwise; a name that is not listed has none.
\<close>

theorem loadCacheAliases_groups:
  assumes "alias_members live ents proc = Some ms" and "distinct (map fst ms)"
  shows "aliases_of (loadCacheAliases live ents proc) n =
    (case map_of ms n of
       None \<Rightarrow> []
     | Some t \<Rightarrow> (let g = group_of ms (base_name t) in if length g < 2 then [] else sort g))"
proof -
  let ?gs = "foldl (\<lambda>gs p. add_member p gs) [] ms"
  have out: "aliases_of (loadCacheAliases live ents proc) n = as_list (map_of (alias_table ?gs) n)"
    using assms(1) by (simp add: loadCacheAliases_def aliases_of_def as_list_def Let_def)
  have in_group: "n \<in> set (group_of ms g) \<longleftrightarrow> (\<exists>t. map_of ms n = Some t \<and> base_name t = g)" for g
    using assms(2) by (force simp: group_of_def)
  have mem: "(\<exists>p \<in> set ?gs. n \<in> set (snd p)) \<longleftrightarrow> map_of ms n \<noteq> None"
  proof
    assume "\<exists>p \<in> set ?gs. n \<in> set (snd p)"
    then show "map_of ms n \<noteq> None" using add_members_mem in_group by fastforce
  next
    assume "map_of ms n \<noteq> None"
    then obtain t where "map_of ms n = Some t" by blast
    then have n: "n \<in> set (group_of ms (base_name t))" using in_group by blast
    have "as_list (map_of ?gs (base_name t)) = group_of ms (base_name t)"
      by (simp only: add_members_groups) (simp add: as_list_def)
    then obtain xs where "map_of ?gs (base_name t) = Some xs" "n \<in> set xs"
      using n by (auto simp: as_list_def split: option.splits)
    then show "\<exists>p \<in> set ?gs. n \<in> set (snd p)" by (force dest: map_of_SomeD)
  qed
  show ?thesis
  proof (cases "map_of ms n")
    case None
    then have "one_group ?gs n []" using mem by (auto simp: one_group_def)
    then show ?thesis using None mem by (simp add: out alias_table_lookup as_list_def)
  next
    case (Some t)
    have "snd p = group_of ms (base_name t)" if "p \<in> set ?gs" "n \<in> set (snd p)" for p
      using add_members_mem [of "fst p" "snd p" ms] that in_group Some by auto
    then have "one_group ?gs n (group_of ms (base_name t))" by (simp add: one_group_def)
    then show ?thesis using Some mem by (simp add: out alias_table_lookup as_list_def Let_def)
  qed
qed

definition sample_members :: "(string \<times> string) list" where
  "sample_members = [(''vm_area'', ''../:0000064''), (''dentry'', ''../dentry''),
     (''dnode_cache'', ''../:0000064'')]"

definition sample_merge :: "string list" where
  "sample_merge = map (\<lambda>p. spaced [fst p, snd p]) sample_members"

lemma loadCacheAliases_groups_witness:
  "aliases_of (loadCacheAliases False None (\<lambda>_. Some (unlines sample_merge))) ''vm_area'' =
     [''dnode_cache'', ''vm_area'']"
proof -
  have words: "list_all (\<lambda>p. word_ok (fst p) \<and> word_ok (snd p)) sample_members"
    by (simp add: sample_members_def word_ok_def is_space_def)
  have "merge_line (spaced [fst p, snd p]) = Some p" if "p \<in> set sample_members" for p
  proof -
    have "str_fields (spaced [fst p, snd p]) = [fst p, snd p]"
      using words that by (intro fields_spaced) (simp add: list_all_iff)
    then show ?thesis by (simp add: merge_line_def del: spaced.simps)
  qed
  then have "List.map_filter merge_line sample_merge = sample_members"
    unfolding sample_merge_def by (rule map_filter_back)
  moreover have "list_all line_ok sample_merge"
    by (simp add: sample_merge_def sample_members_def line_ok_def)
  ultimately have "alias_members False None (\<lambda>_. Some (unlines sample_merge)) = Some sample_members"
    by (simp add: alias_members_def scan_unlines)
  from loadCacheAliases_groups [OF this, of "''vm_area''"] show ?thesis
    by (simp add: sample_members_def group_of_def base_name_def)
qed

section \<open>The slab table\<close>

definition table_less ::
  "int \<Rightarrow> (string \<times> who_stat) list option \<Rightarrow> slab_cache \<Rightarrow> slab_cache \<Rightarrow> bool" where
  "table_less order who a b =
     slab_less (nat (order smod 4)) a b (who_of who (sname a)) (who_of who (sname b))"

definition in_table :: "(string \<times> who_stat) list option \<Rightarrow> slab_cache \<Rightarrow> bool" where
  "in_table who c \<longleftrightarrow> who = None \<or> wblocks (who_of who (sname c)) \<noteq> 0"

lemma weak_order_pair:
  fixes f g :: "'a \<Rightarrow> 'b::linorder"
  shows "weak_order (\<lambda>a b. if f a \<noteq> f b then f b < f a else g b < g a)"
  unfolding weak_order_def by auto

lemma weak_order_slab: "weak_order (\<lambda>a b. slab_less k a b (w a) (w b))"
proof (cases "(k, undefined :: slab_cache, undefined :: slab_cache, undefined :: who_stat,
    undefined :: who_stat)" rule: slab_less.cases)
  case 1
  then show ?thesis
    using weak_order_pair [of "\<lambda>c. whostagePages (w c)" "\<lambda>c. wblocks (w c)"] by simp
next
  case 2
  then show ?thesis
    using weak_order_pair [of "\<lambda>c. wblocks (w c)" "\<lambda>c. whostagePages (w c)"] by simp
next
  case 3
  then show ?thesis using weak_order_key_desc [of wasted] by simp
next
  case (4 k')
  then show ?thesis using weak_order_key_desc [of slab_bytes] by simp
qed

lemma sortedSlabs_eq:
  assumes "0 \<le> order"
  shows "sortedSlabs order who cs = Inr (slice_isort (table_less order who) (filter (in_table who) cs))"
proof -
  have "\<not> order smod 4 < 0"
    using assms pos_mod_sign [of 4 order] by (auto simp: signed_modulo_int_def sgn_if not_less)
  moreover have "(\<lambda>c. \<not> (who \<noteq> None \<and> wblocks (who_of who (sname c)) = 0)) = in_table who"
    by (auto simp: in_table_def)
  ultimately show ?thesis
    by (simp add: sortedSlabs_def Let_def table_less_def [abs_def] del: de_Morgan_conj)
qed


definition sample_slabs :: "slab_cache list" where
  "sample_slabs = map (\<lambda>(n, a, t). \<lparr>sname = n, active = a, stotal = t, objSize = 64, pagesPerSlab = 1,
      slabs = 1, activeSlabs = 1\<rparr>) [(''dentry'', 1, 4), (''dnode_t'', 4, 4), (''zio_cache'', 0, 8)]"


text \<open>The command line takes a negative order; looking it up stops the program.\<close>

theorem negative_order_stops: "sortedSlabs (- 1) who cs = Inl SliceOutOfRange"
  by (simp add: sortedSlabs_def signed_modulo_int_def signed_divide_int_def)

end
