(* ===== verification/Snapshot.thy ===== *)
theory Snapshot
  imports Merge MapFrame
begin

text \<open>
  Snapshots, \<^verbatim>\<open>packages/fragview/snapshot.go\<close>: what is written of a frame, and the frame that is
  rebuilt from it. The counters travel as little endian bytes in base64, both modelled here
  byte by byte; the record itself travels as compressed JSON, of which only what it changes is
  modelled (\<open>json_back\<close>).
\<close>

section \<open>Base64\<close>

definition b64_alphabet :: string where
  "b64_alphabet = ''ABCDEFGHIJKLMNOPQRSTUVWXYZabcdefghijklmnopqrstuvwxyz0123456789+/''"

definition b64_char :: "nat \<Rightarrow> char" where
  "b64_char n = b64_alphabet ! n"

fun index_of :: "char \<Rightarrow> nat \<Rightarrow> string \<Rightarrow> nat option" where
  "index_of c i [] = None"
| "index_of c i (d # ds) = (if c = d then Some i else index_of c (i + 1) ds)"

definition b64_val :: "char \<Rightarrow> nat option" where
  "b64_val c = index_of c 0 b64_alphabet"

definition sextets :: "nat \<Rightarrow> nat list" where
  "sextets n = [n div 262144, n div 4096 mod 64, n div 64 mod 64, n mod 64]"

fun b64_encode :: "u8 list \<Rightarrow> string" where
  "b64_encode [] = []"
| "b64_encode [a] = take 2 (map b64_char (sextets (unat a * 65536))) @ ''==''"
| "b64_encode [a, b] = take 3 (map b64_char (sextets (unat a * 65536 + unat b * 256))) @ ''=''"
| "b64_encode (a # b # c # bs) =
     map b64_char (sextets (unat a * 65536 + unat b * 256 + unat c)) @ b64_encode bs"

definition three_bytes :: "nat \<Rightarrow> u8 list" where
  "three_bytes n = [of_nat (n div 65536), of_nat (n div 256), of_nat n]"

text \<open>
  The decoder skips line ends, wants groups of four with the padding at the very end, and does
  not look at the bits the padding leaves over.
\<close>

definition quad_val :: "nat option \<Rightarrow> nat option \<Rightarrow> nat option \<Rightarrow> nat option \<Rightarrow> nat option" where
  "quad_val a b c d =
     (case (a, b, c, d) of
        (Some w, Some x, Some y, Some z) \<Rightarrow> Some (w * 262144 + x * 4096 + y * 64 + z)
      | _ \<Rightarrow> None)"

fun b64_groups :: "string \<Rightarrow> u8 list option" where
  "b64_groups [] = Some []"
| "b64_groups (a # b # c # d # cs) =
     (if cs = [] \<and> d = CHR ''='' then
        (if c = CHR ''='' then
           map_option (\<lambda>n. take 1 (three_bytes n)) (quad_val (b64_val a) (b64_val b) (Some 0) (Some 0))
         else map_option (\<lambda>n. take 2 (three_bytes n)) (quad_val (b64_val a) (b64_val b) (b64_val c) (Some 0)))
      else
        (case quad_val (b64_val a) (b64_val b) (b64_val c) (b64_val d) of
           None \<Rightarrow> None
         | Some n \<Rightarrow> map_option (\<lambda>bs. three_bytes n @ bs) (b64_groups cs)))"
| "b64_groups _ = None"

definition b64_decode :: "string \<Rightarrow> u8 list option" where
  "b64_decode s = b64_groups (filter (\<lambda>c. c \<noteq> CHR 0x0A \<and> c \<noteq> CHR 0x0D) s)"

lemma b64_val_char: "n < 64 \<Longrightarrow> b64_val (b64_char n) = Some n"
proof -
  have "\<forall>n \<in> set [0..<64]. b64_val (b64_char n) = Some n"
    unfolding b64_val_def b64_char_def b64_alphabet_def by code_simp
  then show "n < 64 \<Longrightarrow> b64_val (b64_char n) = Some n" by simp
qed

lemma b64_char_plain:
  "n < 64 \<Longrightarrow> b64_char n \<noteq> CHR ''='' \<and> b64_char n \<noteq> CHR 0x0A \<and> b64_char n \<noteq> CHR 0x0D"
proof -
  have "\<forall>n \<in> set [0..<64]. b64_char n \<noteq> CHR ''='' \<and> b64_char n \<noteq> CHR 0x0A \<and> b64_char n \<noteq> CHR 0x0D"
    unfolding b64_char_def b64_alphabet_def by code_simp
  then show "n < 64 \<Longrightarrow> b64_char n \<noteq> CHR ''='' \<and> b64_char n \<noteq> CHR 0x0A \<and> b64_char n \<noteq> CHR 0x0D"
    by simp
qed

lemma unat_u8: "unat (b :: u8) < 256"
  using unsigned_less [of b, where ?'a = nat] by simp

lemma sextets_bound: "n < 16777216 \<Longrightarrow> \<forall>s \<in> set (sextets n). s < 64"
  by (simp add: sextets_def less_mult_imp_div_less)

lemma sextets_val:
  "n div 262144 * 262144 + n div 4096 mod 64 * 4096 + n div 64 mod 64 * 64 + n mod 64 = (n::nat)"
proof -
  define p q r where "p = n div 64" and "q = p div 64" and "r = q div 64"
  have qr: "n div 4096 = q" "n div 262144 = r"
    by (simp_all add: p_def q_def r_def div_mult2_eq [symmetric])
  have "n = p * 64 + n mod 64" "p = q * 64 + p mod 64" "q = r * 64 + q mod 64"
    by (simp_all add: p_def q_def r_def)
  then show ?thesis unfolding qr p_def [symmetric] by linarith
qed

lemma three_bytes_val:
  "three_bytes (unat (a :: u8) * 65536 + unat (b :: u8) * 256 + unat (c :: u8)) = [a, b, c]"
proof -
  let ?n = "unat a * 65536 + unat b * 256 + unat c"
  have w: "(of_nat k :: u8) = x" if "k mod 256 = unat x" for k x
    using that by (metis unat_byte unsigned_word_eqI)
  have "(x * 65536 + y * 256 + z) div 65536 = x"
    "(x * 65536 + y * 256 + z) div 256 mod 256 = y"
    "(x * 65536 + y * 256 + z) mod 256 = z" if "x < 256" "y < 256" "z < 256" for x y z :: nat
  proof -
    have eq: "x * 65536 + y * 256 + z = (x * 256 + y) * 256 + z" by simp
    show "(x * 65536 + y * 256 + z) div 65536 = x" using that by simp
    have "((x * 256 + y) * 256 + z) div 256 = x * 256 + y"
      using that div_mult_self3 [of 256 "x * 256 + y" z] by simp
    then show "(x * 65536 + y * 256 + z) div 256 mod 256 = y" unfolding eq using that by simp
    show "(x * 65536 + y * 256 + z) mod 256 = z" unfolding eq mod_mult_self3 using that by simp
  qed
  note split = this [OF unat_u8 [of a] unat_u8 [of b] unat_u8 [of c]]
  have "?n div 65536 mod 256 = unat a" "?n div 256 mod 256 = unat b" "?n mod 256 = unat c"
    using split unat_u8 [of a] by simp_all
  then show ?thesis unfolding three_bytes_def by (simp only: w)
qed

lemma encoded_val:
  assumes "n < 16777216" and "sextets n = [w, x, y, z]"
  shows "quad_val (b64_val (b64_char w)) (b64_val (b64_char x)) (b64_val (b64_char y))
    (b64_val (b64_char z)) = Some n"
proof -
  have "w < 64" "x < 64" "y < 64" "z < 64" using sextets_bound [OF assms(1)] assms(2) by simp_all
  then show ?thesis using sextets_val [of n] assms(2) by (simp add: quad_val_def b64_val_char sextets_def)
qed

lemma encode_plain: "\<forall>c \<in> set (b64_encode bs). c \<noteq> CHR 0x0A \<and> c \<noteq> CHR 0x0D"
proof -
  have ok: "\<forall>c \<in> set (take k (map b64_char (sextets n))). c \<noteq> CHR 0x0A \<and> c \<noteq> CHR 0x0D"
    if "n < 16777216" for k n
  proof
    fix c
    assume "c \<in> set (take k (map b64_char (sextets n)))"
    then obtain s where "s \<in> set (sextets n)" "c = b64_char s" by (auto dest!: in_set_takeD)
    then show "c \<noteq> CHR 0x0A \<and> c \<noteq> CHR 0x0D" using sextets_bound [OF that] b64_char_plain by simp
  qed
  show ?thesis
  proof (induction bs rule: b64_encode.induct)
    case (2 a)
    have "unat a * 65536 < 16777216" using unat_u8 [of a] by simp
    from ok [OF this, of 2] show ?case by auto
  next
    case (3 a b)
    have "unat a * 65536 + unat b * 256 < 16777216" using unat_u8 [of a] unat_u8 [of b] by simp
    from ok [OF this, of 3] show ?case by auto
  next
    case (4 a b c bs)
    have "unat a * 65536 + unat b * 256 + unat c < 16777216"
      using unat_u8 [of a] unat_u8 [of b] unat_u8 [of c] by simp
    from ok [OF this, of 4] 4 show ?case by (auto simp: sextets_def)
  qed simp
qed

lemma take_three_bytes:
  "take 1 (three_bytes (unat (a :: u8) * 65536)) = [a]"
  "take 2 (three_bytes (unat (a :: u8) * 65536 + unat (b :: u8) * 256)) = [a, b]"
  using three_bytes_val [of a 0 0] three_bytes_val [of a b 0] by simp_all

lemma groups_encode: "b64_groups (b64_encode bs) = Some bs"
proof (induction bs rule: b64_encode.induct)
  case 1
  then show ?case by simp
next
  case (2 a)
  let ?n = "unat a * 65536"
  have n: "?n < 16777216" using unat_u8 [of a] by simp
  obtain w x where s: "sextets ?n = [w, x, 0, 0]" by (simp add: sextets_def)
  have "quad_val (b64_val (b64_char w)) (b64_val (b64_char x)) (Some 0) (Some 0) = Some ?n"
    using encoded_val [OF n s] by (simp add: b64_val_char)
  then show ?case by (simp add: s take_three_bytes(1) [simplified])
next
  case (3 a b)
  let ?n = "unat a * 65536 + unat b * 256"
  have n: "?n < 16777216" using unat_u8 [of a] unat_u8 [of b] by simp
  have "?n = 64 * (unat a * 1024 + unat b * 4)" by simp
  then have "?n mod 64 = 0" by (metis mod_mult_self1_is_0)
  then obtain w x y where s: "sextets ?n = [w, x, y, 0]" by (simp add: sextets_def)
  have "y < 64" using sextets_bound [OF n] s by simp
  then have "b64_char y \<noteq> CHR ''=''" using b64_char_plain by blast
  moreover have "quad_val (b64_val (b64_char w)) (b64_val (b64_char x)) (b64_val (b64_char y)) (Some 0) = Some ?n"
    using encoded_val [OF n s] by (simp add: b64_val_char)
  ultimately show ?case by (simp add: s take_three_bytes(2) [simplified])
next
  case (4 a b c bs)
  let ?n = "unat a * 65536 + unat b * 256 + unat c"
  have n: "?n < 16777216" using unat_u8 [of a] unat_u8 [of b] unat_u8 [of c] by simp
  obtain w x y z where s: "sextets ?n = [w, x, y, z]" by (simp add: sextets_def)
  have "z < 64" using sextets_bound [OF n] s by simp
  then have "b64_char z \<noteq> CHR ''=''" using b64_char_plain by blast
  then show ?case using 4 encoded_val [OF n s] by (simp add: s three_bytes_val)
qed

lemma decode_encode: "b64_decode (b64_encode bs) = Some bs"
proof -
  have "filter (\<lambda>c. c \<noteq> CHR 0x0A \<and> c \<noteq> CHR 0x0D) (b64_encode bs) = b64_encode bs"
    using encode_plain [of bs] by (simp add: filter_id_conv)
  then show ?thesis by (simp add: b64_decode_def groups_encode)
qed

section \<open>The counters\<close>

definition block_bytes :: "counts \<Rightarrow> u8 list" where
  "block_bytes c = concat (map (\<lambda>k. put_u16 (c k)) all_classes)"

definition counts_bytes :: "counts list \<Rightarrow> u8 list" where
  "counts_bytes cs = concat (map block_bytes cs)"

definition counts_at :: "u8 list \<Rightarrow> nat \<Rightarrow> counts" where
  "counts_at raw i = (\<lambda>k. get_u16 (drop ((i * nrClasses + class_no k) * 2) raw))"

lemma length_block_bytes [simp]: "length (block_bytes c) = 26"
  by (simp add: block_bytes_def all_classes_def)

lemma length_counts_bytes [simp]: "length (counts_bytes cs) = length cs * 26"
  by (induction cs) (simp_all add: counts_bytes_def)

lemma get_block_bytes: "get_u16 (drop (class_no k * 2) (block_bytes c @ bs)) = c k"
proof -
  have k: "class_no k < length all_classes" "all_classes ! class_no k = k"
    by (cases k; simp add: all_classes_def)+
  show ?thesis
    unfolding block_bytes_def using k by (subst drop_chunks) simp_all
qed

lemma counts_at_bytes:
  assumes "i < length cs"
  shows "counts_at (counts_bytes cs) i = cs ! i"
proof
  fix k
  have "drop ((i * 13 + class_no k) * 2) (counts_bytes cs) =
      drop (class_no k * 2) (drop (i * 26) (counts_bytes cs @ []))"
    by (simp add: add.commute algebra_simps)
  also have "drop (i * 26) (counts_bytes cs @ []) =
      block_bytes (cs ! i) @ concat (map block_bytes (drop (Suc i) cs)) @ []"
    unfolding counts_bytes_def using assms by (intro drop_chunks) simp_all
  finally show "counts_at (counts_bytes cs) i k = (cs ! i) k"
    by (simp only: counts_at_def nrClasses_eq get_block_bytes)
qed

section \<open>The record in the file\<close>

record snap_slab =
  sl_name :: string
  sl_active :: u64
  sl_total :: u64
  sl_objSize :: u64
  sl_pagesPerSlab :: u64
  sl_slabs :: u64
  sl_activeSlabs :: u64

record snap_who =
  sw_blocks :: u64
  sw_hostageBlocks :: u64
  sw_pages :: u64
  sw_hostagePages :: u64
  sw_mobile :: bool

record snap_site =
  ss_cache :: string
  ss_fn :: string
  ss_file :: string
  ss_objects :: u64
  ss_blocks :: u64

record snap_who_tot =
  st_blocks :: u64
  st_hostageBlocks :: u64
  st_hostageFreePages :: u64
  st_walkUS :: u64

record snapshot =
  snVersion :: int
  snLabel :: string
  snHost :: string
  snKernel :: string
  snTaken :: string
  snPagesPerBlock :: nat
  snFirstPFN :: nat
  snNBlocks :: int
  snCounts :: string
  snLadder :: "u64 list"
  snMaxOrder :: int
  snTypeNames :: "string list"
  snTypeCounts :: "u64 list"
  snSlabs :: "snap_slab list"
  snWho :: "(string \<times> snap_who) list option"
  snWhoTot :: snap_who_tot
  snWhoErr :: string
  snMem :: table
  snVm :: table
  snArc :: table
  snAbdMovable :: bool
  snUnseen :: "(string \<times> u64) list option"
  snAliases :: "groups option"
  snSites :: "snap_site list"

text \<open>
  What of a frame a snapshot carries: the map and the reporting fields. The package variables
  are those \<^verbatim>\<open>readSnapshot\<close> sets: the alias table, whether the ARC class keeps its name, and
  \<^verbatim>\<open>abdMovable\<close>.
\<close>

record report_frame =
  rf_map :: block_map
  rf_pagesPerBlock :: nat
  rf_ladder :: free_ladder
  rf_types :: block_types
  rf_slabs :: "slab_cache list"
  rf_mem :: table
  rf_vm :: table
  rf_arc :: table
  rf_who :: "(string \<times> who_stat) list option"
  rf_sites :: "site_stat list"
  rf_whoTot :: who_totals
  rf_whoErr :: string
  rf_host :: string
  rf_snapshot :: string
  rf_kernel :: string
  rf_taken :: string

record pkg_vars =
  cacheAliases :: "groups option"
  zfsNames :: bool
  abdMovable :: bool

text \<open>\<^verbatim>\<open>kernelRelease\<close> cuts the line end off; an empty file has none to cut.\<close>

definition kernelRelease :: "proc_fs \<Rightarrow> string go_result" where
  "kernelRelease proc =
     (case proc ''sys/kernel/osrelease'' of
        None \<Rightarrow> Inr []
      | Some txt \<Rightarrow> if txt = [] then Inl SliceOutOfRange else Inr (butlast txt))"

definition hex_digit :: "nat \<Rightarrow> char" where
  "hex_digit d = (if d < 10 then char_of (48 + d) else char_of (87 + d))"

fun hexadecimal :: "nat \<Rightarrow> string" where
  "hexadecimal n =
     (if n < 16 then [hex_digit n] else hexadecimal (n div 16) @ [hex_digit (n mod 16)])"

declare hexadecimal.simps [simp del]

definition to_snap_slab :: "slab_cache \<Rightarrow> snap_slab" where
  "to_snap_slab c = \<lparr>sl_name = sname c, sl_active = active c, sl_total = stotal c,
     sl_objSize = objSize c, sl_pagesPerSlab = pagesPerSlab c, sl_slabs = slabs c,
     sl_activeSlabs = activeSlabs c\<rparr>"

definition to_snap_who :: "who_stat \<Rightarrow> snap_who" where
  "to_snap_who w = \<lparr>sw_blocks = wblocks w, sw_hostageBlocks = whostageBlocks w,
     sw_pages = wpages w, sw_hostagePages = whostagePages w, sw_mobile = mobile w\<rparr>"

definition to_snap_site :: "site_stat \<Rightarrow> snap_site" where
  "to_snap_site s = \<lparr>ss_cache = site_cache s, ss_fn = site_fn s, ss_file = site_file s,
     ss_objects = site_objects s, ss_blocks = site_blocks s\<rparr>"

definition to_snap_tot :: "who_totals \<Rightarrow> snap_who_tot" where
  "to_snap_tot t = \<lparr>st_blocks = tot_blocks t, st_hostageBlocks = tot_hostageBlocks t,
     st_hostageFreePages = tot_hostageFreePages t, st_walkUS = tot_walkUS t\<rparr>"

text \<open>
  \<^verbatim>\<open>toSnapshot\<close>. The literal of the source names no \<^verbatim>\<open>Taken\<close>, which leaves it empty. \<open>unseen\<close> is
  the register of unclassified flag words.
\<close>

definition toSnapshot ::
  "pkg_vars \<Rightarrow> proc_fs \<Rightarrow> (u64 \<times> u64) list \<Rightarrow> string \<Rightarrow> report_frame \<Rightarrow> snapshot go_result" where
  "toSnapshot vars proc unseen lbl f =
     and_then (kernelRelease proc) (\<lambda>kr. Inr
       \<lparr>snVersion = 1, snLabel = lbl, snHost = rf_host f, snKernel = kr, snTaken = [],
        snPagesPerBlock = rf_pagesPerBlock f, snFirstPFN = firstPFN (rf_map f),
        snNBlocks = int (nblocks (rf_map f)),
        snCounts = b64_encode (counts_bytes (counts (rf_map f))),
        snLadder = orders (rf_ladder f), snMaxOrder = maxOrder (rf_ladder f),
        snTypeNames = names (rf_types f), snTypeCounts = tcounts (rf_types f),
        snSlabs = map to_snap_slab (rf_slabs f),
        snWho = map_option (map (\<lambda>(k, w). (k, to_snap_who w))) (rf_who f),
        snWhoTot = to_snap_tot (rf_whoTot f), snWhoErr = rf_whoErr f,
        snMem = rf_mem f, snVm = rf_vm f, snArc = rf_arc f, snAbdMovable = abdMovable vars,
        snUnseen = (if unseen = [] then None
                    else Some (map (\<lambda>(flg, n). (hexadecimal (unat flg), n)) unseen)),
        snAliases = cacheAliases vars, snSites = map to_snap_site (rf_sites f)\<rparr>)"

text \<open>
  What JSON does to the record: a map marked \<^verbatim>\<open>omitempty\<close> that is empty comes back as no map.
\<close>

definition omit_empty :: "'a list option \<Rightarrow> 'a list option" where
  "omit_empty r = (if r = Some [] then None else r)"

definition json_back :: "snapshot \<Rightarrow> snapshot" where
  "json_back s = s\<lparr>snWho := omit_empty (snWho s), snUnseen := omit_empty (snUnseen s),
     snAliases := omit_empty (snAliases s)\<rparr>"

section \<open>Rebuilding the frame\<close>

definition of_snap_slab :: "snap_slab \<Rightarrow> slab_cache" where
  "of_snap_slab c = \<lparr>sname = sl_name c, active = sl_active c, stotal = sl_total c,
     objSize = sl_objSize c, pagesPerSlab = sl_pagesPerSlab c, slabs = sl_slabs c,
     activeSlabs = sl_activeSlabs c\<rparr>"

definition of_snap_who :: "snap_who \<Rightarrow> who_stat" where
  "of_snap_who w = \<lparr>wblocks = sw_blocks w, whostageBlocks = sw_hostageBlocks w,
     wpages = sw_pages w, whostagePages = sw_hostagePages w, mobile = sw_mobile w\<rparr>"

definition of_snap_site :: "snap_site \<Rightarrow> site_stat" where
  "of_snap_site s = \<lparr>site_cache = ss_cache s, site_fn = ss_fn s, site_file = ss_file s,
     site_objects = ss_objects s, site_blocks = ss_blocks s\<rparr>"

definition of_snap_tot :: "snap_who_tot \<Rightarrow> who_totals" where
  "of_snap_tot t = \<lparr>tot_blocks = st_blocks t, tot_hostageBlocks = st_hostageBlocks t,
     tot_hostageFreePages = st_hostageFreePages t, tot_walkUS = st_walkUS t\<rparr>"

text \<open>
  \<^verbatim>\<open>nameClassesForHost\<close> only ever takes the ARC name away.
\<close>

definition nameClassesForHost :: "bool \<Rightarrow> bool \<Rightarrow> bool" where
  "nameClassesForHost haveZFS zfs = (if haveZFS then zfs else False)"

definition readSnapshot :: "pkg_vars \<Rightarrow> snapshot \<Rightarrow> (report_frame \<times> pkg_vars) go_result" where
  "readSnapshot vars s =
     (if snVersion s \<noteq> 1 then Inl (BadInput ''snapshot version'')
      else
        (case b64_decode (snCounts s) of
           None \<Rightarrow> Inl (BadInput ''illegal base64 data'')
         | Some raw \<Rightarrow>
             if int (length raw) \<noteq> snNBlocks s * int nrClasses * 2
             then Inl (BadInput ''counters do not match header'')
             else Inr
               (\<lparr>rf_map = \<lparr>firstPFN = snFirstPFN s, nblocks = nat (snNBlocks s),
                   counts = map (counts_at raw) [0 ..< nat (snNBlocks s)], ranges = []\<rparr>,
                 rf_pagesPerBlock = snPagesPerBlock s,
                 rf_ladder = \<lparr>orders = snLadder s, maxOrder = snMaxOrder s\<rparr>,
                 rf_types = \<lparr>names = snTypeNames s, tcounts = snTypeCounts s\<rparr>,
                 rf_slabs = map of_snap_slab (snSlabs s),
                 rf_mem = snMem s, rf_vm = snVm s, rf_arc = snArc s,
                 rf_who = map_option (map (\<lambda>(k, w). (k, of_snap_who w))) (snWho s),
                 rf_sites = map of_snap_site (snSites s),
                 rf_whoTot = of_snap_tot (snWhoTot s), rf_whoErr = snWhoErr s,
                 rf_host = snHost s, rf_snapshot = snLabel s, rf_kernel = snKernel s,
                 rf_taken = snTaken s\<rparr>,
                \<lparr>cacheAliases = snAliases s,
                 zfsNames = nameClassesForHost (snArc s \<noteq> []) (zfsNames vars),
                 abdMovable = snAbdMovable s\<rparr>)))"

section \<open>Properties\<close>

lemma snap_back [simp]:
  "of_snap_slab (to_snap_slab c) = c" "of_snap_who (to_snap_who w) = w"
  "of_snap_site (to_snap_site st) = st" "of_snap_tot (to_snap_tot t) = t"
  by (cases c; cases w; cases st; cases t,
    simp add: of_snap_slab_def to_snap_slab_def of_snap_who_def to_snap_who_def
      of_snap_site_def to_snap_site_def of_snap_tot_def to_snap_tot_def)+

lemma read_counts: "map (counts_at (counts_bytes cs)) [0 ..< length cs] = cs"
  by (rule nth_equalityI) (simp_all add: counts_at_bytes)

lemma map_back:
  assumes "map_ok b"
  shows "\<lparr>firstPFN = firstPFN b, nblocks = nblocks b,
    counts = map (counts_at (counts_bytes (counts b))) [0 ..< nblocks b], ranges = []\<rparr> = b\<lparr>ranges := []\<rparr>"
  using assms read_counts [of "counts b"] by (cases b) (simp add: map_ok_def)

lemma who_back:
  "w \<noteq> Some [] \<Longrightarrow>
    map_option (map (\<lambda>(k, w). (k, of_snap_who w)))
      (omit_empty (map_option (map (\<lambda>(k, w). (k, to_snap_who w))) w)) = w"
  by (cases w) (auto simp: omit_empty_def comp_def case_prod_beta' map_idI)

lemma records_back:
  "\<lparr>orders = orders l, maxOrder = maxOrder l\<rparr> = l" "\<lparr>names = names t, tcounts = tcounts t\<rparr> = t"
  "\<lparr>rf_map = b, rf_pagesPerBlock = rf_pagesPerBlock f, rf_ladder = rf_ladder f,
    rf_types = rf_types f, rf_slabs = rf_slabs f, rf_mem = rf_mem f, rf_vm = rf_vm f,
    rf_arc = rf_arc f, rf_who = rf_who f, rf_sites = rf_sites f, rf_whoTot = rf_whoTot f,
    rf_whoErr = rf_whoErr f, rf_host = rf_host f, rf_snapshot = lbl, rf_kernel = kr,
    rf_taken = tk\<rparr> =
   f\<lparr>rf_map := b, rf_snapshot := lbl, rf_kernel := kr, rf_taken := tk\<rparr>"
  by (cases l, simp, cases t, simp, cases f, simp)

lemma counts_size:
  assumes "map_ok b"
  shows "int (length (counts_bytes (counts b))) = int (nblocks b) * 13 * 2"
  using assms by (simp add: map_ok_def)

lemma readSnapshot_toSnapshot:
  assumes "map_ok (rf_map f)" and "rf_who f \<noteq> Some []" and "cacheAliases vars \<noteq> Some []"
    and "toSnapshot vars proc unseen lbl f = Inr s"
  shows "\<exists>kr. kernelRelease proc = Inr kr \<and> readSnapshot vars0 (json_back s) =
    Inr (f\<lparr>rf_map := (rf_map f)\<lparr>ranges := []\<rparr>, rf_snapshot := lbl, rf_kernel := kr, rf_taken := []\<rparr>,
      \<lparr>cacheAliases = cacheAliases vars,
       zfsNames = nameClassesForHost (rf_arc f \<noteq> []) (zfsNames vars0), abdMovable = abdMovable vars\<rparr>)"
proof -
  obtain kr where kr: "kernelRelease proc = Inr kr"
    using assms(4) by (cases "kernelRelease proc") (simp_all add: toSnapshot_def)
  have al: "omit_empty (cacheAliases vars) = cacheAliases vars" using assms(3) by (simp add: omit_empty_def)
  show ?thesis
    using assms(4) kr
    by (auto simp: toSnapshot_def readSnapshot_def json_back_def decode_encode who_back [OF assms(2)]
      al counts_size [OF assms(1)] map_back [OF assms(1)] records_back comp_def map_idI
      simp del: length_counts_bytes)
qed

text \<open>
  C23. A snapshot brings back what was dumped: whatever build reads it, the frame has the same
  counters for every block, the same reporting and the same setting for the movability of ARC
  data, so that every verdict on it is the verdict on the machine. What it does not bring back
  are the flag file and the memory ranges behind the map, and the time it was taken.
\<close>

theorem snapshot_roundtrip:
  assumes "map_ok (rf_map f)" and "rf_who f \<noteq> Some []" and "cacheAliases vars \<noteq> Some []"
    and "toSnapshot vars proc unseen lbl f = Inr s"
  shows "\<exists>kr vars'. kernelRelease proc = Inr kr \<and>
    readSnapshot vars0 (json_back s) =
      Inr (f\<lparr>rf_map := (rf_map f)\<lparr>ranges := []\<rparr>, rf_snapshot := lbl, rf_kernel := kr,
             rf_taken := []\<rparr>, vars') \<and>
    abdMovable vars' = abdMovable vars \<and> cacheAliases vars' = cacheAliases vars"
  using readSnapshot_toSnapshot [OF assms, of vars0] by auto

definition sample_report :: report_frame where
  "sample_report = \<lparr>rf_map = m sample_frame, rf_pagesPerBlock = 512, rf_ladder = no_ladder,
     rf_types = no_types, rf_slabs = sample_slabs, rf_mem = [(''MemTotal'', 4096)], rf_vm = [],
     rf_arc = [(''size'', 7)], rf_who = Some [(''dentry'', no_who)], rf_sites = [],
     rf_whoTot = no_totals, rf_whoErr = [], rf_host = ''vm'', rf_snapshot = [], rf_kernel = [],
     rf_taken = ''2026-08-17''\<rparr>"

definition sample_vars :: pkg_vars where
  "sample_vars = \<lparr>cacheAliases = None, zfsNames = True, abdMovable = True\<rparr>"

lemma snapshot_roundtrip_witness:
  "\<exists>s f vars'. toSnapshot sample_vars (\<lambda>_. None) [] ''stock/warm'' sample_report = Inr s \<and>
     readSnapshot sample_vars (json_back s) = Inr (f, vars') \<and>
     counts (rf_map f) = [mixed_block, zero_counts] \<and> abdMovable vars'"
proof -
  have kr: "kernelRelease (\<lambda>_. None) = Inr []" by (simp add: kernelRelease_def)
  then obtain s where s: "toSnapshot sample_vars (\<lambda>_. None) [] ''stock/warm'' sample_report = Inr s"
    by (simp add: toSnapshot_def)
  have "map_ok (rf_map sample_report)" "rf_who sample_report \<noteq> Some []"
    "cacheAliases sample_vars \<noteq> Some []"
    by (simp_all add: sample_report_def sample_frame_def map_ok_def sample_vars_def)
  from snapshot_roundtrip [OF this s, of sample_vars] show ?thesis
    using s by (auto simp: sample_vars_def sample_report_def sample_frame_def)
qed



end
