(* ===== verification/Kitty.thy ===== *)
theory Kitty
  imports Aggregate Snapshot
begin

text \<open>
  The picture on its way to the terminal, \<^verbatim>\<open>packages/fragview/pixmap.go\<close>: the bytes of the image,
  what \<^verbatim>\<open>encode\<close> sends of it in the graphics protocol of kitty, and the rows of placeholder
  characters that carry it. The compression is library code and an argument.
\<close>

section \<open>The image\<close>

record rgba =
  iw :: nat
  ih :: nat
  ipix :: "u8 list"

text \<open>\<^verbatim>\<open>pixmap\<close>; a picture that was never sent and an empty one compare equal.\<close>

record pixmap =
  img :: "rgba option"
  sent :: "u8 list"

definition no_pixmap :: pixmap where
  "no_pixmap = \<lparr>img = None, sent = []\<rparr>"

definition new_image :: "nat \<Rightarrow> nat \<Rightarrow> rgba" where
  "new_image w h = \<lparr>iw = w, ih = h, ipix = replicate (4 * w * h) 0\<rparr>"

definition canvas_for :: "nat \<Rightarrow> nat \<Rightarrow> pixmap \<Rightarrow> pixmap" where
  "canvas_for w h p =
     (case img p of
        None \<Rightarrow> p\<lparr>img := Some (new_image w h), sent := []\<rparr>
      | Some i \<Rightarrow> if iw i \<noteq> w \<or> ih i \<noteq> h then p\<lparr>img := Some (new_image w h), sent := []\<rparr> else p)"

definition clear_image :: "rgba \<Rightarrow> rgba" where
  "clear_image i = i\<lparr>ipix := replicate (length (ipix i)) 0\<rparr>"

definition pix_offset :: "rgba \<Rightarrow> nat \<Rightarrow> nat \<Rightarrow> nat" where
  "pix_offset i x y = y * (4 * iw i) + x * 4"

definition set_pixel :: "int \<Rightarrow> int \<Rightarrow> rgb \<Rightarrow> rgba \<Rightarrow> rgba" where
  "set_pixel x y c i =
     (if \<not> (0 \<le> x \<and> x < int (iw i) \<and> 0 \<le> y \<and> y < int (ih i)) then i
      else
        (let k = pix_offset i (nat x) (nat y); (r, g, b) = c
         in i\<lparr>ipix := (ipix i)[k := r, k + 1 := g, k + 2 := b, k + 3 := 255]\<rparr>))"

section \<open>The protocol\<close>

text \<open>The commands of one picture: a first piece, further pieces, and the placement.\<close>

datatype graphics =
    Transmit nat nat bool string
  | MoreData bool string
  | Place int int

definition pixmapImageID :: nat where "pixmapImageID = 62118"

definition apc :: "string \<Rightarrow> string" where
  "apc s = [CHR 0x1B] @ ''_G'' @ s @ [CHR 0x1B, CHR 0x5C]"

definition more_bit :: "bool \<Rightarrow> string" where
  "more_bit b = (if b then ''1'' else ''0'')"

definition signed_int :: "int \<Rightarrow> string" where
  "signed_int n = (if n < 0 then ''-'' else []) @ decimal (nat \<bar>n\<bar>)"

fun graphics_text :: "graphics \<Rightarrow> string" where
  "graphics_text (Transmit w h again piece) =
     apc (''a=t,f=32,o=z,s='' @ decimal w @ '',v='' @ decimal h @ '',t=d,i='' @ decimal pixmapImageID @
       '',q=2,m='' @ more_bit again @ '';'' @ piece)"
| "graphics_text (MoreData again piece) = apc (''m='' @ more_bit again @ '';'' @ piece)"
| "graphics_text (Place cols rows) =
     apc (''a=p,U=1,i='' @ decimal pixmapImageID @ '',p=1,c='' @ signed_int cols @ '',r='' @ signed_int rows @ '',q=2'')"

definition piece_len :: nat where "piece_len = 4096"

function pieces :: "nat \<Rightarrow> nat \<Rightarrow> bool \<Rightarrow> string \<Rightarrow> graphics list" where
  "pieces w h fst_piece enc =
     (if enc = [] then []
      else
        (let piece = take piece_len enc; rest = drop piece_len enc
         in (if fst_piece then Transmit w h (rest \<noteq> []) piece else MoreData (rest \<noteq> []) piece) #
            pieces w h False rest))"
  by pat_completeness auto
termination by (relation "measure (\<lambda>(w, h, f, enc). length enc)") (auto simp: piece_len_def)

declare pieces.simps [simp del]

definition encode_picture ::
  "(u8 list \<Rightarrow> u8 list) \<Rightarrow> int \<Rightarrow> int \<Rightarrow> rgba \<Rightarrow> pixmap \<Rightarrow> pixmap \<times> graphics list \<times> bool" where
  "encode_picture deflate cols rows i p =
     (if sent p = ipix i then (p, [], False)
      else (p\<lparr>sent := ipix i\<rparr>,
            pieces (iw i) (ih i) True (b64_encode (deflate (ipix i))) @ [Place cols rows], True))"

text \<open>\<^verbatim>\<open>encode\<close> leaves the text in \<^verbatim>\<open>p.out\<close>; without an image it is never called.\<close>

definition encode :: "(u8 list \<Rightarrow> u8 list) \<Rightarrow> int \<Rightarrow> int \<Rightarrow> pixmap \<Rightarrow> pixmap \<times> string \<times> bool" where
  "encode deflate cols rows p =
     (case img p of
        None \<Rightarrow> (p, [], False)
      | Some i \<Rightarrow>
          (let (p', gs, changed) = encode_picture deflate cols rows i p
           in (p', concat (map graphics_text gs), changed)))"

section \<open>Terminal and environment\<close>

record winsize =
  ws_row :: nat
  ws_col :: nat
  ws_x :: nat
  ws_y :: nat

text \<open>\<^verbatim>\<open>cellPixels\<close>, on the answer of the terminal, nothing if the call fails.\<close>

definition cellPixels :: "winsize option \<Rightarrow> nat \<times> nat" where
  "cellPixels ws =
     (case ws of
        None \<Rightarrow> (8, 16)
      | Some s \<Rightarrow> if ws_col s = 0 \<or> ws_row s = 0 \<or> ws_x s = 0 \<or> ws_y s = 0 then (8, 16)
                else (ws_x s div ws_col s, ws_y s div ws_row s))"

definition contains_str :: "string \<Rightarrow> string \<Rightarrow> bool" where
  "contains_str sub s \<longleftrightarrow> cut sub s \<noteq> None"

definition kittyAvailable :: "(string \<Rightarrow> string) \<Rightarrow> bool" where
  "kittyAvailable env =
     (if env ''FRAGVIEW_PIXELS'' = ''0'' then False
      else if env ''KITTY_WINDOW_ID'' \<noteq> [] then True
      else contains_str ''kitty'' (env ''TERM''))"

section \<open>What the terminal shows\<close>

text \<open>
  The other end: a terminal collects the pieces of a picture, and has a new picture when the
  piece comes that announces no other.
\<close>

record terminal =
  pending :: "(nat \<times> nat \<times> string) option"
  picture :: "(nat \<times> nat \<times> string) option"

fun receive :: "graphics \<Rightarrow> terminal \<Rightarrow> terminal" where
  "receive (Transmit w h again piece) t =
     (if again then t\<lparr>pending := Some (w, h, piece)\<rparr>
      else t\<lparr>pending := None, picture := Some (w, h, piece)\<rparr>)"
| "receive (MoreData again piece) t =
     (case pending t of
        None \<Rightarrow> t
      | Some (w, h, s) \<Rightarrow>
          if again then t\<lparr>pending := Some (w, h, s @ piece)\<rparr>
          else t\<lparr>pending := None, picture := Some (w, h, s @ piece)\<rparr>)"
| "receive (Place cols rows) t = t"

lemma receive_rest:
  assumes "pending t = Some (w, h, s)" and "enc \<noteq> []"
  shows "fold receive (pieces w' h' False enc) t = t\<lparr>pending := None, picture := Some (w, h, s @ enc)\<rparr>"
  using assms
proof (induction "length enc" arbitrary: s enc t rule: less_induct)
  case less
  let ?p = "take piece_len enc" and ?r = "drop piece_len enc"
  have step: "pieces w' h' False enc = MoreData (?r \<noteq> []) ?p # pieces w' h' False ?r"
    using less.prems(2) by (subst pieces.simps) (simp add: Let_def)
  show ?case
  proof (cases "?r = []")
    case True
    then have "pieces w' h' False ?r = []" by (subst pieces.simps) simp
    moreover have "?p = enc" using True by simp
    ultimately show ?thesis using True less.prems(1) by (simp add: step)
  next
    case False
    have "length ?r < length enc" using less.prems(2) by (simp add: piece_len_def)
    then show ?thesis
      using less.hyps [of ?r "t\<lparr>pending := Some (w, h, s @ ?p)\<rparr>" "s @ ?p"] False less.prems(1)
      by (simp add: step)
  qed
qed

lemma receive_pieces:
  assumes "enc \<noteq> []"
  shows "fold receive (pieces w h True enc) t = t\<lparr>pending := None, picture := Some (w, h, enc)\<rparr>"
proof -
  let ?p = "take piece_len enc" and ?r = "drop piece_len enc"
  have step: "pieces w h True enc = Transmit w h (?r \<noteq> []) ?p # pieces w h False ?r"
    using assms by (subst pieces.simps) (simp add: Let_def)
  show ?thesis
  proof (cases "?r = []")
    case True
    then have "pieces w h False ?r = []" by (subst pieces.simps) simp
    moreover have "?p = enc" using True by simp
    ultimately show ?thesis using True by (simp add: step)
  next
    case False
    then show ?thesis
      using receive_rest [of "t\<lparr>pending := Some (w, h, ?p)\<rparr>" w h ?p ?r w h] by (simp add: step)
  qed
qed

lemma b64_encode_Nil: "b64_encode bs = [] \<longleftrightarrow> bs = []"
  by (cases bs rule: b64_encode.cases) (simp_all add: sextets_def)

text \<open>One frame: the canvas of its size, blanked, drawn on pixel by pixel, and sent.\<close>

record picture_frame =
  pf_w :: nat
  pf_h :: nat
  pf_draw :: "(int \<times> int \<times> rgb) list"
  pf_cols :: int
  pf_rows :: int

definition draw_image :: "(int \<times> int \<times> rgb) list \<Rightarrow> rgba \<Rightarrow> rgba" where
  "draw_image ds i = fold (\<lambda>(x, y, c). set_pixel x y c) ds (clear_image i)"

definition show_frame ::
  "(u8 list \<Rightarrow> u8 list) \<Rightarrow> picture_frame \<Rightarrow> pixmap \<times> terminal \<Rightarrow> pixmap \<times> terminal" where
  "show_frame deflate f s =
     (let (p, t) = s; p1 = canvas_for (pf_w f) (pf_h f) p
      in case img p1 of
           None \<Rightarrow> (p1, t)
         | Some i \<Rightarrow>
             (let i' = draw_image (pf_draw f) i;
                  (p2, gs, changed) = encode_picture deflate (pf_cols f) (pf_rows f) i' (p1\<lparr>img := Some i'\<rparr>)
              in (p2, fold receive gs t)))"

lemma set_pixel_dims [simp]:
  "iw (set_pixel x y c i) = iw i" "ih (set_pixel x y c i) = ih i"
  "length (ipix (set_pixel x y c i)) = length (ipix i)"
  by (auto simp: set_pixel_def Let_def split: prod.split)

lemma draw_image_dims [simp]:
  "iw (draw_image ds i) = iw i" "ih (draw_image ds i) = ih i"
  "length (ipix (draw_image ds i)) = length (ipix i)"
proof -
  have "iw (fold (\<lambda>(x, y, c). set_pixel x y c) ds j) = iw j \<and> ih (fold (\<lambda>(x, y, c). set_pixel x y c) ds j) = ih j \<and>
      length (ipix (fold (\<lambda>(x, y, c). set_pixel x y c) ds j)) = length (ipix j)" for j
    by (induction ds arbitrary: j) auto
  then show "iw (draw_image ds i) = iw i" "ih (draw_image ds i) = ih i"
    "length (ipix (draw_image ds i)) = length (ipix i)"
    by (simp_all add: draw_image_def clear_image_def)
qed

text \<open>What is in \<open>sent\<close> is on the screen, and images have four bytes for a pixel.\<close>

definition in_step :: "(u8 list \<Rightarrow> u8 list) \<Rightarrow> pixmap \<times> terminal \<Rightarrow> bool" where
  "in_step deflate s \<longleftrightarrow>
     (case img (fst s) of
        None \<Rightarrow> sent (fst s) = []
      | Some i \<Rightarrow> length (ipix i) = 4 * iw i * ih i \<and>
          (sent (fst s) \<noteq> [] \<longrightarrow>
             picture (snd s) = Some (iw i, ih i, b64_encode (deflate (sent (fst s))))))"

lemma canvas_for_in_step:
  assumes "in_step deflate (p, t)"
  shows "\<exists>i. img (canvas_for w h p) = Some i \<and> iw i = w \<and> ih i = h \<and> in_step deflate (canvas_for w h p, t)"
  using assms by (auto simp: canvas_for_def in_step_def new_image_def split: option.splits)

lemma show_frame_in_step:
  assumes "in_step deflate s" and "\<And>bs. bs \<noteq> [] \<Longrightarrow> deflate bs \<noteq> []"
  shows "in_step deflate (show_frame deflate f s) \<and>
    (\<exists>i. img (fst (show_frame deflate f s)) = Some i \<and> iw i = pf_w f \<and> ih i = pf_h f \<and>
       sent (fst (show_frame deflate f s)) = ipix i)"
proof -
  obtain p t where s: "s = (p, t)" by (cases s)
  let ?p1 = "canvas_for (pf_w f) (pf_h f) p"
  obtain i where i: "img ?p1 = Some i" "iw i = pf_w f" "ih i = pf_h f" "in_step deflate (?p1, t)"
    using canvas_for_in_step assms(1) s by blast
  let ?i = "draw_image (pf_draw f) i"
  show ?thesis
  proof (cases "sent ?p1 = ipix ?i")
    case True
    then show ?thesis
      using i by (simp add: s show_frame_def encode_picture_def Let_def in_step_def)
  next
    case False
    show ?thesis
    proof (cases "ipix ?i = []")
      case True
      then have "ipix i = []" using draw_image_dims(3) [of "pf_draw f" i] by simp
      with True show ?thesis
        using i False by (simp add: s show_frame_def encode_picture_def Let_def in_step_def)
    next
      case ne: False
      then have "b64_encode (deflate (ipix ?i)) \<noteq> []" using assms(2) by (simp add: b64_encode_Nil)
      then show ?thesis
        using i False by (simp add: s show_frame_def encode_picture_def Let_def in_step_def receive_pieces)
    qed
  qed
qed




section \<open>Bytes and the canvas\<close>

text \<open>The bytes of the image hold the colours of what the canvas of the painting routines shows.\<close>

definition pixel_at :: "rgba \<Rightarrow> nat \<Rightarrow> nat \<Rightarrow> u8 list" where
  "pixel_at i x y = take 4 (drop (pix_offset i x y) (ipix i))"

definition paint_bytes :: "paint option \<Rightarrow> u8 list" where
  "paint_bytes c = (case c of None \<Rightarrow> [0, 0, 0, 0] | Some p \<Rightarrow> (let (r, g, b) = paint_rgb p in [r, g, b, 255]))"

definition same_picture :: "rgba \<Rightarrow> canvas \<Rightarrow> bool" where
  "same_picture i cv \<longleftrightarrow> int (iw i) = wid cv \<and> int (ih i) = hgt cv \<and> length (ipix i) = 4 * iw i * ih i \<and>
     (\<forall>x < iw i. \<forall>y < ih i. pixel_at i x y = paint_bytes (pix cv (int x) (int y)))"

lemma pix_offset_eq: "pix_offset i x y = 4 * (y * iw i + x)"
  by (simp add: pix_offset_def algebra_simps)

lemma pixel_index_inj:
  fixes w :: nat
  assumes "x < w" and "x' < w"
  shows "y * w + x = y' * w + x' \<longleftrightarrow> x = x' \<and> y = y'"
proof -
  have "(y * w + x) mod w = x" "(y' * w + x') mod w = x'" "(y * w + x) div w = y" "(y' * w + x') div w = y'"
    using assms by simp_all
  then show ?thesis by metis
qed

lemma pixel_index_less: "x < w \<Longrightarrow> y < h \<Longrightarrow> y * w + x < w * (h :: nat)"
proof -
  assume "x < w" "y < h"
  then have "y * w + x < Suc y * w" by simp
  also have "\<dots> \<le> h * w" using \<open>y < h\<close> by (intro mult_le_mono1) simp
  finally show ?thesis by (simp add: mult.commute)
qed

lemma take_4_nth: "n + 4 \<le> length xs \<Longrightarrow> take 4 (drop n xs) = [xs ! n, xs ! (n + 1), xs ! (n + 2), xs ! (n + 3)]"
  by (simp add: numeral_eq_Suc Cons_nth_drop_Suc [symmetric])

lemma set_four_nth:
  assumes "4 * k + 4 \<le> length xs" and "4 * j + 4 \<le> length xs"
  shows "take 4 (drop (4 * j) (xs[4 * k := a, 4 * k + 1 := b, 4 * k + 2 := c, 4 * k + 3 := d])) =
    (if j = k then [a, b, c, d] else take 4 (drop (4 * j) xs))"
proof -
  have "4 * j \<noteq> 4 * k + 1" "4 * j \<noteq> 4 * k + 2" "4 * j \<noteq> 4 * k + 3"
    "4 * j + 1 \<noteq> 4 * k" "4 * j + 1 \<noteq> 4 * k + 2" "4 * j + 1 \<noteq> 4 * k + 3"
    "4 * j + 2 \<noteq> 4 * k" "4 * j + 2 \<noteq> 4 * k + 1" "4 * j + 2 \<noteq> 4 * k + 3"
    "4 * j + 3 \<noteq> 4 * k" "4 * j + 3 \<noteq> 4 * k + 1" "4 * j + 3 \<noteq> 4 * k + 2" by presburger+
  then show ?thesis using assms by (auto simp: take_4_nth nth_list_update)
qed

lemma clear_same_picture:
  assumes "length (ipix i) = 4 * iw i * ih i"
  shows "same_picture (clear_image i) (blank (int (iw i)) (int (ih i)))"
proof -
  have "pixel_at (clear_image i) x y = [0, 0, 0, 0]" if "x < iw i" "y < ih i" for x y
  proof -
    have "pix_offset (clear_image i) x y + 4 \<le> length (ipix (clear_image i))"
      using pixel_index_less [OF that] assms by (simp add: pix_offset_eq clear_image_def)
    moreover have "replicate 4 0 = [0, 0, 0, 0 :: u8]" by (simp add: numeral_eq_Suc)
    ultimately show ?thesis by (simp add: pixel_at_def clear_image_def)
  qed
  then show ?thesis using assms by (simp add: same_picture_def blank_def paint_bytes_def) (simp add: clear_image_def)
qed

text \<open>
  C15. Drawing on the bytes refines drawing on the canvas: after the image is cleared it shows the blank
  canvas, and as long as it shows a canvas, setting a pixel of it in a colour of the palette and
  setting the pixel of the canvas leave the two showing the same picture, points outside
  included; so the bytes sent show what the painting routines painted.
\<close>

theorem set_pixel_refines:
  assumes "same_picture i cv"
  shows "same_picture (set_pixel x y (paint_rgb p) i) (set_px p x y cv)"
proof (cases "0 \<le> x \<and> x < int (iw i) \<and> 0 \<le> y \<and> y < int (ih i)")
  case False
  then show ?thesis using assms by (auto simp: set_pixel_def set_px_def same_picture_def)
next
  case True
  obtain r g b where rgb: "paint_rgb p = (r, g, b)" by (cases "paint_rgb p")
  define X Y where "X = nat x" and "Y = nat y"
  have XY: "X < iw i" "Y < ih i" "x = int X" "y = int Y" using True by (auto simp: X_def Y_def)
  let ?k = "Y * iw i + X"
  have len: "length (ipix i) = 4 * (iw i * ih i)" using assms by (simp add: same_picture_def)
  have i': "set_pixel x y (paint_rgb p) i =
      i\<lparr>ipix := (ipix i)[4 * ?k := r, 4 * ?k + 1 := g, 4 * ?k + 2 := b, 4 * ?k + 3 := 255]\<rparr>"
    using True by (simp add: set_pixel_def rgb X_def Y_def pix_offset_eq Let_def)
  have "pixel_at (set_pixel x y (paint_rgb p) i) x' y' = paint_bytes (pix (set_px p x y cv) (int x') (int y'))"
    if xy': "x' < iw i" "y' < ih i" for x' y'
  proof -
    let ?j = "y' * iw i + x'"
    have "?k < iw i * ih i" "?j < iw i * ih i" using pixel_index_less XY xy' by blast+
    then have "4 * ?k + 4 \<le> length (ipix i)" "4 * ?j + 4 \<le> length (ipix i)" using len by simp_all
    from set_four_nth [OF this, of r g b 255]
    have "pixel_at (set_pixel x y (paint_rgb p) i) x' y' =
        (if ?j = ?k then [r, g, b, 255] else pixel_at i x' y')"
      by (simp add: i' pixel_at_def pix_offset_eq)
    also have "?j = ?k \<longleftrightarrow> x' = X \<and> y' = Y" by (rule pixel_index_inj) (use xy' XY in simp_all)
    also have "pixel_at i x' y' = paint_bytes (pix cv (int x') (int y'))"
      using assms xy' by (simp add: same_picture_def)
    finally show ?thesis
      using XY assms by (auto simp: set_px_def paint_bytes_def rgb same_picture_def)
  qed
  then show ?thesis using assms by (simp add: same_picture_def)
qed

lemma set_pixel_refines_witness:
  "same_picture (set_pixel 0 0 (paint_rgb HoverBox) (clear_image (new_image 1 1))) (set_px HoverBox 0 0 (blank 1 1))"
proof -
  have "same_picture (clear_image (new_image 1 1)) (blank 1 1)"
    using clear_same_picture [of "new_image 1 1"] by (simp add: new_image_def)
  then show ?thesis by (rule set_pixel_refines)
qed

section \<open>Placeholders\<close>

definition utf8_cont :: "nat \<Rightarrow> char" where
  "utf8_cont n = char_of (128 + n mod 64)"

text \<open>The UTF-8 encoding of a code point.\<close>

definition utf8 :: "nat \<Rightarrow> string" where
  "utf8 n =
     (if n < 128 then [char_of n]
      else if n < 2048 then [char_of (192 + n div 64), utf8_cont n]
      else if n < 65536 then [char_of (224 + n div 4096), utf8_cont (n div 64), utf8_cont n]
      else [char_of (240 + n div 262144), utf8_cont (n div 4096), utf8_cont (n div 64), utf8_cont n])"

definition placeholderRune :: nat where "placeholderRune = 0x10EEEE"

definition diacritics :: "nat list" where
  "diacritics =
     [0x305, 0x30D, 0x30E, 0x310, 0x312, 0x33D, 0x33E, 0x33F, 0x346, 0x34A, 0x34B, 0x34C, 0x350,
      0x351, 0x352, 0x357, 0x35B, 0x363, 0x364, 0x365, 0x366, 0x367, 0x368, 0x369, 0x36A, 0x36B,
      0x36C, 0x36D, 0x36E, 0x36F, 0x483, 0x484, 0x485, 0x486, 0x487, 0x592, 0x593, 0x594, 0x595,
      0x597, 0x598, 0x599, 0x59C, 0x59D, 0x59E, 0x59F, 0x5A0, 0x5A1, 0x5A8, 0x5A9, 0x5AB, 0x5AC,
      0x5AF, 0x5C4, 0x610, 0x611, 0x612, 0x613, 0x614, 0x615, 0x616, 0x617, 0x653, 0x654, 0x657,
      0x658, 0x659, 0x65A, 0x65B, 0x65D, 0x65E, 0x6D6, 0x6D7, 0x6D8, 0x6D9, 0x6DA, 0x6DB, 0x6DC,
      0x6DF, 0x6E0, 0x6E1, 0x6E2, 0x6E4, 0x6E7, 0x6E8, 0x6EB, 0x6EC, 0x730, 0x732, 0x733, 0x735,
      0x736, 0x73A, 0x73D, 0x73F, 0x741, 0x743, 0x745, 0x747, 0x749, 0x74A, 0x7EB, 0x7EC, 0x7ED,
      0x7EE, 0x7EF, 0x7F0, 0x7F1, 0x7F2, 0x7F3, 0x816, 0x817, 0x818, 0x819, 0x81B, 0x81C, 0x81D,
      0x81E, 0x81F, 0x820, 0x821, 0x822, 0x823, 0x825, 0x826, 0x827, 0x829, 0x82A, 0x82B, 0x82C,
      0x82D, 0x951, 0x952, 0x953, 0x954, 0xF82, 0xF83, 0xF86, 0xF87, 0x135D, 0x135E, 0x135F,
      0x17DD, 0x193A, 0x1A17, 0x1A75, 0x1A76, 0x1A77, 0x1A78, 0x1A79, 0x1A7A, 0x1A7B, 0x1A7C,
      0x1AB0, 0x1AB1, 0x1AB2, 0x1AB3, 0x1AB4, 0x1AB5, 0x1AB6, 0x1AB7, 0x1AB8, 0x1AB9, 0x1ABA,
      0x1ABB, 0x1ABC, 0x1ABD, 0x1B6B, 0x1B6C, 0x1B6D, 0x1B6E, 0x1B6F, 0x1B70, 0x1B71, 0x1B72,
      0x1B73, 0x1CD0, 0x1CD1, 0x1CD2, 0x1CD4, 0x1CD5, 0x1CD6, 0x1CD7, 0x1CD8, 0x1CD9, 0x1CDA,
      0x1CDB, 0x1CDC, 0x1CDD, 0x1CDE, 0x1CDF, 0x1CE0, 0x1CE2, 0x1CE3, 0x1CE4, 0x1CE5, 0x1CE6,
      0x1CE7, 0x1CE8, 0x1CED, 0x1CF4, 0x1CF8, 0x1CF9, 0x1DC0, 0x1DC1, 0x1DC2, 0x1DC3, 0x1DC4,
      0x1DC5, 0x1DC6, 0x1DC7, 0x1DC8, 0x1DC9, 0x1DCA, 0x1DCB, 0x1DCC, 0x1DCD, 0x1DCE, 0x1DCF,
      0x1DD0, 0x1DD1, 0x1DD2, 0x1DD3, 0x1DD4, 0x1DD5, 0x1DD6, 0x1DD7, 0x1DD8, 0x1DD9, 0x1DDA,
      0x1DDB, 0x1DDC, 0x1DDD, 0x1DDE, 0x1DDF, 0x1DE0, 0x1DE1, 0x1DE2, 0x1DE3, 0x1DE4, 0x1DE5,
      0x1DE6, 0x1DE7, 0x1DE8, 0x1DE9, 0x1DEA, 0x1DEB, 0x1DEC, 0x1DED, 0x1DEE, 0x1DEF, 0x1DF0,
      0x1DF1, 0x1DF2, 0x1DF3, 0x1DF4, 0x1DF5, 0x1DFB, 0x1DFC, 0x1DFD, 0x1DFE, 0x1DFF, 0x20D0,
      0x20D1, 0x20D2, 0x20D3, 0x20D4, 0x20D5, 0x20D6, 0x20D7, 0x20D8, 0x20D9, 0x20DA, 0x20DB,
      0x20DC, 0x20E1, 0x20E5, 0x20E6, 0x20E7, 0x20E8, 0x20E9, 0x20EA, 0x20EB, 0x20EC, 0x20ED,
      0x20EE, 0x20EF, 0x20F0, 0x2CEF, 0x2CF0, 0x2CF1, 0x2D7F, 0x2DE0, 0x2DE1, 0x2DE2, 0x2DE3,
      0x2DE4, 0x2DE5, 0x2DE6, 0x2DE7, 0x2DE8, 0x2DE9, 0x2DEA, 0x2DEB, 0x2DEC, 0x2DED, 0x2DEE,
      0x2DEF, 0x2DF0, 0x2DF1, 0x2DF2, 0x2DF3, 0x2DF4, 0x2DF5, 0x2DF6, 0x2DF7, 0x2DF8, 0x2DF9,
      0x2DFA, 0x2DFB, 0x2DFC, 0x2DFD, 0x2DFE, 0x2DFF, 0x302A, 0x302B, 0x302C, 0x302D, 0x3099,
      0x309A, 0xA66F, 0xA674, 0xA675, 0xA676, 0xA677, 0xA678, 0xA679, 0xA67A, 0xA67B, 0xA67C,
      0xA67D, 0xA69E, 0xA69F, 0xA6F0, 0xA6F1, 0xA806, 0xA8C4, 0xA8E0, 0xA8E1, 0xA8E2, 0xA8E3,
      0xA8E4, 0xA8E5, 0xA8E6, 0xA8E7, 0xA8E8, 0xA8E9, 0xA8EA, 0xA8EB, 0xA8EC, 0xA8ED, 0xA8EE,
      0xA8EF, 0xA8F0, 0xA8F1, 0xAAB0, 0xAAB2, 0xAAB3, 0xAAB4, 0xAAB7, 0xAAB8, 0xAABE, 0xAABF,
      0xAAC1, 0xAAEC, 0xAAED, 0xAAF6, 0xABE5, 0xABE8, 0xABED, 0xFB1E, 0xFE00, 0xFE01, 0xFE02,
      0xFE03, 0xFE04, 0xFE05, 0xFE06, 0xFE07, 0xFE08, 0xFE09, 0xFE0A, 0xFE0B, 0xFE0C, 0xFE0D,
      0xFE0E, 0xFE0F, 0xFE20, 0xFE21, 0xFE22, 0xFE23, 0xFE24, 0xFE25, 0xFE26, 0xFE27, 0xFE28,
      0xFE29, 0xFE2A, 0xFE2B, 0xFE2C, 0xFE2D, 0xFE2E, 0xFE2F, 0x101FD, 0x102E0, 0x10376, 0x10377,
      0x10378, 0x10379, 0x1037A, 0x10A0D, 0x10A0F, 0x10A38, 0x10A39, 0x10A3A, 0x10A3F, 0x10AE5,
      0x10AE6, 0x11001, 0x11038, 0x11039, 0x1103A, 0x1103B, 0x1103C, 0x1103D, 0x1103E, 0x1103F,
      0x11040, 0x11041, 0x11042, 0x11043, 0x11044, 0x11045, 0x11046, 0x1107F, 0x110B3, 0x110B4,
      0x110B5, 0x110B6, 0x110B9, 0x110BA, 0x11100, 0x11101, 0x11102, 0x11127, 0x11128, 0x11129,
      0x1112A, 0x1112B, 0x1112D, 0x1112E, 0x1112F, 0x11130, 0x11131, 0x11132, 0x11133, 0x11134,
      0x11173, 0x11180, 0x11181, 0x111B6, 0x111B7, 0x111B8, 0x111B9, 0x111BA, 0x111BB, 0x111BC,
      0x111BD, 0x111BE, 0x111CA, 0x111CB, 0x111CC, 0x1122F, 0x11230, 0x11231, 0x11234, 0x11236,
      0x11237, 0x1123E, 0x112DF, 0x112E3, 0x112E4, 0x112E5, 0x112E6, 0x112E7, 0x112E8, 0x112E9,
      0x112EA, 0x11300, 0x11301, 0x1133C, 0x1133E, 0x11340, 0x11366, 0x11367, 0x11368, 0x11369,
      0x1136A, 0x1136B, 0x1136C, 0x11370, 0x11371, 0x11372, 0x11373, 0x11374, 0x11438, 0x11439,
      0x1143A, 0x1143B, 0x1143C, 0x1143D, 0x1143E, 0x1143F, 0x11442, 0x11443, 0x11444, 0x11446,
      0x114B3, 0x114B4, 0x114B5, 0x114B6, 0x114B7, 0x114B8, 0x114BA, 0x114BF, 0x114C0, 0x114C2,
      0x114C3, 0x115B2, 0x115B3, 0x115B4, 0x115B5, 0x115BC, 0x115BD, 0x115BF, 0x115C0, 0x115DC,
      0x115DD, 0x11633, 0x11634, 0x11635, 0x11636, 0x11637, 0x11638, 0x11639, 0x1163A, 0x1163D,
      0x1163F, 0x11640, 0x116AB, 0x116AD, 0x116B0, 0x116B1, 0x116B2, 0x116B3, 0x116B4, 0x116B5,
      0x116B7, 0x1171D, 0x1171E, 0x1171F, 0x11722, 0x11723, 0x11724, 0x11725, 0x11727, 0x11728,
      0x11729, 0x1172A, 0x1172B, 0x11C30, 0x11C31, 0x11C32, 0x11C33, 0x11C34, 0x11C35, 0x11C36,
      0x11C38, 0x11C39, 0x11C3A, 0x11C3B, 0x11C3C, 0x11C3D, 0x11C3F, 0x11C92, 0x11C93, 0x11C94,
      0x11C95, 0x11C96, 0x11C97, 0x11C98, 0x11C99, 0x11C9A, 0x11C9B, 0x11C9C, 0x11C9D, 0x11C9E,
      0x11C9F, 0x11CA0, 0x11CA1, 0x11CA2, 0x11CA3, 0x11CA4, 0x11CA5, 0x11CA6, 0x11CA7, 0x11CAA,
      0x11CAB, 0x11CAC, 0x11CAD, 0x11CAE, 0x11CAF, 0x11CB0, 0x11CB2, 0x11CB3, 0x11CB5, 0x11CB6,
      0x16AF0, 0x16AF1, 0x16AF2, 0x16AF3, 0x16AF4, 0x16B30, 0x16B31, 0x16B32, 0x16B33, 0x16B34,
      0x16B35, 0x16B36, 0x1BC9D, 0x1BC9E, 0x1D167, 0x1D168, 0x1D169, 0x1D17B, 0x1D17C, 0x1D17D,
      0x1D17E, 0x1D17F, 0x1D180, 0x1D181, 0x1D182, 0x1D185, 0x1D186, 0x1D187, 0x1D188, 0x1D189,
      0x1D18A, 0x1D18B, 0x1D1AA, 0x1D1AB, 0x1D1AC, 0x1D1AD, 0x1D242, 0x1D243, 0x1D244, 0x1E000,
      0x1E001, 0x1E002, 0x1E003, 0x1E004, 0x1E005, 0x1E006, 0x1E008, 0x1E009, 0x1E00A, 0x1E00B,
      0x1E00C, 0x1E00D, 0x1E00E, 0x1E00F, 0x1E010, 0x1E011, 0x1E012, 0x1E013, 0x1E014, 0x1E015,
      0x1E016, 0x1E017, 0x1E018, 0x1E01B, 0x1E01C, 0x1E01D, 0x1E01E, 0x1E01F, 0x1E020, 0x1E021,
      0x1E023, 0x1E024, 0x1E026, 0x1E027, 0x1E028, 0x1E029, 0x1E02A, 0x1E8D0, 0x1E8D1, 0x1E8D2,
      0x1E8D3, 0x1E8D4, 0x1E8D5, 0x1E8D6]"

definition diacritic :: "int \<Rightarrow> nat" where
  "diacritic pos =
     (if pos < 0 \<or> int (length diacritics) \<le> pos then diacritics ! 0 else diacritics ! nat pos)"

definition placeholderRow :: "int \<Rightarrow> int \<Rightarrow> string" where
  "placeholderRow row cols =
     (let r = pixmapImageID div 65536 mod 256; g = pixmapImageID div 256 mod 256; b = pixmapImageID mod 256
      in [CHR 0x1B] @ ''[38;2;'' @ decimal r @ '';'' @ decimal g @ '';'' @ decimal b @ ''m'' @
         utf8 placeholderRune @ utf8 (diacritic row) @ utf8 (diacritic 0) @
         utf8 (diacritic (int (pixmapImageID div 16777216))) @
         concat (replicate (nat (cols - 1)) (utf8 placeholderRune)) @ [CHR 0x1B] @ ''[39m'')"

lemma diacritics_length: "length diacritics = 711"
  by (simp add: diacritics_def)

lemma diacritics_increasing: "successively (<) diacritics"
  unfolding diacritics_def by (simp only: successively.simps) simp

lemma diacritics_distinct: "distinct diacritics"
proof -
  have "sorted_wrt (<) diacritics"
    using diacritics_increasing by (subst (asm) successively_conv_sorted_wrt) (auto intro: transpI)
  then show ?thesis by (simp add: strict_sorted_iff)
qed

text \<open>
  Rows of the picture have diacritics of their own up to the length of the table; from there on every
  row carries the one of the first row, and the terminal repeats the top of the picture.
\<close>

theorem diacritic_identifies_row:
  assumes "0 \<le> row" and "row < 711" and "0 \<le> row'"
  shows "diacritic row' = diacritic row \<longleftrightarrow> row' = row \<or> (row = 0 \<and> 711 \<le> row')"
proof -
  have "diacritics ! nat row' = diacritics ! nat row \<longleftrightarrow> row' = row" if "row' < 711"
    using that assms diacritics_distinct by (subst nth_eq_iff_index_eq) (auto simp: diacritics_length)
  moreover have "diacritics ! 0 = diacritics ! nat row \<longleftrightarrow> row = 0"
    using assms diacritics_distinct by (subst nth_eq_iff_index_eq) (auto simp: diacritics_length)
  ultimately show ?thesis using assms by (auto simp: diacritic_def diacritics_length)
qed


end
