(* ===== verification/Compare.thy ===== *)
theory Compare
  imports Snapshot
begin

text \<open>
  Comparing snapshots, \<^verbatim>\<open>packages/fragview/compare.go\<close>: the numbers taken from one snapshot,
  their medians per build, the assertions of the command line, and the verdict on each that
  decides the exit status. A \<^verbatim>\<open>map[string]float64\<close> is an association list; a missing key reads
  as zero.
\<close>

section \<open>The numbers of one snapshot\<close>

record snap_metrics =
  mlabel :: string
  mkernel :: string
  mblocks :: nat
  mhostage :: nat
  mpinned :: nat
  mmixed :: nat
  mslabIn :: nat
  marcIn :: nat
  morder10 :: u64
  munusable :: rat
  mtypes :: table
  marcSize :: u64
  mslabAll :: u64
  mkswapd :: u64
  mdirect :: u64
  mhuge :: u64

definition entry :: "table \<Rightarrow> string \<Rightarrow> u64" where
  "entry t k = (case map_of t k of None \<Rightarrow> 0 | Some n \<Rightarrow> n)"

text \<open>The loop over the blocks: mixed blocks, and slab and ARC pages inside hostages.\<close>

definition measure_block ::
  "bool \<Rightarrow> nat \<times> nat \<times> nat \<Rightarrow> block_view \<times> counts \<Rightarrow> nat \<times> nat \<times> nat" where
  "measure_block mv s vc =
     (let (mx, sl, ar) = s; (v, c) = vc;
          owners = length (filter (\<lambda>k. immovable mv k \<and> 0 < c k) used_classes)
      in (if owners > 1 then mx + 1 else mx,
          if hostage v then sl + unat (c clSlab) else sl,
          if hostage v then ar + unat (c clABD) else ar))"

fun add_names :: "string list \<Rightarrow> u64 list \<Rightarrow> table \<Rightarrow> table" where
  "add_names (nm # ns) (n # cs) t = add_names ns cs (AList.update nm n t)"
| "add_names _ _ t = t"

definition map_frame_of :: "report_frame \<Rightarrow> map_frame" where
  "map_frame_of f = \<lparr>m = rf_map f, pagesPerBlock = rf_pagesPerBlock f, views = [], hostages = 0,
     hostageFree = 0, viewFrom = 0, viewTo = int (nblocks (rf_map f))\<rparr>"

definition measure_frame :: "bool \<Rightarrow> report_frame \<Rightarrow> snap_metrics" where
  "measure_frame mv f =
     (let g = frame_summarise mv (map_frame_of f);
          (mx, sl, ar) = foldl (measure_block mv) (0, 0, 0) (zip (views g) (counts (m g)));
          os = orders (rf_ladder f)
      in \<lparr>mlabel = rf_snapshot f, mkernel = rf_kernel f, mblocks = nblocks (m g),
          mhostage = hostages g, mpinned = hostageFree g * 4096, mmixed = mx, mslabIn = sl,
          marcIn = ar, morder10 = (if os = [] then 0 else os ! (length os - 1)),
          munusable = (if os = [] then 0
                       else (case unusableIndex (rf_ladder f) of
                               None \<Rightarrow> 0 | Some ui \<Rightarrow> fl (ui ! (length os - 1) * 100))),
          mtypes = add_names (names (rf_types f)) (tcounts (rf_types f)) [],
          marcSize = entry (rf_arc f) ''size'', mslabAll = entry (rf_mem f) ''Slab'',
          mkswapd = entry (rf_vm f) ''pgscan_kswapd'', mdirect = entry (rf_vm f) ''pgscan_direct'',
          mhuge = entry (rf_mem f) ''HugePages_Total''\<rparr>)"

type_synonym numbers = "(string \<times> rat) list"

definition num_of :: "numbers \<Rightarrow> string \<Rightarrow> rat" where
  "num_of t k = (case map_of t k of None \<Rightarrow> 0 | Some x \<Rightarrow> x)"

definition lower :: "char \<Rightarrow> char" where
  "lower c = (if 65 \<le> (of_char c :: nat) \<and> (of_char c :: nat) \<le> 90 then char_of (of_char c + 32 :: nat) else c)"

definition float_of :: "nat \<Rightarrow> rat" where
  "float_of n = fl (of_nat n)"

definition metric_fields :: "snap_metrics \<Rightarrow> numbers" where
  "metric_fields d =
     foldl (\<lambda>out (nm, n). AList.update (''blocks_'' @ map lower nm) (float_of (unat n)) out)
       [(''mixed'', float_of (mmixed d)), (''hostage'', float_of (mhostage d)),
        (''pinned'', float_of (mpinned d)), (''slab_in'', float_of (mslabIn d)),
        (''arc_in'', float_of (marcIn d)), (''order10'', float_of (unat (morder10 d))),
        (''unusable'', munusable d), (''arc_size'', float_of (unat (marcSize d))),
        (''slab_size'', float_of (unat (mslabAll d))),
        (''kswapd_scan'', float_of (unat (mkswapd d))), (''hugepages'', float_of (unat (mhuge d))),
        (''direct_scan'', float_of (unat (mdirect d))), (''blocks'', float_of (mblocks d))]
       (mtypes d)"

section \<open>Medians per build\<close>

definition median :: "rat list \<Rightarrow> rat" where
  "median xs =
     (let s = sort xs; n = length s
      in if n = 0 then 0
         else if n mod 2 = 1 then s ! (n div 2)
         else fl (fl (s ! (n div 2 - 1) + s ! (n div 2)) / 2))"

record build_group =
  glabel :: string
  seeds :: "numbers list"
  gmedian :: numbers

text \<open>\<^verbatim>\<open>byLabel\<close> and \<^verbatim>\<open>seen\<close> together: the groups in the order their labels first come up.\<close>

fun add_seed :: "string \<Rightarrow> numbers \<Rightarrow> build_group list \<Rightarrow> build_group list" where
  "add_seed name ns [] = [\<lparr>glabel = name, seeds = [ns], gmedian = []\<rparr>]"
| "add_seed name ns (g # gs) =
     (if glabel g = name then g\<lparr>seeds := seeds g @ [ns]\<rparr> # gs else g # add_seed name ns gs)"

definition build_of :: "string \<Rightarrow> string" where
  "build_of lbl = (case cut ''/'' lbl of None \<Rightarrow> lbl | Some (a, _) \<Rightarrow> a)"

text \<open>
  The first loop of \<^verbatim>\<open>groupSnapshots\<close>: each path is the record in its file, nothing where it
  does not open or decode. Reading sets the package variables the numbers are then taken with.
\<close>

fun load_groups ::
  "pkg_vars \<Rightarrow> snapshot option list \<Rightarrow> build_group list \<Rightarrow> build_group list go_result" where
  "load_groups vars [] gs = Inr gs"
| "load_groups vars (p # ps) gs =
     (case p of
        None \<Rightarrow> Inl (IOError ''open'')
      | Some s \<Rightarrow>
          and_then (readSnapshot vars s) (\<lambda>(f, vars').
            load_groups vars' ps
              (add_seed (build_of (rf_snapshot f)) (metric_fields (measure_frame (abdMovable vars') f)) gs)))"

definition set_median :: "build_group \<Rightarrow> build_group" where
  "set_median g =
     g\<lparr>gmedian := map (\<lambda>kv. (fst kv, median (map (\<lambda>s. num_of s (fst kv)) (seeds g)))) (hd (seeds g))\<rparr>"

definition find_group :: "build_group list \<Rightarrow> string \<Rightarrow> build_group option" where
  "find_group gs name = find (\<lambda>g. glabel g = name) gs"

definition order_groups :: "string list \<Rightarrow> build_group list \<Rightarrow> build_group list" where
  "order_groups order gs =
     (let known = map glabel gs; order' = (if order = [] then known else order)
      in List.map_filter (find_group gs) order' @ filter (\<lambda>g. glabel g \<notin> set order') gs)"

definition groupSnapshots ::
  "pkg_vars \<Rightarrow> snapshot option list \<Rightarrow> string list \<Rightarrow> build_group list go_result" where
  "groupSnapshots vars ps order =
     and_then (load_groups vars ps []) (\<lambda>gs. Inr (order_groups order (map set_median gs)))"

section \<open>Assertions\<close>

record expectation =
  emetric :: string
  efrom :: string
  eto :: string
  atMost :: bool
  ebound :: rat
  egate :: string
  efloor :: rat
  eceiling :: rat
  skipNoSignal :: bool

definition no_expectation :: expectation where
  "no_expectation = \<lparr>emetric = [], efrom = [], eto = [], atMost = False, ebound = 0, egate = [],
     efloor = 0, eceiling = 0, skipNoSignal = False\<rparr>"

text \<open>
  \<^verbatim>\<open>strconv.ParseFloat\<close> on decimal numbers: a sign, digits with at most one point, an exponent.
  The other spellings it knows, infinities, NaN and hexadecimal numbers, are errors here.
\<close>

definition is_digit :: "char \<Rightarrow> bool" where
  "is_digit c \<longleftrightarrow> 48 \<le> (of_char c :: nat) \<and> (of_char c :: nat) \<le> 57"

definition digits_val :: "string \<Rightarrow> nat" where
  "digits_val s = foldl (\<lambda>n c. n * 10 + (of_char c - 48)) 0 s"

definition split_sign :: "string \<Rightarrow> bool \<times> string" where
  "split_sign s =
     (case s of [] \<Rightarrow> (False, [])
      | c # cs \<Rightarrow> if c = CHR ''-'' then (True, cs) else if c = CHR ''+'' then (False, cs) else (False, s))"

definition parse_exponent :: "string \<Rightarrow> int option" where
  "parse_exponent s =
     (let (neg, ds) = split_sign s
      in if ds = [] \<or> \<not> list_all is_digit ds then None
         else Some (if neg then - int (digits_val ds) else int (digits_val ds)))"

definition parse_float :: "string \<Rightarrow> rat option" where
  "parse_float s =
     (let (neg, s1) = split_sign s;
          ip = takeWhile is_digit s1; r1 = dropWhile is_digit s1;
          (fp, r2) = (if r1 \<noteq> [] \<and> hd r1 = CHR ''.''
                      then (takeWhile is_digit (tl r1), dropWhile is_digit (tl r1)) else ([], r1));
          mant = rat_of_nat (digits_val (ip @ fp)) / 10 ^ length fp;
          val = (\<lambda>e. let x = fl (mant * 10 powi e) in if neg then - x else x)
      in if ip @ fp = [] then None
         else if r2 = [] then Some (val 0)
         else if hd r2 = CHR ''e'' \<or> hd r2 = CHR ''E'' then map_option val (parse_exponent (tl r2))
         else None)"

definition bad_spec :: "string \<Rightarrow> go_error" where
  "bad_spec what = BadInput what"

text \<open>What follows the bound after an at sign: the gate, its floor and maybe a ceiling.\<close>

definition parse_gate :: "string \<Rightarrow> expectation \<Rightarrow> expectation go_result" where
  "parse_gate g e =
     (case cut '':'' g of
        None \<Rightarrow> Inl (bad_spec ''no metric:floor after @'')
      | Some (name, bounds) \<Rightarrow>
          (let (floorStr, ceilStr) =
                 (case cut '':'' bounds of None \<Rightarrow> (bounds, None) | Some (a, b) \<Rightarrow> (a, Some b))
           in case parse_float floorStr of
                None \<Rightarrow> Inl (bad_spec ''bad floor'')
              | Some f \<Rightarrow>
                  (let e' = e\<lparr>egate := name, efloor := f\<rparr>
                   in case ceilStr of
                        None \<Rightarrow> Inr e'
                      | Some c \<Rightarrow>
                          (case parse_float c of
                             None \<Rightarrow> Inl (bad_spec ''bad ceiling'')
                           | Some x \<Rightarrow> Inr (e'\<lparr>eceiling := x\<rparr>)))))"

definition parse_bound :: "string \<Rightarrow> expectation \<Rightarrow> expectation go_result" where
  "parse_bound s e =
     (case parse_float s of None \<Rightarrow> Inl (bad_spec ''bad bound'') | Some b \<Rightarrow> Inr (e\<lparr>ebound := b\<rparr>))"

definition parseExpectation :: "string \<Rightarrow> expectation go_result" where
  "parseExpectation spec =
     (case cut '':'' spec of
        None \<Rightarrow> Inl (bad_spec ''no metric'')
      | Some (metric, rest) \<Rightarrow>
          (let op = (if cut ''<='' rest = None then ''>='' else ''<='')
           in case cut op rest of
                None \<Rightarrow> Inl (bad_spec ''no <= or >='')
              | Some (pair, boundStr) \<Rightarrow>
                  (case cut ''->'' pair of
                     None \<Rightarrow> Inl (bad_spec ''no ->'')
                   | Some (f, t) \<Rightarrow>
                       (let e = no_expectation\<lparr>emetric := metric, atMost := (op = ''<=''), efrom := f,
                                  eto := trim_suffix ''?skip'' t, skipNoSignal := has_suffix ''?skip'' t\<rparr>
                        in case cut ''@'' boundStr of
                             None \<Rightarrow> parse_bound boundStr e
                           | Some (bound, g) \<Rightarrow> and_then (parse_gate g e) (parse_bound bound)))))"

section \<open>Verdicts\<close>

record verdict =
  vexp :: expectation
  va :: rat
  vb :: rat
  vratio :: rat
  vok :: bool
  vmissing :: string
  vnosignal :: bool
  vdropped :: nat

definition no_verdict :: "expectation \<Rightarrow> verdict" where
  "no_verdict e = \<lparr>vexp = e, va = 0, vb = 0, vratio = 0, vok = False, vmissing = [],
     vnosignal = False, vdropped = 0\<rparr>"

definition fatal :: "verdict \<Rightarrow> bool" where
  "fatal v =
     (if vmissing v \<noteq> [] then True
      else if vnosignal v then \<not> skipNoSignal (vexp v)
      else \<not> vok v)"

text \<open>The loop over the seeds of the baseline, up to the last one that has a partner.\<close>

fun paired_loop ::
  "string \<Rightarrow> rat \<Rightarrow> numbers list \<Rightarrow> numbers list \<Rightarrow> rat list \<Rightarrow> rat list \<Rightarrow> nat \<Rightarrow>
   rat list \<times> rat list \<times> nat" where
  "paired_loop metric ceil (s # ss) (t # ts) a b dropped =
     (if num_of s metric \<ge> ceil then paired_loop metric ceil ss ts a b (dropped + 1)
      else paired_loop metric ceil ss ts (a @ [num_of s metric]) (b @ [num_of t metric]) dropped)"
| "paired_loop metric ceil _ _ a b dropped = (a, b, dropped)"

definition pairedBelow :: "build_group \<Rightarrow> build_group \<Rightarrow> string \<Rightarrow> rat \<Rightarrow> rat \<times> rat \<times> nat" where
  "pairedBelow gf gt metric ceil =
     (let (a, b, dropped) = paired_loop metric ceil (seeds gf) (seeds gt) [] [] 0
      in if a = [] then (num_of (gmedian gf) metric, num_of (gmedian gt) metric, dropped)
         else (median a, median b, dropped))"

definition judge_pair :: "build_group \<Rightarrow> build_group \<Rightarrow> expectation \<Rightarrow> verdict" where
  "judge_pair gf gt e =
     (let (a, b, dropped) =
            (if 0 < eceiling e then pairedBelow gf gt (emetric e) (eceiling e)
             else (num_of (gmedian gf) (emetric e), num_of (gmedian gt) (emetric e), 0));
          v = (no_verdict e)\<lparr>va := a, vb := b, vdropped := dropped\<rparr>;
          gauge = (if egate e \<noteq> [] then num_of (gmedian gf) (egate e) else a)
      in if a = 0 \<or> (0 < efloor e \<and> gauge < efloor e) \<or> (0 < eceiling e \<and> gauge \<ge> eceiling e)
         then v\<lparr>vnosignal := True\<rparr>
         else
           (let r = fl (b / a)
            in v\<lparr>vratio := r, vok := (if atMost e then r \<le> ebound e else r \<ge> ebound e)\<rparr>))"

definition judge_one :: "build_group list \<Rightarrow> expectation \<Rightarrow> verdict" where
  "judge_one gs e =
     (case find_group (rev gs) (efrom e) of
        None \<Rightarrow> (no_verdict e)\<lparr>vmissing := efrom e\<rparr>
      | Some gf \<Rightarrow>
          (case find_group (rev gs) (eto e) of
             None \<Rightarrow> (no_verdict e)\<lparr>vmissing := eto e\<rparr>
           | Some gt \<Rightarrow> judge_pair gf gt e))"

definition judge :: "build_group list \<Rightarrow> expectation list \<Rightarrow> verdict list" where
  "judge gs specs = map (judge_one gs) specs"

definition verdict_state :: "verdict \<Rightarrow> string" where
  "verdict_state v =
     (if vmissing v \<noteq> [] then ''MISSING '' @ vmissing v
      else if vnosignal v then ''NO SIGNAL''
      else if vok v then ''ok'' else ''FAILED'')"

definition verdict_op :: "verdict \<Rightarrow> string" where
  "verdict_op v = (if atMost (vexp v) then ''<='' else ''>='')"

fun parse_all :: "string list \<Rightarrow> expectation list go_result" where
  "parse_all [] = Inr []"
| "parse_all (s # ss) =
     and_then (parseExpectation s) (\<lambda>e. and_then (parse_all ss) (\<lambda>es. Inr (e # es)))"

record compare_opts =
  co_order :: "string list"
  co_expect :: "string list"
  txtOut :: string
  mdOut :: string
  jsonOut :: string

text \<open>
  \<^verbatim>\<open>compareSnapshots\<close>: the exit status, with the groups the tables are printed from and the
  verdicts. Errors of reading and parsing exit with one before anything is printed; then the
  files asked for are written, of which \<open>writes\<close> says whether it works. The page in markdown
  takes the number of seeds from the first group, which stops the program if there is none.
\<close>

definition compareSnapshots ::
  "pkg_vars \<Rightarrow> (string \<Rightarrow> bool) \<Rightarrow> snapshot option list \<Rightarrow> compare_opts \<Rightarrow>
   int \<times> build_group list \<times> verdict list" where
  "compareSnapshots vars writes ps o' =
     (case groupSnapshots vars ps (co_order o') of
        Inl _ \<Rightarrow> (1, [], [])
      | Inr gs \<Rightarrow>
          (case parse_all (co_expect o') of
             Inl _ \<Rightarrow> (1, [], [])
           | Inr specs \<Rightarrow>
               (let vs = judge gs specs
                in (if txtOut o' \<noteq> [] \<and> \<not> writes (txtOut o') then 1
                    else if mdOut o' \<noteq> [] \<and> gs = [] then 2
                    else if mdOut o' \<noteq> [] \<and> \<not> writes (mdOut o') then 1
                    else if jsonOut o' \<noteq> [] \<and> \<not> writes (jsonOut o') then 1
                    else if list_ex fatal vs then 1 else 0,
                    gs, vs))))"

section \<open>Medians\<close>

lemma count_prefix:
  assumes "\<forall>j < length s. i \<le> j \<longrightarrow> \<not> P (s ! j)"
  shows "length (filter P s) \<le> i"
proof -
  have "filter P (drop i s) = []"
    using assms by (auto simp: filter_empty_conv in_set_conv_nth)
  then have "filter P s = filter P (take i s)"
    by (metis append.right_neutral append_take_drop_id filter_append)
  then show ?thesis using length_filter_le [of P "take i s"] by simp
qed

lemma count_suffix:
  assumes "\<forall>j < length s. j < i \<longrightarrow> \<not> P (s ! j)"
  shows "length (filter P s) \<le> length s - i"
proof -
  have "filter P (take i s) = []"
    using assms by (auto simp: filter_empty_conv in_set_conv_nth)
  then have "filter P s = filter P (drop i s)"
    by (metis append_Nil append_take_drop_id filter_append)
  then show ?thesis using length_filter_le [of P "drop i s"] by simp
qed

lemma median_middle:
  assumes "xs \<noteq> []" and "\<forall>x \<in> set xs. fl x = x"
  shows "sort xs ! ((length xs - 1) div 2) \<le> median xs \<and> median xs \<le> sort xs ! (length xs div 2)"
proof -
  let ?s = "sort xs" and ?n = "length xs"
  have n: "0 < ?n" using assms(1) by simp
  show ?thesis
  proof (cases "?n mod 2 = 1")
    case True
    then have "(?n - 1) div 2 = ?n div 2" by presburger
    moreover have "sort xs \<noteq> []" using n by (metis length_0_conv length_sort less_irrefl)
    ultimately show ?thesis using True n by (simp add: median_def Let_def)
  next
    case False
    then have h: "(?n - 1) div 2 = ?n div 2 - 1" by presburger
    let ?a = "?s ! (?n div 2 - 1)" and ?b = "?s ! (?n div 2)"
    have i: "?n div 2 - 1 < ?n" "?n div 2 < ?n" using n by linarith+
    have le: "?a \<le> ?b" using i by (intro sorted_nth_mono) simp_all
    have "?a \<in> set xs" "?b \<in> set xs" using i by (metis length_sort nth_mem set_sort)+
    then have fl: "fl ?a = ?a" "fl ?b = ?b" using assms(2) by auto
    have two: "fl (2 * x) = 2 * x" if "fl x = x" for x
      using fl_scale [of x 1] that by (simp add: mult.commute)
    have "2 * ?a \<le> fl (?a + ?b)" using le by (intro f64.rnd_ge two [OF fl(1)]) simp
    then have "?a \<le> fl (fl (?a + ?b) / 2)" using fl(1) by (intro f64.rnd_ge) simp_all
    moreover have "fl (?a + ?b) \<le> 2 * ?b" using le by (intro f64.rnd_le two [OF fl(2)]) simp
    then have "fl (fl (?a + ?b) / 2) \<le> ?b" using fl(2) by (intro f64.rnd_le) simp_all
    moreover have "sort xs \<noteq> []" using n by (metis length_0_conv length_sort less_irrefl)
    ultimately show ?thesis using False n h by (simp add: median_def Let_def)
  qed
qed

text \<open>
  The median of a metric is in the middle of the seeds: no more than half of them are below
  it and no more than half above, it lies between two of them, and their order does not
  matter. The floating-point mean of two middle values stays between them.
\<close>

theorem median_splits:
  assumes "xs \<noteq> []" and "\<forall>x \<in> set xs. fl x = x"
  shows "2 * length (filter (\<lambda>x. x < median xs) xs) \<le> length xs \<and>
    2 * length (filter (\<lambda>x. median xs < x) xs) \<le> length xs \<and>
    (\<exists>x \<in> set xs. x \<le> median xs) \<and> (\<exists>x \<in> set xs. median xs \<le> x) \<and>
    (\<forall>ys. mset ys = mset xs \<longrightarrow> median ys = median xs)"
proof -
  let ?s = "sort xs" and ?n = "length xs" and ?m = "median xs"
  have n: "0 < ?n" using assms(1) by simp
  then have i: "(?n - 1) div 2 < ?n" "?n div 2 < ?n" by linarith+
  have mid: "?s ! ((?n - 1) div 2) \<le> ?m" "?m \<le> ?s ! (?n div 2)" using median_middle [OF assms] by simp_all
  have count: "length (filter P ?s) = length (filter P xs)" for P
    by (metis mset_filter mset_sort size_mset)
  have "length (filter (\<lambda>x. x < ?m) ?s) \<le> ?n div 2"
  proof (rule count_prefix, intro allI impI)
    fix j
    assume "j < length ?s" "?n div 2 \<le> j"
    then have "?s ! (?n div 2) \<le> ?s ! j" by (intro sorted_nth_mono) simp_all
    then show "\<not> ?s ! j < ?m" using mid by simp
  qed
  then have below: "2 * length (filter (\<lambda>x. x < ?m) xs) \<le> ?n" by (simp add: count)
  have "length (filter (\<lambda>x. ?m < x) ?s) \<le> length ?s - ((?n - 1) div 2 + 1)"
  proof (rule count_suffix, intro allI impI)
    fix j
    assume "j < length ?s" "j < (?n - 1) div 2 + 1"
    then have "?s ! j \<le> ?s ! ((?n - 1) div 2)" using i by (intro sorted_nth_mono) simp_all
    then show "\<not> ?m < ?s ! j" using mid by simp
  qed
  then have above: "2 * length (filter (\<lambda>x. ?m < x) xs) \<le> ?n" using n by (simp add: count)
  have "?s ! ((?n - 1) div 2) \<in> set xs" "?s ! (?n div 2) \<in> set xs"
    using i by (metis length_sort nth_mem set_sort)+
  moreover have "median ys = ?m" if "mset ys = mset xs" for ys
  proof -
    have "sort ys = ?s" using that by (metis properties_for_sort sorted_sort mset_sort)
    then show ?thesis by (simp add: median_def)
  qed
  ultimately show ?thesis using below above mid by blast
qed

lemma median_splits_witness:
  "2 * length (filter (\<lambda>x. x < median [3, 1, 2]) [3, 1, 2]) \<le> length [3, 1, 2 :: rat]"
proof (rule conjunct1, rule median_splits)
  have "fl 3 = 3" "fl 1 = 1" "fl 2 = 2"
    using fl_of_int [of 3] fl_of_int [of 1] fl_of_int [of 2] by simp_all
  then show "\<forall>x \<in> set [3, 1, 2]. fl x = x" by (simp del: fl_of_int)
qed simp


section \<open>Grouping\<close>

text \<open>The build and the numbers of every file, in the order of the command line.\<close>

fun read_seeds :: "pkg_vars \<Rightarrow> snapshot option list \<Rightarrow> (string \<times> numbers) list go_result" where
  "read_seeds vars [] = Inr []"
| "read_seeds vars (p # ps) =
     (case p of
        None \<Rightarrow> Inl (IOError ''open'')
      | Some s \<Rightarrow>
          and_then (readSnapshot vars s) (\<lambda>(f, vars').
            and_then (read_seeds vars' ps) (\<lambda>ss.
              Inr ((build_of (rf_snapshot f), metric_fields (measure_frame (abdMovable vars') f)) # ss))))"

definition add_seeds :: "(string \<times> numbers) list \<Rightarrow> build_group list \<Rightarrow> build_group list" where
  "add_seeds ss gs = fold (\<lambda>(n, ns). add_seed n ns) ss gs"

lemma load_groups_add:
  "load_groups vars ps gs = and_then (read_seeds vars ps) (\<lambda>ss. Inr (add_seeds ss gs))"
proof (induction vars ps gs rule: load_groups.induct)
  case (2 vars p ps gs)
  show ?case
  proof (cases p)
    case (Some s)
    show ?thesis
    proof (cases "readSnapshot vars s")
      case (Inr r)
      obtain f vars' where r: "r = (f, vars')" by fastforce
      show ?thesis
        using 2 Some Inr r by (cases "read_seeds vars' ps") (simp_all add: add_seeds_def)
    qed (simp add: Some)
  qed simp
qed (simp add: add_seeds_def)

definition seeds_of :: "string \<Rightarrow> build_group list \<Rightarrow> numbers list" where
  "seeds_of n gs = concat (map seeds (filter (\<lambda>g. glabel g = n) gs))"

lemma seeds_of_Cons: "seeds_of n (g # gs) = (if glabel g = n then seeds g else []) @ seeds_of n gs"
  by (simp add: seeds_of_def)

lemma add_seed_labels: "glabel ` set (add_seed n ns gs) = insert n (glabel ` set gs)"
  by (induction gs) auto

lemma add_seed_distinct:
  "distinct (map glabel gs) \<Longrightarrow> distinct (map glabel (add_seed n ns gs))"
  by (induction gs) (auto simp: add_seed_labels)

lemma seeds_of_none: "n \<notin> glabel ` set gs \<Longrightarrow> seeds_of n gs = []"
  by (induction gs) (auto simp: seeds_of_Cons seeds_of_def [of n "[]"])

lemma add_seed_seeds_of:
  "distinct (map glabel gs) \<Longrightarrow>
   seeds_of k (add_seed n ns gs) = seeds_of k gs @ (if k = n then [ns] else [])"
proof (induction gs)
  case (Cons g gs)
  then show ?case using seeds_of_none [of k gs] by (auto simp: seeds_of_Cons)
qed (simp add: seeds_of_def)

lemma add_seeds_spec:
  assumes "distinct (map glabel gs)"
  shows "distinct (map glabel (add_seeds ss gs)) \<and>
    glabel ` set (add_seeds ss gs) = glabel ` set gs \<union> fst ` set ss \<and>
    seeds_of k (add_seeds ss gs) = seeds_of k gs @ map snd (filter (\<lambda>s. fst s = k) ss)"
  using assms
proof (induction ss arbitrary: gs)
  case (Cons s ss)
  obtain n ns where s: "s = (n, ns)" by fastforce
  have "add_seeds (s # ss) gs = add_seeds ss (add_seed n ns gs)" by (simp add: add_seeds_def s)
  then show ?case
    using Cons.IH [OF add_seed_distinct [OF Cons.prems, of n ns]] Cons.prems
    by (auto simp: s add_seed_labels add_seed_seeds_of)
qed (simp add: add_seeds_def)

lemma seeds_of_member:
  "distinct (map glabel gs) \<Longrightarrow> g \<in> set gs \<Longrightarrow> seeds_of (glabel g) gs = seeds g"
proof (induction gs)
  case (Cons h gs)
  show ?case
  proof (cases "g = h")
    case True
    then show ?thesis using Cons.prems seeds_of_none [of "glabel h" gs] by (simp add: seeds_of_Cons)
  next
    case False
    then show ?thesis using Cons by (auto simp: seeds_of_Cons)
  qed
qed simp

lemma set_median_simps [simp]:
  "glabel (set_median g) = glabel g" "seeds (set_median g) = seeds g"
  by (simp_all add: set_median_def)

lemma find_group_Some: "find_group gs n = Some g \<Longrightarrow> g \<in> set gs \<and> glabel g = n"
  unfolding find_group_def by (metis (mono_tags, lifting) find_Some_iff nth_mem)

lemma find_group_None: "find_group gs n = None \<longleftrightarrow> n \<notin> glabel ` set gs"
  unfolding find_group_def by (auto simp: find_None_iff)

lemma set_map_filter: "set (List.map_filter f xs) = {y. \<exists>x \<in> set xs. f x = Some y}"
  by (induction xs) (auto simp: map_filter_simps split: option.splits)

lemma order_groups_set: "set (order_groups order gs) = set gs" if "distinct (map glabel gs)"
proof -
  have unique: "find_group gs (glabel g) = Some g" if "g \<in> set gs" for g
  proof (cases "find_group gs (glabel g)")
    case None
    then show ?thesis using \<open>g \<in> set gs\<close> by (auto simp: find_group_None)
  next
    case (Some h)
    then have "h \<in> set gs" "glabel h = glabel g" using find_group_Some by blast+
    then show ?thesis
      using Some \<open>g \<in> set gs\<close> \<open>distinct (map glabel gs)\<close> by (metis distinct_map inj_onD)
  qed
  let ?o = "if order = [] then map glabel gs else order"
  have "set (order_groups order gs) =
      {g. \<exists>n \<in> set ?o. find_group gs n = Some g} \<union> {g \<in> set gs. glabel g \<notin> set ?o}"
    by (auto simp: order_groups_def Let_def set_map_filter)
  also have "\<dots> = set gs" using unique find_group_Some by blast
  finally show ?thesis .
qed


text \<open>
  C30. Every file lands in the group of its build and in no other: the groups are the builds that
  occur among the labels, each once under one label, its seeds are the numbers of its files in
  the order of the command line, and its medians are taken key by key over those seeds. No
  order given on the command line adds or loses a group.
\<close>

theorem groupSnapshots_partitions:
  assumes "groupSnapshots vars ps order = Inr gs"
  shows "\<exists>ss. read_seeds vars ps = Inr ss \<and> glabel ` set gs = fst ` set ss \<and>
    (\<forall>g \<in> set gs. seeds g = map snd (filter (\<lambda>s. fst s = glabel g) ss) \<and>
      gmedian g = map (\<lambda>kv. (fst kv, median (map (\<lambda>s. num_of s (fst kv)) (seeds g)))) (hd (seeds g)))"
proof -
  obtain ss where ss: "read_seeds vars ps = Inr ss"
    using assms by (cases "read_seeds vars ps") (auto simp: groupSnapshots_def load_groups_add)
  let ?gs = "add_seeds ss []"
  have gs: "gs = order_groups order (map set_median ?gs)"
    using assms ss by (simp add: groupSnapshots_def load_groups_add)
  have spec: "distinct (map glabel ?gs)" "glabel ` set ?gs = fst ` set ss"
    "seeds_of k ?gs = map snd (filter (\<lambda>s. fst s = k) ss)" for k
    using add_seeds_spec [of "[]" ss k] by (simp_all add: seeds_of_def)
  have "distinct (map glabel (map set_median ?gs))" using spec(1) by (simp add: comp_def)
  then have set: "set gs = set_median ` set ?gs" using order_groups_set gs by simp
  have "seeds g = map snd (filter (\<lambda>s. fst s = glabel g) ss)" if "g \<in> set gs" for g
    using that set spec(1,3) seeds_of_member [OF spec(1)] by auto
  moreover have "gmedian g = map (\<lambda>kv. (fst kv, median (map (\<lambda>s. num_of s (fst kv)) (seeds g)))) (hd (seeds g))"
    if "g \<in> set gs" for g
    using that set by (auto simp: set_median_def)
  moreover have "glabel ` set gs = fst ` set ss" using set spec(2) by (simp add: image_image)
  ultimately show ?thesis using ss by blast
qed



lemma sample_reads:
  "\<exists>s. \<forall>vars0. \<exists>f vars'. readSnapshot vars0 s = Inr (f, vars') \<and> rf_snapshot f = ''stock/warm''"
proof -
  have kr: "kernelRelease (\<lambda>_. None) = Inr []" by (simp add: kernelRelease_def)
  then obtain s where s: "toSnapshot sample_vars (\<lambda>_. None) [] ''stock/warm'' sample_report = Inr s"
    by (simp add: toSnapshot_def)
  have "map_ok (rf_map sample_report)" "rf_who sample_report \<noteq> Some []"
    "cacheAliases sample_vars \<noteq> Some []"
    by (simp_all add: sample_report_def sample_frame_def map_ok_def sample_vars_def)
  from readSnapshot_toSnapshot [OF this s] show ?thesis by (intro exI [of _ "json_back s"]) force
qed

lemma groups_of_two:
  assumes "readSnapshot vars s = Inr (f1, vars1)" and "readSnapshot vars1 s' = Inr (f2, vars2)"
  shows "\<exists>g gs. groupSnapshots vars [Some s, Some s'] order = Inr (g # gs)"
proof -
  obtain k1 ns1 k2 ns2 where ss: "read_seeds vars [Some s, Some s'] = Inr [(k1, ns1), (k2, ns2)]"
    using assms by simp
  let ?gs = "add_seeds [(k1, ns1), (k2, ns2)] []"
  have spec: "distinct (map glabel ?gs)" "glabel ` set ?gs = {k1, k2}"
    using add_seeds_spec [of "[]" "[(k1, ns1), (k2, ns2)]"] by auto
  have d: "distinct (map glabel (map set_median ?gs))" using spec(1) by (simp add: comp_def set_median_def)
  have "?gs \<noteq> []" using spec(2) by auto
  then have "order_groups order (map set_median ?gs) \<noteq> []"
    using order_groups_set [OF d, of order] by (metis map_is_Nil_conv set_empty)
  then show ?thesis
    using ss by (auto simp: groupSnapshots_def load_groups_add neq_Nil_conv)
qed

lemma groupSnapshots_partitions_witness:
  "\<exists>s gs. groupSnapshots sample_vars [Some s, Some s] [''stock''] = Inr gs \<and>
     glabel ` set gs = {''stock''} \<and> list_all (\<lambda>g. length (seeds g) = 2) gs"
proof -
  obtain s where s: "\<exists>f vars'. readSnapshot vars0 s = Inr (f, vars') \<and> rf_snapshot f = ''stock/warm''" for vars0
    using sample_reads by blast
  have build: "build_of ''stock/warm'' = ''stock''"
    using cut_char [of "CHR ''/''" "''stock''" "''warm''"] by (simp add: build_of_def)
  obtain f1 v1 where 1: "readSnapshot sample_vars s = Inr (f1, v1)" "rf_snapshot f1 = ''stock/warm''"
    using s by blast
  obtain f2 v2 where 2: "readSnapshot v1 s = Inr (f2, v2)" "rf_snapshot f2 = ''stock/warm''"
    using s by blast
  define ns1 where "ns1 = metric_fields (measure_frame (abdMovable v1) f1)"
  define ns2 where "ns2 = metric_fields (measure_frame (abdMovable v2) f2)"
  have read: "read_seeds sample_vars [Some s, Some s] = Inr [(''stock'', ns1), (''stock'', ns2)]"
    using 1 2 build by (simp add: ns1_def ns2_def)
  then obtain gs where gs: "groupSnapshots sample_vars [Some s, Some s] [''stock''] = Inr gs"
    by (simp add: groupSnapshots_def load_groups_add)
  obtain ss where ss: "read_seeds sample_vars [Some s, Some s] = Inr ss" "glabel ` set gs = fst ` set ss"
      "\<forall>g \<in> set gs. seeds g = map snd (filter (\<lambda>x. fst x = glabel g) ss)"
    using groupSnapshots_partitions [OF gs] by blast
  have eq: "ss = [(''stock'', ns1), (''stock'', ns2)]" using ss(1) unfolding read by (rule Inr_inject [symmetric])
  have labels: "glabel ` set gs = {''stock''}" using ss(2) unfolding eq by simp
  have "length (seeds g) = 2" if "g \<in> set gs" for g
  proof -
    have "glabel g = ''stock''" using labels that by blast
    then show ?thesis using ss(3) that unfolding eq by simp
  qed
  then have "list_all (\<lambda>g. length (seeds g) = 2) gs" by (simp add: list_all_iff)
  then show ?thesis using gs labels by blast
qed

lemma groupSnapshots_unique:
  assumes "groupSnapshots vars ps order = Inr gs" and "g \<in> set gs" "h \<in> set gs" "glabel g = glabel h"
  shows "g = h"
proof -
  obtain ss where ss: "read_seeds vars ps = Inr ss"
    using assms(1) by (cases "read_seeds vars ps") (auto simp: groupSnapshots_def load_groups_add)
  let ?gs = "add_seeds ss []"
  have "gs = order_groups order (map set_median ?gs)"
    using assms(1) ss by (simp add: groupSnapshots_def load_groups_add)
  moreover have d: "distinct (map glabel (map set_median ?gs))"
    using add_seeds_spec [of "[]" ss] by (simp add: comp_def)
  ultimately have "g \<in> set (map set_median ?gs)" "h \<in> set (map set_median ?gs)"
    using assms(2,3) order_groups_set [OF d, of order] by simp_all
  then show ?thesis using d assms(4) by (metis distinct_map inj_onD)
qed

section \<open>The exit status\<close>

text \<open>What an assertion asks of the two builds it names.\<close>

definition satisfied :: "build_group \<Rightarrow> build_group \<Rightarrow> expectation \<Rightarrow> bool" where
  "satisfied gf gt e \<longleftrightarrow>
     (let v = judge_pair gf gt e
      in if vnosignal v then skipNoSignal e
         else if atMost e then fl (vb v / va v) \<le> ebound e else ebound e \<le> fl (vb v / va v))"

lemma judge_pair_fatal: "fatal (judge_pair gf gt e) \<longleftrightarrow> \<not> satisfied gf gt e"
  by (simp add: satisfied_def judge_pair_def fatal_def no_verdict_def Let_def split: prod.splits)

lemma missing_fatal: "fatal ((no_verdict e)\<lparr>vmissing := n\<rparr>)"
  by (simp add: fatal_def no_verdict_def)

lemma judge_one_fatal:
  assumes "\<And>g h. g \<in> set gs \<Longrightarrow> h \<in> set gs \<Longrightarrow> glabel g = glabel h \<Longrightarrow> g = h"
  shows "fatal (judge_one gs e) \<longleftrightarrow>
    \<not> (\<exists>gf \<in> set gs. \<exists>gt \<in> set gs. glabel gf = efrom e \<and> glabel gt = eto e \<and> satisfied gf gt e)"
proof (cases "find_group (rev gs) (efrom e)")
  case None
  then have "\<forall>g \<in> set gs. glabel g \<noteq> efrom e" by (simp add: find_group_None image_iff) metis
  then show ?thesis using None by (auto simp: judge_one_def missing_fatal)
next
  case (Some gf)
  note f = find_group_Some [OF Some]
  show ?thesis
  proof (cases "find_group (rev gs) (eto e)")
    case None
    then have "\<forall>g \<in> set gs. glabel g \<noteq> eto e" by (simp add: find_group_None image_iff) metis
    then show ?thesis using Some None by (auto simp: judge_one_def missing_fatal)
  next
    case (Some gt)
    then have "(\<exists>g \<in> set gs. \<exists>h \<in> set gs. glabel g = efrom e \<and> glabel h = eto e \<and> satisfied g h e)
        \<longleftrightarrow> satisfied gf gt e"
      using f find_group_Some [OF Some] assms by (metis set_rev)
    then show ?thesis
      using Some \<open>find_group (rev gs) (efrom e) = Some gf\<close> by (simp add: judge_one_def judge_pair_fatal)
  qed
qed

definition outputs_ok :: "(string \<Rightarrow> bool) \<Rightarrow> compare_opts \<Rightarrow> build_group list \<Rightarrow> bool" where
  "outputs_ok writes o' gs \<longleftrightarrow>
     list_all writes (filter (\<lambda>p. p \<noteq> []) [txtOut o', mdOut o', jsonOut o']) \<and>
     \<not> (mdOut o' \<noteq> [] \<and> gs = [])"


end
