(* ===== verification/Human.thy ===== *)
theory Human
  imports GoStr Float64
begin

text \<open>
  Quantities as text: what the sources use of \<^verbatim>\<open>fmt\<close> on numbers and columns, and \<^verbatim>\<open>humanBytes\<close> and
  \<^verbatim>\<open>humanCount\<close> of \<^verbatim>\<open>packages/fragview/render.go\<close>. A conversion of \<^verbatim>\<open>fmt\<close> rounds the exact value to
  the decimals asked for, ties to even. Its widths count code points, which in UTF-8 are the
  bytes that do not continue one.
\<close>

section \<open>Decimals and columns\<close>

definition pad_zeros :: "nat \<Rightarrow> string \<Rightarrow> string" where
  "pad_zeros k s = replicate (k - length s) (CHR ''0'') @ s"

text \<open>A number of \<open>10 ^ -k\<close>, as \<^verbatim>\<open>%.kf\<close> prints it.\<close>

definition fixed_nat :: "nat \<Rightarrow> nat \<Rightarrow> string" where
  "fixed_nat k n =
     decimal (n div 10 ^ k) @ (if k = 0 then [] else CHR ''.'' # pad_zeros k (decimal (n mod 10 ^ k)))"

definition fixed :: "nat \<Rightarrow> rat \<Rightarrow> string" where
  "fixed k x = (if x < 0 then ''-'' else []) @ fixed_nat k (nat (rne (\<bar>x\<bar> * 10 ^ k)))"

text \<open>\<^verbatim>\<open>%+.0f\<close>.\<close>

definition signed :: "rat \<Rightarrow> string" where
  "signed x = (if x < 0 then ''-'' else ''+'') @ fixed_nat 0 (nat (rne \<bar>x\<bar>))"

definition rune_count :: "string \<Rightarrow> nat" where
  "rune_count s = length (filter (\<lambda>c. of_char c div 64 \<noteq> (2 :: nat)) s)"

definition pad_left :: "nat \<Rightarrow> string \<Rightarrow> string" where
  "pad_left n s = replicate (n - rune_count s) (CHR '' '') @ s"

definition pad_right :: "nat \<Rightarrow> string \<Rightarrow> string" where
  "pad_right n s = s @ replicate (n - rune_count s) (CHR '' '')"

section \<open>Bytes and counts\<close>

definition unit_names :: "string list" where
  "unit_names = [''KiB'', ''MiB'', ''GiB'', ''TiB'']"

text \<open>The loop over the units, with the number of divisions made; there are four units.\<close>

fun scale_down :: "nat \<Rightarrow> rat \<Rightarrow> nat \<Rightarrow> rat \<times> nat" where
  "scale_down 0 v i = (v, i)"
| "scale_down (Suc k) v i = (if v \<ge> 1024 then scale_down k (fl (v / 1024)) (i + 1) else (v, i))"

definition humanBytes :: "u64 \<Rightarrow> string" where
  "humanBytes b =
     (if b < 1024 then decimal (unat b) @ ''B''
      else
        (let (v, i) = scale_down 4 (fl (of_nat (unat b))) 0; name = unit_names ! (i - 1)
         in if v \<ge> 100 then fixed 0 v @ name
            else if v \<ge> 10 then fixed 1 v @ name
            else fixed 2 v @ name))"

definition humanCount :: "u64 \<Rightarrow> string" where
  "humanCount n =
     (let x = fl (of_nat (unat n))
      in if n \<ge> 1000000 then fixed 1 (fl (x / 1000000)) @ ''M''
         else if n \<ge> 10000 then fixed 0 (fl (x / 1000)) @ ''k''
         else if n \<ge> 1000 then fixed 1 (fl (x / 1000)) @ ''k''
         else decimal (unat n))"

section \<open>How far off a printed quantity is\<close>

lemma powi_minus_10: "(2::rat) powi (- 10) = 1 / 1024"
  by (simp add: power_int_minus)

lemma scale_down_spec:
  assumes "fl x = x" and "0 \<le> x"
  shows "\<exists>d. snd (scale_down k x i) = i + d \<and> d \<le> k \<and> fst (scale_down k x i) * 1024 ^ d = x \<and>
    (d < k \<longrightarrow> fst (scale_down k x i) < 1024) \<and> (0 < d \<longrightarrow> 1 \<le> fst (scale_down k x i)) \<and>
    (0 < k \<and> 1024 \<le> x \<longrightarrow> 0 < d)"
  using assms
proof (induction k arbitrary: x i)
  case 0
  then show ?case by simp
next
  case (Suc k)
  show ?case
  proof (cases "x \<ge> 1024")
    case True
    have e: "fl (x / 1024) = x / 1024"
      using f64.rnd_scale [of x "- 10"] Suc.prems(1) by (simp add: powi_minus_10)
    have pos: "0 \<le> x / 1024" using Suc.prems(2) by simp
    obtain d where d: "snd (scale_down k (x / 1024) (i + 1)) = i + 1 + d" "d \<le> k"
      "fst (scale_down k (x / 1024) (i + 1)) * 1024 ^ d = x / 1024"
      "d < k \<longrightarrow> fst (scale_down k (x / 1024) (i + 1)) < 1024"
      "0 < d \<longrightarrow> 1 \<le> fst (scale_down k (x / 1024) (i + 1))"
      using Suc.IH [OF e, of "i + 1"] pos by blast
    have "1 \<le> fst (scale_down k (x / 1024) (i + 1))"
      using d(3,5) True by (cases "d = 0") auto
    moreover have "scale_down (Suc k) x i = scale_down k (x / 1024) (i + 1)"
      using True by (simp only: scale_down.simps e if_True)
    ultimately show ?thesis
      using d(1-4) by (intro exI [of _ "Suc d"]) (simp add: field_simps del: scale_down.simps)
  qed (simp_all)
qed

lemma rne_nonneg: "0 \<le> x \<Longrightarrow> 0 \<le> rne x"
  using rne_ge_int [of 0 x] by simp

text \<open>A printed decimal is off by at most half a unit of its last place.\<close>

lemma fixed_error:
  assumes "0 \<le> x"
  shows "\<exists>n. fixed k x = fixed_nat k n \<and> \<bar>of_nat n / 10 ^ k - x\<bar> \<le> 1 / (2 * 10 ^ k) \<and> int n = rne (x * 10 ^ k)"
proof -
  obtain n where n: "rne (x * 10 ^ k) = int n"
    using rne_nonneg [of "x * 10 ^ k"] assms nonneg_int_cases by (metis mult_nonneg_nonneg zero_le_numeral zero_le_power)
  then have e: "\<bar>of_nat n - x * 10 ^ k\<bar> \<le> 1 / 2" using rne_error [of "x * 10 ^ k"] by simp
  have "of_nat n / 10 ^ k - x = (of_nat n - x * 10 ^ k) / 10 ^ k" by (simp add: field_simps)
  then have "\<bar>of_nat n / 10 ^ k - x\<bar> = \<bar>of_nat n - x * 10 ^ k\<bar> / 10 ^ k"
    by (simp only: abs_divide power_abs abs_numeral)
  also have "\<dots> \<le> (1 / 2) / 10 ^ k" using e by (intro divide_right_mono) auto
  finally show ?thesis using assms n by (intro exI [of _ n]) (simp add: fixed_def)
qed

lemma f64_exact: "unat (b :: u64) \<le> 2 ^ 53 \<Longrightarrow> fl (of_nat (unat b)) = of_nat (unat b)"
  by (rule f64.rnd_nat)

text \<open>
  The decimals shown depend on the size of the value: whatever it is, the text is within one
  part in two hundred of it.
\<close>

definition shown_decimals :: "rat \<Rightarrow> nat" where
  "shown_decimals v = (if v \<ge> 100 then 0 else if v \<ge> 10 then 1 else 2)"

lemma shown_half_unit: "1 \<le> v \<Longrightarrow> 1 / (2 * 10 ^ shown_decimals v) \<le> v / 200"
  by (simp add: shown_decimals_def)

lemma abs_diff_scale: "0 \<le> c \<Longrightarrow> \<bar>a - v\<bar> * c = \<bar>a * c - v * c\<bar>" for a :: rat
  by (simp add: left_diff_distrib [symmetric] abs_mult)

text \<open>
  A size is shown as a number of bytes, or as a decimal with the unit it is counted in, which is
  off from the size by less than one part in 199, for every 64-bit value.
\<close>

theorem humanBytes_close:
  "(b < 1024 \<and> humanBytes b = decimal (unat b) @ ''B'') \<or>
   (\<exists>n k i. humanBytes b = fixed_nat k n @ unit_names ! i \<and> i < 4 \<and> k \<le> 2 \<and>
      \<bar>of_nat n / 10 ^ k * 1024 ^ (i + 1) - of_nat (unat b)\<bar> < rat_of_nat (unat b) / 199)"
proof (cases "b < 1024")
  case True
  then show ?thesis by (simp add: humanBytes_def)
next
  case False
  let ?b = "rat_of_nat (unat b)"
  have "1024 \<le> unat b" using False by (simp add: word_less_nat_alt)
  then have big: "1024 \<le> ?b" by (metis of_nat_le_iff of_nat_numeral)
  define x where "x = fl ?b"
  have x: "fl x = x" "1024 \<le> x"
    using big f64.rnd_ge [of 1024 ?b] fl_of_int [of 1024] by (simp_all add: x_def)
  obtain v i where vi: "scale_down 4 x 0 = (v, i)" by fastforce
  obtain d where d: "i = d" "d \<le> 4" "v * 1024 ^ d = x" "1 \<le> v" "0 < d"
    using scale_down_spec [of x 4 0] x vi by auto
  define k where "k = shown_decimals v"
  have shown: "humanBytes b = fixed k v @ unit_names ! (i - 1)"
    using False vi by (simp add: humanBytes_def x_def k_def shown_decimals_def)
  obtain n where n: "fixed k v = fixed_nat k n" "\<bar>of_nat n / 10 ^ k - v\<bar> \<le> 1 / (2 * 10 ^ k)"
    using fixed_error [of v k] d(4) by auto
  have "\<bar>of_nat n / 10 ^ k - v\<bar> \<le> v / 200" using n(2) shown_half_unit [OF d(4)] by (simp add: k_def)
  then have "\<bar>of_nat n / 10 ^ k - v\<bar> * 1024 ^ d \<le> v / 200 * 1024 ^ d" by (intro mult_right_mono) simp_all
  moreover have "\<bar>of_nat n / 10 ^ k - v\<bar> * 1024 ^ d = \<bar>of_nat n / 10 ^ k * 1024 ^ d - v * 1024 ^ d\<bar>"
    by (rule abs_diff_scale) simp
  ultimately have "\<bar>of_nat n / 10 ^ k * 1024 ^ d - x\<bar> \<le> x / 200" using d(3) by simp
  moreover have "\<bar>x - ?b\<bar> \<le> ?b / 2 ^ 53" using fl_error [of ?b] big unfolding x_def by (metis abs_of_nonneg order_trans zero_le_numeral)
  moreover have "?b / 2 ^ 53 \<le> ?b / 1000000" using big by (intro divide_left_mono) simp_all
  ultimately have "\<bar>of_nat n / 10 ^ k * 1024 ^ d - ?b\<bar> < ?b / 199" using big by linarith
  moreover have "i - 1 + 1 = d" "i - 1 < 4" using d by simp_all
  moreover have "k \<le> 2" by (simp add: k_def shown_decimals_def)
  ultimately show ?thesis using shown n(1) by (intro disjI2 exI [of _ n] exI [of _ k] exI [of _ "i - 1"]) simp
qed

lemma length_decimal: "n < 10 ^ Suc k \<Longrightarrow> length (decimal n) \<le> Suc k"
proof (induction k arbitrary: n)
  case 0
  then show ?case by (simp add: decimal.simps [of n])
next
  case (Suc k)
  then have "n div 10 < 10 ^ Suc k" by (simp add: less_mult_imp_div_less mult.commute)
  then show ?case using Suc.IH by (simp add: decimal.simps [of n])
qed

lemma length_fixed_nat: "0 < k \<Longrightarrow> length (fixed_nat k n) = length (decimal (n div 10 ^ k)) + 1 + k"
  using length_decimal [of "n mod 10 ^ k" "k - 1"] by (simp add: fixed_nat_def pad_zeros_def)

text \<open>A value below \<open>10 ^ j\<close> prints with \<open>j\<close> digits before the point, or as \<open>10 ^ j\<close> itself.\<close>

lemma fixed_length:
  assumes "0 \<le> v" and "v \<le> of_nat c" and "c < 10 ^ Suc j"
  shows "length (fixed k v) \<le> Suc j + (if k = 0 then 0 else Suc k)"
proof -
  obtain n where n: "fixed k v = fixed_nat k n" "int n = rne (v * 10 ^ k)"
    using fixed_error [OF assms(1)] by blast
  have "v * 10 ^ k \<le> of_int (int (c * 10 ^ k))"
    using mult_right_mono [OF assms(2), of "10 ^ k"] by simp
  then have "int n \<le> int (c * 10 ^ k)" unfolding n(2) by (rule rne_le_int)
  then have "n \<le> c * 10 ^ k" by (simp only: of_nat_le_iff)
  then have "n div 10 ^ k \<le> c * 10 ^ k div 10 ^ k" by (rule div_le_mono)
  then have "n div 10 ^ k < 10 ^ Suc j" using assms(3) by simp
  then have "length (decimal (n div 10 ^ k)) \<le> Suc j" by (rule length_decimal)
  then show ?thesis
    unfolding n(1) by (cases "k = 0") (simp add: fixed_nat_def, simp add: length_fixed_nat)
qed

text \<open>
  A size below a pebibyte takes at most eight columns; the ninth column that the tables leave
  keeps the values apart.
\<close>

theorem humanBytes_width:
  assumes "b < 2 ^ 50"
  shows "length (humanBytes b) \<le> 8"
proof (cases "b < 1024")
  case True
  then have "unat b < 10 ^ Suc 3" by (simp add: word_less_nat_alt)
  then show ?thesis using length_decimal [of "unat b" 3] True by (simp add: humanBytes_def)
next
  case False
  let ?b = "rat_of_nat (unat b)"
  have "1024 \<le> unat b" using False by (simp add: word_less_nat_alt)
  then have big: "1024 \<le> ?b" by (metis of_nat_le_iff of_nat_numeral)
  have lt: "unat b < 2 ^ 50" using assms by (simp add: word_less_nat_alt)
  then have x: "fl ?b = ?b" by (intro f64_exact) simp
  obtain v i where vi: "scale_down 4 ?b 0 = (v, i)" by fastforce
  obtain d where d: "i = d" "d \<le> 4" "v * 1024 ^ d = ?b" "1 \<le> v" "0 < d" "d < 4 \<longrightarrow> v < 1024"
    using scale_down_spec [of ?b 4 0] x big vi by auto
  have "?b < 2 ^ 50" using lt by (metis of_nat_less_iff of_nat_numeral of_nat_power)
  then have v: "v \<le> of_nat 1024" using d(2,3,6) by (cases "d = 4") auto
  have "length (unit_names ! (i - 1)) = 3"
  proof -
    have "i - 1 \<in> {0, 1, 2, 3}" using d(1,2) by auto
    then show ?thesis by (auto simp: unit_names_def)
  qed
  moreover have "length (fixed 0 v) \<le> 4" using fixed_length [of v 1024 3 0] v d(4) by simp
  moreover have "length (fixed 1 v) \<le> 5" if "v < 100" using fixed_length [of v 100 2 1] that d(4) by simp
  moreover have "length (fixed 2 v) \<le> 5" if "v < 10" using fixed_length [of v 10 1 2] that d(4) by simp
  moreover have "humanBytes b = (if v \<ge> 100 then fixed 0 v @ unit_names ! (i - 1)
      else if v \<ge> 10 then fixed 1 v @ unit_names ! (i - 1) else fixed 2 v @ unit_names ! (i - 1))"
    using False unfolding humanBytes_def x vi Let_def prod.case by simp
  ultimately show ?thesis by simp
qed

lemma humanBytes_width_witness: "length (humanBytes (1023 * 1024 + 1023)) \<le> 8"
  using humanBytes_width [of "1023 * 1024 + 1023"] by simp

end
