(* ===== verification/Tables.thy ===== *)
theory Tables
  imports Compare Human
begin

text \<open>
  The printed comparison, \<^verbatim>\<open>textTable\<close> and \<^verbatim>\<open>markdownTable\<close> of \<^verbatim>\<open>packages/fragview/compare.go\<close>: the
  value of a metric as text, the change against the first column, and the columns of the
  table, byte for byte. Values are finite and below \<open>2 ^ 63\<close>, as medians of page counts are.
\<close>

section \<open>Rows\<close>

record metric_row =
  rkey :: string
  rtitle :: string
  rbytes :: bool
  rpercent :: bool
  rgap :: bool

definition plain_row :: "string \<Rightarrow> string \<Rightarrow> metric_row" where
  "plain_row k t = \<lparr>rkey = k, rtitle = t, rbytes = False, rpercent = False, rgap = False\<rparr>"

definition metricRows :: "metric_row list" where
  "metricRows =
     [plain_row ''mixed'' ''mixed blocks'',
      plain_row ''hostage'' ''hostage blocks'',
      (plain_row ''pinned'' ''pinned'')\<lparr>rbytes := True\<rparr>,
      plain_row ''slab_in'' ''slab pages in them'',
      (plain_row ''arc_in'' ''arc pages in them'')\<lparr>rgap := True\<rparr>,
      plain_row ''hugepages'' ''huge pages handed out'',
      plain_row ''order10'' ''free at order 10'',
      (plain_row ''unusable'' ''unusable order-10'')\<lparr>rpercent := True, rgap := True\<rparr>,
      plain_row ''blocks_unmovable'' ''Unmovable blocks'',
      plain_row ''blocks_movable'' ''Movable blocks'',
      (plain_row ''blocks_reclaimable'' ''Reclaimable blocks'')\<lparr>rgap := True\<rparr>,
      plain_row ''kswapd_scan'' ''pages scanned by kswapd'',
      (plain_row ''direct_scan'' ''pages scanned directly'')\<lparr>rgap := True\<rparr>,
      (plain_row ''arc_size'' ''ARC'')\<lparr>rbytes := True\<rparr>,
      (plain_row ''slab_size'' ''Slab'')\<lparr>rbytes := True\<rparr>,
      plain_row ''blocks'' ''blocks total'']"

definition show_int :: "int \<Rightarrow> string" where
  "show_int n = (if n < 0 then ''-'' else []) @ decimal (nat \<bar>n\<bar>)"

fun show_by_row :: "metric_row list \<Rightarrow> string \<Rightarrow> rat \<Rightarrow> string" where
  "show_by_row [] key v =
     (if v = fl (of_int (to_int v)) then show_int (to_int v) else fixed 3 v)"
| "show_by_row (r # rs) key v =
     (if rkey r \<noteq> key then show_by_row rs key v
      else if rbytes r then humanBytes (of_int (to_int v))
      else if rpercent r then fixed 0 v @ ''%''
      else show_by_row rs key v)"

definition showValue :: "string \<Rightarrow> rat \<Rightarrow> string" where
  "showValue key v = show_by_row metricRows key v"

text \<open>A cell; \<open>base\<close> is the group of the first column, nothing for that column itself.\<close>

definition cell_text :: "string \<Rightarrow> build_group option \<Rightarrow> build_group \<Rightarrow> string" where
  "cell_text key base g =
     (let v = num_of (gmedian g) key; shown = showValue key v
      in case base of
           None \<Rightarrow> shown
         | Some g0 \<Rightarrow>
             (let b = num_of (gmedian g0) key
              in if b = 0 then shown
                 else shown @ '' ('' @ signed (fl (fl (fl (v / b) - 1) * 100)) @ ''%)''))"

definition row_texts :: "string \<Rightarrow> build_group list \<Rightarrow> string list" where
  "row_texts key gs =
     map (\<lambda>i. cell_text key (if i = 0 then None else Some (gs ! 0)) (gs ! i)) [0 ..< length gs]"

definition tableCells :: "build_group list \<Rightarrow> string list list \<times> nat" where
  "tableCells gs =
     (let rows = map (\<lambda>r. row_texts (rkey r) gs) metricRows;
          w = foldl (\<lambda>w c. max w (rune_count c)) 0 (concat rows);
          w' = foldl (\<lambda>w g. max w (rune_count (glabel g))) w gs
      in (rows, w' + 2))"

definition newline :: string where "newline = [CHR 10]"

definition rule_rune :: string where
  "rule_rune = [CHR 0xE2, CHR 0x94, CHR 0x80]"

definition table_head :: "nat \<Rightarrow> build_group list \<Rightarrow> string" where
  "table_head col gs = pad_right 26 [] @ concat (map (\<lambda>g. pad_left col (glabel g)) gs)"

definition table_line :: "nat \<Rightarrow> metric_row \<Rightarrow> string list \<Rightarrow> string" where
  "table_line col r cs = pad_right 26 (rtitle r) @ concat (map (pad_left col) cs)"

definition textTable :: "build_group list \<Rightarrow> string" where
  "textTable gs =
     (let (rows, col) = tableCells gs; hd_line = table_head col gs
      in hd_line @ newline @ concat (replicate (rune_count hd_line) rule_rune) @ newline @
         concat (map (\<lambda>(r, cs). table_line col r cs @ newline @ (if rgap r then newline else []))
           (zip metricRows rows)))"

definition markdownTable :: "build_group list \<Rightarrow> string" where
  "markdownTable gs =
     (let rows = fst (tableCells gs)
      in ''|  |'' @ concat (map (\<lambda>g. '' '' @ glabel g @ '' |'') gs) @ newline @ ''|---|'' @
         concat (map (\<lambda>_. ''---:|'') gs) @ newline @
         concat (map (\<lambda>(r, cs). ''| '' @ rtitle r @ '' |'' @ concat (map (\<lambda>c. '' '' @ c @ '' |'') cs) @ newline)
           (zip metricRows rows)))"

section \<open>The columns line up\<close>

lemma rune_count_append [simp]: "rune_count (s @ t) = rune_count s + rune_count t"
  by (simp add: rune_count_def)

lemma rune_count_Nil [simp]: "rune_count [] = 0"
  by (simp add: rune_count_def)

lemma rune_count_spaces [simp]: "rune_count (replicate n (CHR '' '')) = n"
  by (simp add: rune_count_def)

lemma rune_count_pad_left [simp]: "rune_count (pad_left n s) = max n (rune_count s)"
  by (simp add: pad_left_def)

lemma rune_count_pad_right [simp]: "rune_count (pad_right n s) = max n (rune_count s)"
  by (simp add: pad_right_def)

lemma rune_count_concat: "rune_count (concat ss) = sum_list (map rune_count ss)"
  by (induction ss) simp_all

lemma foldl_max: "foldl (\<lambda>w c. max w (f c)) w cs = fold max (map f cs) (w :: nat)"
  by (induction cs arbitrary: w) (simp_all add: max.commute)

lemma fold_max_ge: "w \<le> fold max ns (w :: nat)"
  by (induction ns arbitrary: w) (auto intro: order_trans [OF max.cobounded2])

lemma fold_max_in: "n \<in> set ns \<Longrightarrow> n \<le> fold max ns (w :: nat)"
proof (induction ns arbitrary: w)
  case (Cons a ns)
  then show ?case using fold_max_ge [of "max a w" ns] by auto
qed simp

lemma tableCells_width:
  assumes "tableCells gs = (rows, col)"
  shows "rows = map (\<lambda>r. row_texts (rkey r) gs) metricRows"
    and "c \<in> set (concat rows) \<Longrightarrow> rune_count c + 2 \<le> col"
    and "g \<in> set gs \<Longrightarrow> rune_count (glabel g) + 2 \<le> col"
proof -
  let ?w = "fold max (map rune_count (concat rows)) 0"
  have rows: "rows = map (\<lambda>r. row_texts (rkey r) gs) metricRows"
    and col: "col = fold max (map (\<lambda>g. rune_count (glabel g)) gs) ?w + 2"
    using assms by (auto simp: tableCells_def Let_def foldl_max)
  show "rows = map (\<lambda>r. row_texts (rkey r) gs) metricRows" by (fact rows)
  show "rune_count (glabel g) + 2 \<le> col" if "g \<in> set gs"
    using fold_max_in [of "rune_count (glabel g)" "map (\<lambda>g. rune_count (glabel g)) gs" ?w] that by (simp add: col)
  show "rune_count c + 2 \<le> col" if "c \<in> set (concat rows)"
  proof -
    have "rune_count c \<in> set (map rune_count (concat rows))" using that by simp
    then have "rune_count c \<le> ?w" by (rule fold_max_in)
    also have "\<dots> \<le> fold max (map (\<lambda>g. rune_count (glabel g)) gs) ?w" by (rule fold_max_ge)
    finally show ?thesis by (simp add: col)
  qed
qed

lemma rune_count_cells:
  assumes "\<And>c. c \<in> set cs \<Longrightarrow> rune_count c \<le> col"
  shows "rune_count (concat (map (pad_left col) cs)) = length cs * col"
  using assms
proof (induction cs)
  case (Cons c cs)
  then have "rune_count c \<le> col" by simp
  then show ?case using Cons by (simp add: max_absorb1)
qed simp

lemma titles_short: "r \<in> set metricRows \<Longrightarrow> rune_count (rtitle r) \<le> 26"
  by (auto simp: metricRows_def plain_row_def rune_count_def)

text \<open>
  The table lines up: the heading, the rule under it and every row take the same number of
  columns on the screen, twenty-six for the title and one column of the width of the longest
  cell or label, plus two, for every build; so cells of neighbouring columns never touch.
\<close>

theorem textTable_aligned:
  assumes "tableCells gs = (rows, col)" and "(r, cs) \<in> set (zip metricRows rows)"
  shows "rune_count (table_head col gs) = 26 + length gs * col \<and>
    rune_count (table_line col r cs) = 26 + length gs * col \<and>
    rune_count (concat (replicate (rune_count (table_head col gs)) rule_rune)) = 26 + length gs * col \<and>
    (\<forall>c \<in> set cs. rune_count c + 2 \<le> col)"
proof -
  have "rune_count l \<le> col" if "l \<in> set (map glabel gs)" for l
    using that tableCells_width(3) [OF assms(1)] by fastforce
  then have heads: "rune_count (table_head col gs) = 26 + length gs * col"
    using rune_count_cells [of "map glabel gs" col] by (simp add: table_head_def comp_def)
  have "cs \<in> set rows" using assms(2) by (rule set_zip_rightD)
  then have cs: "c \<in> set cs \<Longrightarrow> rune_count c + 2 \<le> col" for c
    using tableCells_width(2) [OF assms(1), of c] by auto
  have fits: "c \<in> set cs \<Longrightarrow> rune_count c \<le> col" for c using cs add_leD1 by blast
  have "\<exists>k. cs = row_texts k gs"
    using \<open>cs \<in> set rows\<close> tableCells_width(1) [OF assms(1)] by auto
  then have len: "length cs = length gs" by (auto simp: row_texts_def)
  have "rune_count (rtitle r) \<le> 26" using assms(2) by (intro titles_short) (rule set_zip_leftD)
  then have "rune_count (table_line col r cs) = 26 + length gs * col"
    using rune_count_cells [OF fits] len by (simp add: table_line_def max_absorb1)
  moreover have "rune_count rule_rune = 1" by (simp add: rule_rune_def rune_count_def)
  ultimately show ?thesis using heads cs by (simp add: rune_count_concat sum_list_replicate)
qed

lemma textTable_aligned_witness:
  "\<exists>rows col. tableCells [\<lparr>glabel = ''stock'', seeds = [], gmedian = [(''mixed'', 7)]\<rparr>] = (rows, col) \<and>
     rune_count (table_line col (hd metricRows) (hd rows)) = 26 + 1 * col"
proof -
  let ?gs = "[\<lparr>glabel = ''stock'', seeds = [], gmedian = [(''mixed'', 7)]\<rparr>]"
  obtain rows col where t: "tableCells ?gs = (rows, col)" by fastforce
  have "rows = map (\<lambda>r. row_texts (rkey r) ?gs) metricRows" by (rule tableCells_width(1) [OF t])
  then have "(hd metricRows, hd rows) \<in> set (zip metricRows rows)" by (simp add: metricRows_def)
  from textTable_aligned [OF t this] t show ?thesis by auto
qed

end
