(* ===== verification/Styled.thy ===== *)
theory Styled
  imports Kitty Tables
begin

text \<open>
  Lines of the screen as pieces of text with a style, for \<^verbatim>\<open>packages/fragview/style.go\<close>. The style
  library turns a piece into escape sequences and is an argument of \<open>line_text\<close>; the columns a
  line takes are its code points, all of width one.
\<close>

datatype style =
    Plain | Title | Head | Rule | Faint | Warn | Bad | Good | Bold | HostageText | ClassColour pclass | CellColour cell_colour

type_synonym line = "(style \<times> string) list"

definition cReset :: string where "cReset = CHR 0x1B # ''[0m''"

fun colour_escape :: "cell_colour \<Rightarrow> string" where
  "colour_escape cHostage = CHR 0x1B # ''[1;38;5;203m''"
| "colour_escape (byOwner c) = classColor c"
| "colour_escape pinFree = esc_colour ''238''"
| "colour_escape pinMovable = esc_colour ''67''"
| "colour_escape pinImmovable = esc_colour ''137''"

text \<open>Map cells and legend blocks go out as raw escapes, the rest through the library.\<close>

fun piece_text :: "(style \<Rightarrow> string \<Rightarrow> string) \<Rightarrow> style \<times> string \<Rightarrow> string" where
  "piece_text paint (Plain, t) = t"
| "piece_text paint (ClassColour c, t) = classColor c @ t @ cReset"
| "piece_text paint (CellColour c, t) = colour_escape c @ t @ cReset"
| "piece_text paint (s, t) = paint s t"

definition line_text :: "(style \<Rightarrow> string \<Rightarrow> string) \<Rightarrow> line \<Rightarrow> string" where
  "line_text paint l = concat (map (piece_text paint) l)"

definition line_width :: "line \<Rightarrow> nat" where
  "line_width l = sum_list (map (\<lambda>p. rune_count (snd p)) l)"

definition plain :: "string \<Rightarrow> line" where "plain s = [(Plain, s)]"
definition faint :: "string \<Rightarrow> line" where "faint s = [(Faint, s)]"
definition head :: "string \<Rightarrow> line" where "head s = [(Head, s)]"

definition rule :: "nat \<Rightarrow> line" where
  "rule w = [(Rule, concat (replicate w rule_rune))]"

definition padVisible :: "line \<Rightarrow> int \<Rightarrow> line" where
  "padVisible l w =
     (let d = w - int (line_width l) in if d > 0 then l @ plain (replicate (nat d) (CHR '' '')) else l)"

definition bar_rune :: string where "bar_rune = utf8 0x2502"

definition joinPanes :: "line list \<Rightarrow> line list \<Rightarrow> int \<Rightarrow> line list" where
  "joinPanes left right leftWidth =
     map (\<lambda>i. padVisible (if i < length left then left ! i else []) leftWidth @
              [(Rule, '' '' @ bar_rune @ '' '')] @ (if i < length right then right ! i else []))
       [0 ..< max (length left) (length right)]"

lemma line_width_append [simp]: "line_width (a @ b) = line_width a + line_width b"
  by (simp add: line_width_def)

lemma line_width_Nil [simp]: "line_width [] = 0"
  by (simp add: line_width_def)

lemma line_width_Cons [simp]: "line_width (p # l) = rune_count (snd p) + line_width l"
  by (simp add: line_width_def)

lemma line_width_single [simp]:
  "line_width (plain s) = rune_count s" "line_width (faint s) = rune_count s" "line_width (head s) = rune_count s"
  by (simp_all add: plain_def faint_def head_def)

lemma rune_count_runes: "rune_count r = 1 \<Longrightarrow> rune_count (concat (replicate n r)) = n"
  by (induction n) simp_all

lemma rune_count_rule_rune: "rune_count rule_rune = 1"
  by (simp add: rule_rune_def rune_count_def)

lemma line_width_rule [simp]: "line_width (rule w) = w"
  using rune_count_runes [of rule_rune w] by (simp add: rule_def rune_count_rule_rune)

lemma line_width_padVisible: "line_width (padVisible l w) = max (line_width l) (nat w)"
  by (auto simp: padVisible_def Let_def max_def)

text \<open>
  Two panes side by side: a line for every line of the longer one, and the separator in the same
  column of each, as long as the left pane keeps to its width.
\<close>

theorem joinPanes_aligned:
  assumes "\<And>l. l \<in> set left \<Longrightarrow> line_width l \<le> nat lw" and "i < max (length left) (length right)"
  shows "length (joinPanes left right lw) = max (length left) (length right) \<and>
    (\<exists>pre. joinPanes left right lw ! i =
       pre @ [(Rule, '' '' @ bar_rune @ '' '')] @ (if i < length right then right ! i else []) \<and> line_width pre = nat lw)"
  using assms by (auto simp: joinPanes_def line_width_padVisible max_def)

end
