(* ===== verification/Flagdump.thy ===== *)
theory Flagdump
  imports BlockMap GoStr Float64 "HOL-Library.AList"
begin

text \<open>
  The histogram of raw flag words, \<^verbatim>\<open>packages/fragview/flagdump.go\<close>: the names of a flag word, the
  count of every word over the memory ranges with the mappings \<^verbatim>\<open>/proc/kpagecount\<close> reports, and
  the rows of the table as values instead of printed columns.
\<close>

section \<open>Names of flag words\<close>

primrec kpf_name :: "kpf \<Rightarrow> string" where
  "kpf_name kpfLocked = ''locked''"
| "kpf_name kpfError = ''error''"
| "kpf_name kpfReferenced = ''referenced''"
| "kpf_name kpfUptodate = ''uptodate''"
| "kpf_name kpfDirty = ''dirty''"
| "kpf_name kpfLRU = ''lru''"
| "kpf_name kpfActive = ''active''"
| "kpf_name kpfSlab = ''slab''"
| "kpf_name kpfWriteback = ''writeback''"
| "kpf_name kpfReclaim = ''reclaim''"
| "kpf_name kpfBuddy = ''buddy''"
| "kpf_name kpfMmap = ''mmap''"
| "kpf_name kpfAnon = ''anon''"
| "kpf_name kpfSwapcache = ''swapcache''"
| "kpf_name kpfSwapbacked = ''swapbacked''"
| "kpf_name kpfCompoundHead = ''comp_head''"
| "kpf_name kpfCompoundTail = ''comp_tail''"
| "kpf_name kpfHuge = ''huge''"
| "kpf_name kpfUnevictable = ''unevictable''"
| "kpf_name kpfHWPoison = ''hwpoison''"
| "kpf_name kpfNoPage = ''nopage''"
| "kpf_name kpfKSM = ''ksm''"
| "kpf_name kpfTHP = ''thp''"
| "kpf_name kpfOffline = ''offline''"
| "kpf_name kpfZeroPage = ''zeropage''"
| "kpf_name kpfIdle = ''idle''"
| "kpf_name kpfPgTable = ''pgtable''"
| "kpf_name kpfReserved = ''reserved''"
| "kpf_name kpfMlocked = ''mlocked''"
| "kpf_name kpfOwner2 = ''owner2/anon_excl''"
| "kpf_name kpfPrivate = ''private''"
| "kpf_name kpfPrivate2 = ''private2''"
| "kpf_name kpfOwnerPrivate = ''ownerpriv/swapcache''"
| "kpf_name kpfArch = ''arch1''"
| "kpf_name kpfSoftDirty = ''softdirty''"
| "kpf_name kpfArch2 = ''arch2''"
| "kpf_name kpfArch3 = ''arch3''"

definition all_kpf :: "kpf list" where
  "all_kpf = [kpfLocked, kpfError, kpfReferenced, kpfUptodate, kpfDirty, kpfLRU, kpfActive, kpfSlab,
     kpfWriteback, kpfReclaim, kpfBuddy, kpfMmap, kpfAnon, kpfSwapcache, kpfSwapbacked,
     kpfCompoundHead, kpfCompoundTail, kpfHuge, kpfUnevictable, kpfHWPoison, kpfNoPage, kpfKSM,
     kpfTHP, kpfOffline, kpfZeroPage, kpfIdle, kpfPgTable, kpfReserved, kpfMlocked, kpfOwner2,
     kpfPrivate, kpfPrivate2, kpfOwnerPrivate, kpfArch, kpfSoftDirty, kpfArch2, kpfArch3]"

definition kpfNames :: "(nat \<times> string) list" where
  "kpfNames = map (\<lambda>k. (kpf_bit k, kpf_name k)) all_kpf"

definition bit_label :: "nat \<Rightarrow> string" where
  "bit_label b = (case map_of kpfNames b of Some n \<Rightarrow> n | None \<Rightarrow> ''bit'' @ decimal b)"

fun label_loop :: "u64 \<Rightarrow> nat list \<Rightarrow> string \<Rightarrow> string" where
  "label_loop f [] s = s"
| "label_loop f (b # bs) s =
     label_loop f bs (if f AND push_bit b 1 = 0 then s else s @ bit_label b @ '','')"

definition flagString :: "u64 \<Rightarrow> string" where
  "flagString f =
     (let s = label_loop f [0 ..< 64] [] in if s = [] then ''(none)'' else take (length s - 1) s)"

section \<open>The histogram\<close>

record flag_stat =
  fpages :: u64
  refZero :: u64
  refSum :: u64

type_synonym hist = "(u64 \<times> flag_stat) list"

definition stat_of :: "hist \<Rightarrow> u64 \<Rightarrow> flag_stat" where
  "stat_of h f = (case map_of h f of Some s \<Rightarrow> s | None \<Rightarrow> \<lparr>fpages = 0, refZero = 0, refSum = 0\<rparr>)"

definition count_word :: "u64 \<times> u64 option \<Rightarrow> hist \<Rightarrow> hist" where
  "count_word fc h =
     (let (f, c) = fc; s = stat_of h f; s1 = s\<lparr>fpages := fpages s + 1\<rparr>;
          s2 = (case c of None \<Rightarrow> s1
                | Some n \<Rightarrow> s1\<lparr>refSum := refSum s1 + n,
                              refZero := (if n = 0 then refZero s1 + 1 else refZero s1)\<rparr>)
      in AList.update f s2 h)"

text \<open>
  The words of one read with the mapping counts at the same places. The second buffer keeps what
  an earlier read left behind the bytes of the last one.
\<close>

definition word_pairs :: "u8 list \<Rightarrow> u8 list \<Rightarrow> nat \<Rightarrow> (u64 \<times> u64 option) list" where
  "word_pairs bs cbuf gotc =
     map (\<lambda>i. (get_u64 (drop (8 * i) bs),
              if i * 8 < gotc then Some (get_u64 (drop (8 * i) cbuf)) else None))
       [0 ..< length bs div 8]"

definition dump_buf :: nat where "dump_buf = 1048576"

function dump_range ::
  "reader \<Rightarrow> reader option \<Rightarrow> nat \<Rightarrow> nat \<Rightarrow> u8 list \<Rightarrow> hist \<Rightarrow> u8 list \<times> hist"
where
  "dump_range rd crd pfn lst cbuf h =
     (if lst < pfn then (cbuf, h)
      else
        (let n = (if pfn + dump_buf div 8 > lst + 1 then lst + 1 - pfn else dump_buf div 8)
         in case rd (pfn * 8) (n * 8) of
              ([], Some e) \<Rightarrow> (cbuf, h)
            | (bs, _) \<Rightarrow>
                (let cbs = (case crd of None \<Rightarrow> [] | Some c \<Rightarrow> fst (c (pfn * 8) (n * 8)));
                     cbuf' = cbs @ drop (length cbs) cbuf
                 in dump_range rd crd (pfn + n) lst cbuf' (fold count_word (word_pairs bs cbuf' (length cbs)) h))))"
  by pat_completeness auto
termination
  by (relation "measure (\<lambda>(rd, crd, pfn, lst, cbuf, h). lst + 1 - pfn)") (auto simp: dump_buf_def)

declare dump_range.simps [simp del]

fun dump_ranges ::
  "reader \<Rightarrow> reader option \<Rightarrow> ram_range list \<Rightarrow> u8 list \<Rightarrow> hist \<Rightarrow> hist" where
  "dump_ranges rd crd [] cbuf h = h"
| "dump_ranges rd crd (r # rs) cbuf h =
     (let (cbuf', h') = dump_range rd crd (first r) (last r) cbuf h in dump_ranges rd crd rs cbuf' h')"

record dump_row =
  dPages :: u64
  dMiB :: u64
  dUnmapped :: rat
  dAvg :: rat
  dClass :: pclass
  dFlags :: string

definition dump_row_of :: "u64 \<times> flag_stat \<Rightarrow> dump_row" where
  "dump_row_of e =
     (let (f, s) = e; p = fl (of_nat (unat (fpages s)))
      in \<lparr>dPages = fpages s, dMiB = drop_bit 8 (fpages s),
          dUnmapped = fl (fl (fl (of_nat (unat (refZero s))) / p) * 100),
          dAvg = fl (fl (of_nat (unat (refSum s))) / p),
          dClass = classify f, dFlags = flagString f\<rparr>)"

text \<open>
  \<^verbatim>\<open>dumpFlags\<close>; \<open>crd\<close> is \<^verbatim>\<open>/proc/kpagecount\<close>, nothing if it does not open. Go hands out the
  entries of a map in no fixed order: \<open>order\<close> is the permutation of this run, and with it the
  order of words with equally many pages.
\<close>

definition dumpFlags ::
  "(hist \<Rightarrow> hist) \<Rightarrow> reader \<Rightarrow> reader option \<Rightarrow> block_map \<Rightarrow> int \<Rightarrow> dump_row list" where
  "dumpFlags order rd crd b tp =
     (let h = order ( dump_ranges rd crd (ranges b) (replicate dump_buf 0) [])
      in map dump_row_of (take (nat tp) (slice_isort (\<lambda>x y. fpages (snd x) > fpages (snd y)) h)))"

section \<open>Labels tell flag words apart\<close>

lemma label_loop_concat:
  "label_loop f bs s = s @ concat (map (\<lambda>b. bit_label b @ '','') (filter (bit f) bs))"
  by (induction bs arbitrary: s) (auto simp: and_exp_eq_0_iff_not_bit push_bit_of_1)


definition labels :: "string list" where
  "labels = map bit_label [0 ..< 64]"

lemma labels_distinct: "distinct labels"
  by code_simp

lemma labels_plain: "list_all (\<lambda>l. l \<noteq> [] \<and> CHR '','' \<notin> set l \<and> CHR ''('' \<notin> set l) labels"
  by code_simp


lemma bit_label_inj: "a < 64 \<Longrightarrow> b < 64 \<Longrightarrow> bit_label a = bit_label b \<Longrightarrow> a = b"
  using labels_distinct by (auto simp: labels_def distinct_map inj_on_def)

lemma bit_label_plain:
  "b < 64 \<Longrightarrow> bit_label b \<noteq> [] \<and> CHR '','' \<notin> set (bit_label b) \<and> CHR ''('' \<notin> set (bit_label b)"
  using labels_plain by (auto simp: labels_def list_all_iff)

definition listed :: "nat list \<Rightarrow> string" where
  "listed bs = concat (map (\<lambda>b. bit_label b @ '','') bs)"

lemma listed_Cons: "listed (b # bs) = bit_label b @ CHR '','' # listed bs"
  by (simp add: listed_def)

lemma listed_inj:
  "\<forall>b \<in> set xs. b < 64 \<Longrightarrow> \<forall>b \<in> set ys. b < 64 \<Longrightarrow> listed xs = listed ys \<Longrightarrow> xs = ys"
proof (induction xs arbitrary: ys)
  case Nil
  then show ?case by (cases ys) (auto simp: listed_def)
next
  case (Cons b xs)
  obtain c ys' where ys: "ys = c # ys'" using Cons.prems(3) by (cases ys) (auto simp: listed_def)
  have bc: "b < 64" "c < 64" using Cons.prems(1,2) ys by simp_all
  have "cut '','' (bit_label b @ CHR '','' # listed xs) = cut '','' (bit_label c @ CHR '','' # listed ys')"
    using Cons.prems(3) by (simp only: ys listed_Cons)
  then have "bit_label b = bit_label c" "listed xs = listed ys'"
    using cut_char [of "CHR '',''" "bit_label b" "listed xs"] cut_char [of "CHR '',''" "bit_label c" "listed ys'"]
      bit_label_plain [OF bc(1)] bit_label_plain [OF bc(2)] by simp_all
  then show ?case using Cons.IH [of ys'] bit_label_inj [OF bc] Cons.prems(1,2) ys by simp
qed

lemma listed_last: "bs \<noteq> [] \<Longrightarrow> listed bs = take (length (listed bs) - 1) (listed bs) @ '',''"
proof (induction bs rule: rev_induct)
  case (snoc b bs)
  have "listed (bs @ [b]) = (listed bs @ bit_label b) @ '',''" by (simp add: listed_def)
  then show ?case by simp
qed simp

definition set_bits :: "u64 \<Rightarrow> nat list" where
  "set_bits f = filter (bit f) [0 ..< 64]"

lemma flagString_listed:
  "flagString f = (if set_bits f = [] then ''(none)''
     else take (length (listed (set_bits f)) - 1) (listed (set_bits f)))"
proof -
  have "label_loop f [0 ..< 64] [] = listed (set_bits f)" by (simp add: label_loop_concat listed_def set_bits_def)
  moreover have "listed (set_bits f) = [] \<longleftrightarrow> set_bits f = []" by (cases "set_bits f") (simp_all add: listed_def)
  ultimately show ?thesis by (simp add: flagString_def Let_def)
qed

lemma set_bits_inj: "set_bits f = set_bits g \<Longrightarrow> f = g"
proof (rule bit_word_eqI)
  fix n
  assume eq: "set_bits f = set_bits g" and n: "n < LENGTH(64)"
  have "bit h n \<longleftrightarrow> n \<in> set (set_bits h)" for h using n by (auto simp: set_bits_def)
  then show "bit f n \<longleftrightarrow> bit g n" using eq by simp
qed

lemma hd_listed: "set_bits f \<noteq> [] \<Longrightarrow> hd (take (length (listed (set_bits f)) - 1) (listed (set_bits f))) \<noteq> CHR ''(''"
proof -
  assume ne: "set_bits f \<noteq> []"
  then obtain b bs where b: "set_bits f = b # bs" by (cases "set_bits f") auto
  have "b \<in> set (set_bits f)" using b by simp
  then have "b < 64" by (auto simp: set_bits_def)
  then have p: "bit_label b \<noteq> []" "CHR ''('' \<notin> set (bit_label b)" using bit_label_plain by auto
  then show ?thesis by (cases "bit_label b") (auto simp: b listed_Cons)
qed

text \<open>
  Every flag word has a text of its own: two words with the same text are equal, so the table
  of the histogram never shows two different words as one, unnamed bits included.
\<close>

theorem flagString_inj: "flagString f = flagString g \<longleftrightarrow> f = g"
proof
  assume eq: "flagString f = flagString g"
  let ?t = "\<lambda>h. take (length (listed (set_bits h)) - 1) (listed (set_bits h))"
  have "set_bits f = [] \<longleftrightarrow> set_bits g = []"
    using eq hd_listed [of f] hd_listed [of g] by (auto simp: flagString_listed split: if_splits dest: arg_cong [of _ _ hd])
  moreover have "set_bits f = set_bits g" if "set_bits f \<noteq> []" "set_bits g \<noteq> []"
  proof (rule listed_inj)
    show "\<forall>b \<in> set (set_bits f). b < 64" "\<forall>b \<in> set (set_bits g). b < 64" by (auto simp: set_bits_def)
    have "?t f = ?t g" using eq that by (simp add: flagString_listed)
    then show "listed (set_bits f) = listed (set_bits g)"
      using listed_last [OF that(1)] listed_last [OF that(2)] by metis
  qed
  ultimately show "f = g" by (intro set_bits_inj) (cases "set_bits f = []"; simp)
qed simp

section \<open>What the histogram counts\<close>

lemma stat_of_count_word:
  "fpages (stat_of (count_word (g, c) h) f) = fpages (stat_of h f) + (if f = g then 1 else 0)"
  by (auto simp: count_word_def stat_of_def Let_def update_conv split: option.split)

lemma fold_count_word:
  "fpages (stat_of (fold count_word ps h) f) = fpages (stat_of h f) + of_nat (count_list (map fst ps) f)"
  by (induction ps arbitrary: h) (auto simp: stat_of_count_word)

lemma map_fst_word_pairs: "map fst (word_pairs bs cbuf gotc) = words_of bs"
  by (simp add: word_pairs_def words_of_def comp_def)

text \<open>A flag file that hands out what it is asked for, up to its last page.\<close>

definition full_reader :: "reader \<Rightarrow> (nat \<Rightarrow> u64) \<Rightarrow> nat \<Rightarrow> bool" where
  "full_reader rd flg end_pfn \<longleftrightarrow>
     (\<forall>pfn n. pfn + n \<le> end_pfn \<longrightarrow> snd (rd (pfn * 8) (n * 8)) = None \<and> words_of (fst (rd (pfn * 8) (n * 8))) = map flg [pfn ..< pfn + n])"

lemma dump_range_step:
  assumes "full_reader rd flg e" and "lst < e" and "pfn \<le> lst"
  shows "\<exists>n cbuf' gotc. 0 < n \<and> pfn + n \<le> lst + 1 \<and> dump_range rd crd pfn lst cbuf h =
    dump_range rd crd (pfn + n) lst cbuf' (fold count_word (word_pairs (fst (rd (pfn * 8) (n * 8))) cbuf' gotc) h)"
proof -
  define n where "n = (if pfn + dump_buf div 8 > lst + 1 then lst + 1 - pfn else dump_buf div 8)"
  have n: "0 < n" "pfn + n \<le> lst + 1" using assms(3) by (auto simp: n_def dump_buf_def)
  obtain bs where r: "rd (pfn * 8) (n * 8) = (bs, None)"
    using assms(1,2) n unfolding full_reader_def by (metis order_trans Suc_eq_plus1 Suc_leI prod.collapse)
  have "\<exists>cbuf' gotc. dump_range rd crd pfn lst cbuf h =
      dump_range rd crd (pfn + n) lst cbuf' (fold count_word (word_pairs bs cbuf' gotc) h)"
    unfolding dump_range.simps [of rd crd pfn] n_def [symmetric] Let_def r
    using assms(3) by (auto split: list.splits)
  then obtain cbuf' gotc where "dump_range rd crd pfn lst cbuf h =
      dump_range rd crd (pfn + n) lst cbuf' (fold count_word (word_pairs bs cbuf' gotc) h)" by blast
  then show ?thesis using n r by (intro exI [of _ n] exI [of _ cbuf'] exI [of _ gotc]) simp
qed

lemma dump_range_folds:
  assumes "full_reader rd flg e" and "lst < e"
  shows "\<exists>ps. snd (dump_range rd crd pfn lst cbuf h) = fold count_word ps h \<and>
    map fst ps = map flg [pfn ..< lst + 1]"
proof (induction "lst + 1 - pfn" arbitrary: pfn cbuf h rule: less_induct)
  case less
  show ?case
  proof (cases "lst < pfn")
    case True
    then show ?thesis by (subst dump_range.simps) (auto intro: exI [of _ "[]"])
  next
    case False
    then obtain n cbuf' gotc where n: "0 < n" "pfn + n \<le> lst + 1" and step: "dump_range rd crd pfn lst cbuf h =
        dump_range rd crd (pfn + n) lst cbuf'
          (fold count_word (word_pairs (fst (rd (pfn * 8) (n * 8))) cbuf' gotc) h)"
      using dump_range_step [OF assms, of pfn] by (meson leI)
    have smaller: "lst + 1 - (pfn + n) < lst + 1 - pfn" using n by linarith
    let ?ps = "word_pairs (fst (rd (pfn * 8) (n * 8))) cbuf' gotc"
    obtain k where "lst + 1 = pfn + n + k" using n(2) le_Suc_ex by blast
    then have parts: "[pfn ..< lst + 1] = [pfn ..< pfn + n] @ [pfn + n ..< lst + 1]"
      using upt_add_eq_append [of pfn "pfn + n" k] by simp
    have ws: "map fst ?ps = map flg [pfn ..< pfn + n]"
      using assms n unfolding full_reader_def map_fst_word_pairs by simp
    obtain qs where "snd (dump_range rd crd (pfn + n) lst cbuf' (fold count_word ?ps h)) = fold count_word qs (fold count_word ?ps h)"
      "map fst qs = map flg [pfn + n ..< lst + 1]"
      using less [OF smaller, of cbuf' "fold count_word ?ps h"] by blast
    then show ?thesis
      unfolding step parts using ws by (intro exI [of _ "?ps @ qs"]) simp
  qed
qed

text \<open>The words of all pages of the memory ranges, page by page.\<close>

definition all_words :: "(nat \<Rightarrow> u64) \<Rightarrow> ram_range list \<Rightarrow> u64 list" where
  "all_words flg rs = concat (map (\<lambda>r. map flg [first r ..< last r + 1]) rs)"

lemma dump_ranges_folds:
  assumes "full_reader rd flg e" and "\<And>r. r \<in> set rs \<Longrightarrow> last r < e"
  shows "\<exists>ps. dump_ranges rd crd rs cbuf h = fold count_word ps h \<and> map fst ps = all_words flg rs"
  using assms(2)
proof (induction rs arbitrary: cbuf h)
  case (Cons r rs)
  obtain cbuf' h' where r: "dump_range rd crd (first r) (last r) cbuf h = (cbuf', h')" by fastforce
  obtain ps where ps: "h' = fold count_word ps h" "map fst ps = map flg [first r ..< last r + 1]"
    using dump_range_folds [OF assms(1), of "last r" crd "first r" cbuf h] Cons.prems r by auto
  obtain qs where "dump_ranges rd crd rs cbuf' h' = fold count_word qs h'" "map fst qs = all_words flg rs"
    using Cons.IH Cons.prems by (metis list.set_intros(2))
  then show ?case using r ps by (intro exI [of _ "ps @ qs"]) (simp add: all_words_def)
qed (auto simp: all_words_def intro: exI [of _ "[]"])

text \<open>
  The histogram counts every page of the memory ranges under its flag word, whatever the size of
  the reads and whatever \<^verbatim>\<open>/proc/kpagecount\<close> gives.
\<close>

theorem dump_ranges_counts:
  assumes "full_reader rd flg e" and "\<And>r. r \<in> set rs \<Longrightarrow> last r < e"
  shows "fpages (stat_of (dump_ranges rd crd rs cbuf h) f) =
    fpages (stat_of h f) + of_nat (count_list (all_words flg rs) f)"
  using dump_ranges_folds [OF assms(1), of rs crd cbuf h] assms(2) by (metis fold_count_word)

lemma update_keys_set: "set (map fst (AList.update k v h)) = insert k (set (map fst h))"
  by (induction h) auto

lemma count_word_key: "\<exists>s. count_word p h = AList.update (fst p) s h"
  by (cases p) (auto simp: count_word_def Let_def)

lemma fold_count_keys:
  "distinct (map fst h) \<Longrightarrow>
   distinct (map fst (fold count_word ps h)) \<and> set (map fst (fold count_word ps h)) = set (map fst h) \<union> set (map fst ps)"
proof (induction ps arbitrary: h)
  case (Cons p ps)
  obtain s where "count_word p h = AList.update (fst p) s h" using count_word_key by blast
  then have "distinct (map fst (count_word p h))" "set (map fst (count_word p h)) = insert (fst p) (set (map fst h))"
    using Cons.prems distinct_update update_keys_set by metis+
  then show ?case using Cons.IH by auto
qed simp

lemma by_pages_weak_order: "weak_order (\<lambda>x y :: u64 \<times> flag_stat. fpages (snd x) > fpages (snd y))"
  by (auto simp: weak_order_def)

text \<open>
  C22. The table of \<^verbatim>\<open>dumpFlags\<close> is the top of the histogram: as many rows as asked for or as there are
  flag words, every row with the pages that carry its word, its class and its names, the rows
  by falling number of pages, and no word that is left out has more pages than one that is
  shown. This holds for any order in which the map hands out its entries.
\<close>

theorem dumpFlags_table:
  assumes "full_reader rd flg e" and "\<And>r. r \<in> set (ranges b) \<Longrightarrow> last r < e"
    and "\<And>h. mset (order h) = mset h"
  shows "\<exists>ws. distinct ws \<and> set ws \<subseteq> set (all_words flg (ranges b)) \<and>
    length ws = min (nat tp) (card (set (all_words flg (ranges b)))) \<and>
    map dPages (dumpFlags order rd crd b tp) = map (\<lambda>w. of_nat (count_list (all_words flg (ranges b)) w)) ws \<and>
    map dClass (dumpFlags order rd crd b tp) = map classify ws \<and>
    map dFlags (dumpFlags order rd crd b tp) = map flagString ws \<and>
    sorted_wrt (\<lambda>x y. y \<le> x) (map dPages (dumpFlags order rd crd b tp)) \<and>
    (\<forall>w \<in> set ws. \<forall>v. v \<notin> set ws \<longrightarrow>
       (of_nat (count_list (all_words flg (ranges b)) v) :: u64) \<le> of_nat (count_list (all_words flg (ranges b)) w))"
proof -
  let ?all = "all_words flg (ranges b)" and ?gt = "\<lambda>x y :: u64 \<times> flag_stat. fpages (snd x) > fpages (snd y)"
  let ?c = "\<lambda>w. of_nat (count_list ?all w) :: u64"
  define h where "h = dump_ranges rd crd (ranges b) (replicate dump_buf 0) []"
  define es where "es = slice_isort ?gt (order h)"
  obtain ps where "h = fold count_word ps []" "map fst ps = ?all"
    using dump_ranges_folds [OF assms(1), of "ranges b" crd "replicate dump_buf 0" "[]"] assms(2) h_def by metis
  then have keys: "distinct (map fst h)" "set (map fst h) = set ?all"
    using fold_count_keys [of "[]" ps] by auto
  have perm: "mset es = mset h" by (simp add: es_def isort.srt_perm assms(3))
  then have es: "distinct (map fst es)" "set (map fst es) = set ?all"
    using keys by (metis mset_eq_imp_distinct_iff mset_map, metis mset_eq_setD mset_map)
  have count: "fpages s = ?c w" if "(w, s) \<in> set es" for w s
  proof -
    have "(w, s) \<in> set h" using that perm mset_eq_setD by blast
    then have "stat_of h w = s" using keys(1) by (simp add: stat_of_def)
    then show ?thesis using dump_ranges_counts [OF assms(1), of "ranges b" crd "replicate dump_buf 0" "[]" w] assms(2)
      by (simp add: h_def stat_of_def)
  qed
  have sorted: "sorted_wrt (\<lambda>x y. fpages (snd y) \<le> fpages (snd x)) es"
    using isort.srt_ordered [OF by_pages_weak_order, of "order h"] by (simp add: es_def not_less)
  let ?top = "take (nat tp) es"
  have sorted_drop: "\<forall>x\<in>set ?top. \<forall>y\<in>set (drop (nat tp) es). fpages (snd y) \<le> fpages (snd x)"
    using sorted by (metis append_take_drop_id sorted_wrt_append)
  have rows: "dumpFlags order rd crd b tp = map dump_row_of ?top"
    by (simp add: dumpFlags_def h_def es_def Let_def)
  have pages: "map (\<lambda>e. fpages (snd e)) ?top = map ?c (map fst ?top)"
    using count by (auto dest: in_set_takeD)
  have "card (set ?all) = length es" using es by (metis distinct_card length_map)
  moreover have "set (map fst ?top) \<subseteq> set ?all" using es(2) by (auto dest: in_set_takeD)
  moreover have "distinct (map fst ?top)" using es(1) by (simp add: take_map [symmetric])
  moreover have "sorted_wrt (\<lambda>x y. y \<le> x) (map (\<lambda>e. fpages (snd e)) ?top)"
    using sorted by (simp add: sorted_wrt_map sorted_wrt_take)
  moreover have "?c v \<le> ?c w" if w: "w \<in> set (map fst ?top)" and v: "v \<notin> set (map fst ?top)" for v w
  proof (cases "v \<in> set ?all")
    case False
    then show ?thesis by (simp add: count_list_0_iff)
  next
    case True
    obtain s where s: "(w, s) \<in> set ?top" using w by auto
    have "v \<in> fst ` set es" using True es(2) by simp
    then obtain s' where s': "(v, s') \<in> set es" by force
    have "(v, s') \<notin> set ?top" using v by force
    then have "(v, s') \<in> set (drop (nat tp) es)"
      using s' set_append [of ?top "drop (nat tp) es"] by simp
    then have "fpages s' \<le> fpages s"
      using sorted_drop s by force
    then show ?thesis using count [OF s'] count [OF in_set_takeD [OF s]] by simp
  qed
  moreover have "length (map fst ?top) = min (nat tp) (length es)" by (simp add: min.commute)
  moreover have "map dPages (dumpFlags order rd crd b tp) = map (\<lambda>e. fpages (snd e)) ?top"
    "map dClass (dumpFlags order rd crd b tp) = map classify (map fst ?top)"
    "map dFlags (dumpFlags order rd crd b tp) = map flagString (map fst ?top)"
    by (simp_all add: rows dump_row_of_def Let_def split_def)
  ultimately show ?thesis using pages by (intro exI [of _ "map fst ?top"]) metis
qed

text \<open>A file of three pages: two free ones around a slab page.\<close>

definition sample_flags :: "nat \<Rightarrow> u64" where
  "sample_flags p = (if p = 1 then 128 else 1024)"

definition sample_reader :: reader where
  "sample_reader off len =
     (concat (map put_u64 (map sample_flags [off div 8 ..< off div 8 + len div 8])), None)"

lemma sample_full: "full_reader sample_reader sample_flags 3"
  by (simp only: full_reader_def sample_reader_def words_of_concat fst_conv snd_conv nonzero_mult_div_cancel_right) simp

lemma dumpFlags_table_witness:
  "\<exists>ws. distinct ws \<and> length ws = 1 \<and>
    map dPages (dumpFlags (\<lambda>h. h) sample_reader None
      \<lparr>firstPFN = 0, nblocks = 1, counts = [], ranges = [\<lparr>first = 0, last = 2\<rparr>]\<rparr> 1) =
    map (\<lambda>w. of_nat (count_list [1024, 128, 1024 :: u64] w)) ws"
proof -
  let ?b = "\<lparr>firstPFN = 0, nblocks = 1, counts = [], ranges = [\<lparr>first = 0, last = 2\<rparr>]\<rparr>"
  have w: "all_words sample_flags (ranges ?b) = [1024, 128, 1024]"
    by (simp add: all_words_def sample_flags_def upt_rec)
  have l: "\<And>r. r \<in> set (ranges ?b) \<Longrightarrow> last r < 3" by simp
  have card: "card (set [1024, 128, 1024 :: u64]) = 2" by (simp add: card_insert_if)
  show ?thesis
    using dumpFlags_table [where b = ?b and order = "\<lambda>h. h" and crd = None and tp = 1, OF sample_full l refl]
    unfolding w card by auto
qed


end
