(* ===== verification/Panes.thy ===== *)
theory Panes
  imports Styled Flagdump
begin

text \<open>
  The text around the map, \<^verbatim>\<open>packages/fragview/render.go\<close> and \<^verbatim>\<open>pixmap.go\<close>: the lines above it, the
  panes below it and the slab table, as lines of styled pieces. Page counts are added up
  without wrapping, which 64 bits allow for any machine.
\<close>

section \<open>What the panes read\<close>

record pane_input =
  reporting :: report_frame
  pkg :: pkg_vars
  unknowns_seen :: unknowns
  interval_ms :: nat
  sweep_ms :: int

definition mid_dot :: string where "mid_dot = utf8 0xB7"
definition en_dash :: string where "en_dash = utf8 0x2013"
definition times_sign :: string where "times_sign = utf8 0xD7"
definition full_block :: string where "full_block = utf8 0x2588"

definition mem_entry :: "pane_input \<Rightarrow> string \<Rightarrow> u64" where
  "mem_entry e k = entry (rf_mem (reporting e)) k"

definition vm_entry :: "pane_input \<Rightarrow> string \<Rightarrow> u64" where
  "vm_entry e k = entry (rf_vm (reporting e)) k"

definition page_size :: u64 where "page_size = 4096"

definition block_size_bytes :: "'a map_frame_scheme \<Rightarrow> u64" where
  "block_size_bytes f = of_nat (pagesPerBlock f) * page_size"

section \<open>Title\<close>

text \<open>\<^verbatim>\<open>Duration.Round(100ms)\<close> and its text; \<open>t\<close> counts tenths of a second.\<close>

definition tenths :: "nat \<Rightarrow> nat" where
  "tenths ms = (ms + 50) div 100"

definition tenths_text :: "nat \<Rightarrow> string" where
  "tenths_text t =
     (let s = t div 10; secs = decimal (s mod 60) @ (if t mod 10 = 0 then [] else CHR ''.'' # decimal (t mod 10)) @ ''s''
      in if t = 0 then ''0s''
         else if t < 10 then decimal (t * 100) @ ''ms''
         else if s < 60 then secs
         else if s < 3600 then decimal (s div 60) @ ''m'' @ secs
         else decimal (s div 3600) @ ''h'' @ decimal (s div 60 mod 60) @ ''m'' @ secs)"

definition title_right :: "pane_input \<Rightarrow> 'a ui_frame_scheme \<Rightarrow> line" where
  "title_right e f =
     (let rf = reporting e;
          walk = tot_walkUS (rf_whoTot rf);
          live = ''map refresh '' @ tenths_text (tenths (nat (share f) * interval_ms e)) @ '' '' @ mid_dot @
                 '' sweep '' @ show_int (sweep_ms e) @ ''ms'' @
                 (if walk > 0 then '' '' @ mid_dot @ '' walk '' @ decimal (unat (walk div 1000)) @ ''ms'' else []);
          right = (if paused f then [(Warn, ''PAUSED'')] @ faint ('' '' @ mid_dot @ '' '') @ faint live else faint live)
      in if rf_snapshot rf \<noteq> []
         then faint (rf_kernel rf) @ (if rf_taken rf \<noteq> [] then faint ('' '' @ mid_dot @ '' '' @ rf_taken rf) else [])
         else right)"

definition titleLine :: "nat \<Rightarrow> pane_input \<Rightarrow> 'a ui_frame_scheme \<Rightarrow> line" where
  "titleLine w e f =
     (let rf = reporting e;
          width = of_nat (nblocks (m f)) * of_nat (pagesPerBlock f) * page_size;
          tot = (if mem_entry e ''MemTotal'' = 0 then width else mem_entry e ''MemTotal'');
          right = title_right e f;
          left = [(Title, ''fragview''), (Plain, ''  '' @ rf_host rf)] @
            (if rf_snapshot rf \<noteq> [] then [(Plain, '' ''), (Bold, rf_snapshot rf)] else []) @
            plain (''  '' @ humanBytes tot @ '' RAM '' @ mid_dot @ '' '' @ decimal (nblocks (m f)) @ '' pageblocks '' @
              times_sign @ '' '' @ humanBytes (block_size_bytes f) @ '' over '' @ humanBytes width)
      in padVisible left (int w - int (line_width right)) @ right)"

section \<open>Composition\<close>

definition barOrder :: "pclass list" where
  "barOrder = [clFree, clFile, clShmem, clAnon, clABD, clSlab, clCompound, clUncached, clKernel, clPgtab,
     clReserved, clUnknown]"

definition class_total :: "block_map \<Rightarrow> pclass \<Rightarrow> nat" where
  "class_total b c = (\<Sum>cs\<leftarrow>counts b. unat (cs c))"

definition known_total :: "block_map \<Rightarrow> nat" where
  "known_total b = (\<Sum>c\<leftarrow>ram_classes. class_total b c)"

definition pages_text :: "nat \<Rightarrow> string" where
  "pages_text n = humanBytes (of_nat n * page_size)"

text \<open>The cells of the bar: \<open>drawn\<close> are taken, and a class with pages gets one if any are left.\<close>

fun bar_cells :: "(pclass \<Rightarrow> nat) \<Rightarrow> nat \<Rightarrow> int \<Rightarrow> pclass list \<Rightarrow> int \<Rightarrow> (pclass \<times> int) list" where
  "bar_cells tot_of known width [] drawn = []"
| "bar_cells tot_of known width (c # cs) drawn =
     (let n0 = to_int (fl (fl (fl (of_nat (tot_of c)) / fl (of_nat known)) * fl (of_int width)));
          n1 = (if n0 = 0 \<and> 0 < tot_of c then 1 else n0);
          n = (if drawn + n1 > width then width - drawn else n1)
      in (c, n) # bar_cells tot_of known width cs (drawn + n))"

definition legend_piece :: "bool \<Rightarrow> (pclass \<Rightarrow> nat) \<Rightarrow> pclass \<Rightarrow> line" where
  "legend_piece zfs tot_of c =
     [(ClassColour c, full_block), (Plain, '' '' @ classNames zfs c @ '' '' @ pages_text (tot_of c) @ ''   '')]"

definition compositionLines :: "nat \<Rightarrow> bool \<Rightarrow> block_map \<Rightarrow> line list" where
  "compositionLines w zfs b =
     (let tot_of = class_total b; known = known_total b
      in if known = 0 then [[], []]
         else
           [plain '' '' @ concat (map (legend_piece zfs tot_of) (filter (\<lambda>c. \<not> tot_of c * 200 < known) barOrder)),
            plain '' '' @ map (\<lambda>(c, n). (ClassColour c, concat (replicate (nat n) full_block)))
              (bar_cells tot_of known (int w - 2) barOrder 0)])"

section \<open>Verdict and free lists\<close>

definition fail_rate :: "u64 \<Rightarrow> u64 \<Rightarrow> rat" where
  "fail_rate ok fail =
     (if ok + fail > 0
      then fl (fl (fl (of_nat (unat fail)) / fl (of_nat (unat (ok + fail)))) * 100) else 0)"

definition rate_style :: "rat \<Rightarrow> style" where
  "rate_style r = (if r > 50 then Bad else if r > 20 then Warn else Good)"

definition verdictLine :: "pane_input \<Rightarrow> 'a map_frame_scheme \<Rightarrow> line" where
  "verdictLine e f =
     (let ok = vm_entry e ''compact_success''; fail = vm_entry e ''compact_fail''; rate = fail_rate ok fail
      in [(Plain, '' ''), (HostageText, decimal (hostages f) @ '' hostage blocks''), (Plain, '' pinning ''),
          (Bold, pages_text (hostageFree f)), (Plain, ''   ''), (Faint, bar_rune), (Plain, ''  compaction ''),
          (Good, humanCount ok), (Plain, '' ok / ''), (Bad, humanCount fail), (Plain, '' failed ''),
          (rate_style rate, ''('' @ fixed 0 rate @ ''%)''), (Plain, ''   kcompactd woke ''),
          (Plain, humanCount (vm_entry e ''compact_daemon_wake''))])"

definition ladder_style :: "rat \<Rightarrow> style" where
  "ladder_style x = (if x > fl (9 / 10) then Bad else if x > 1 / 2 then Warn else Plain)"

definition ladderLines :: "free_ladder \<Rightarrow> line list" where
  "ladderLines l =
     (let ui = unusableIndex l;
          frac_at = (\<lambda>i. case ui of None \<Rightarrow> 0 | Some u \<Rightarrow> u ! i);
          idx = [0 ..< length (orders l)]
      in [faint '' free lists    order'' @ map (\<lambda>i. (ladder_style (frac_at i), pad_left 6 (decimal i))) idx,
          faint ''              blocks'' @ map (\<lambda>i. (Plain, pad_left 6 (humanCount (orders l ! i)))) idx,
          faint ''            unusable'' @
            map (\<lambda>i. (ladder_style (frac_at i), pad_left 5 (fixed 0 (fl (frac_at i * 100))) @ ''%'')) idx])"

section \<open>The left pane\<close>

definition types_rows :: "block_types \<Rightarrow> line list go_result" where
  "types_rows t =
     (if length (tcounts t) < length (names t) then Inl SliceOutOfRange
      else Inr (map (\<lambda>i. plain ('' '' @ pad_right 14 (names t ! i) @ '' '' @ pad_left 10 (humanCount (tcounts t ! i))))
             (filter (\<lambda>i. tcounts t ! i \<noteq> 0) [0 ..< length (names t)])))"

text \<open>The rows of \<^verbatim>\<open>reconcile\<close>: a label, what the page flags say, what the kernel counts.\<close>

definition account_rows :: "pane_input \<Rightarrow> block_map \<Rightarrow> (string \<times> u64 \<times> u64) list" where
  "account_rows e b =
     (let mine = (\<lambda>c. of_nat (class_total b c) * page_size); mem = mem_entry e;
          arc = (\<lambda>k. entry (rf_arc (reporting e)) k)
      in [(''free'', mine clFree, mem ''MemFree''),
          (''shmem'', mine clShmem, mem ''Shmem''),
          (''anon'', mine clAnon, mem ''AnonPages''),
          (''cache'', mine clFile, mem ''Cached'' - mem ''Shmem''),
          (''slab'', mine clSlab, mem ''Slab''),
          (classNames (zfsNames (pkg e)) clABD, mine clABD, arc ''data_size'' + arc ''metadata_size''),
          (''pgtable'', mine clPgtab, mem ''PageTables'' + mem ''SecPageTables'')])"

definition account_diff :: "u64 \<Rightarrow> u64 \<Rightarrow> rat" where
  "account_diff flags kern = fl (fl (fl (of_nat (unat flags)) / fl (of_nat (unat kern))) - 1)"

definition account_mark :: "u64 \<Rightarrow> u64 \<Rightarrow> line" where
  "account_mark flags kern =
     (if kern > 0
      then (let d = account_diff flags kern
            in if d > fl (5 / 100) \<or> d < - fl (5 / 100) then [(Plain, '' ''), (Warn, signed (fl (d * 100)) @ ''%'')] else [])
      else [])"

definition account_line :: "string \<times> u64 \<times> u64 \<Rightarrow> line" where
  "account_line r =
     (let (label, flags, kern) = r
      in plain ('' '' @ pad_right 11 label @ '' '' @ pad_left 7 (humanBytes flags) @ '' '' @ pad_left 8 (humanBytes kern)) @
         account_mark flags kern)"

definition unclassified_line :: "nat \<Rightarrow> unknowns \<Rightarrow> line list" where
  "unclassified_line n unk =
     (if 0 < n
      then [plain ('' '' @ pad_right 11 ''unclassified'' @ '' '' @ pad_left 7 (pages_text n)) @
            (case unk of [] \<Rightarrow> [] | u # _ \<Rightarrow> plain ''  '' @ faint (flagString (fst u)))]
      else [])"

definition reconcile :: "pane_input \<Rightarrow> block_map \<Rightarrow> line list" where
  "reconcile e b =
     (let t = class_total b
      in [faint ('' '' @ pad_right 11 [] @ '' '' @ pad_left 8 ''flags'' @ '' '' @ pad_left 9 ''kernel'')] @
         map account_line (filter (\<lambda>(l, n, k). \<not> (n = 0 \<and> k = 0)) (account_rows e b)) @
         [plain ('' '' @ pad_right 11 ''unaccounted'' @ '' '' @
            pad_left 7 (pages_text (t clKernel + t clCompound + t clUncached + t clUnknown))),
          faint (''   vmalloc '' @ humanBytes (mem_entry e ''VmallocUsed'') @ '' '' @ mid_dot @ '' gpu '' @
            humanBytes (mem_entry e ''GPUActive''))] @
         unclassified_line (t clUnknown) (unknowns_seen e))"

text \<open>\<^verbatim>\<open>hoverPane\<close>: the blocks under the pointer, up to the end of the map.\<close>

definition hover_blocks :: "'a ui_frame_scheme \<Rightarrow> counts list" where
  "hover_blocks f =
     map (\<lambda>b. counts (m f) ! nat b) [hoverFrom f .. min (hoverTo f) (int (length (counts (m f)))) - 1]"

definition sum_over :: "counts list \<Rightarrow> pclass \<Rightarrow> nat" where
  "sum_over css c = (\<Sum>cs\<leftarrow>css. unat (cs c))"

definition hover_state :: "'a ui_frame_scheme \<Rightarrow> nat \<Rightarrow> style \<times> string" where
  "hover_state f imm =
     (if hoverFrom f < int (length (views f)) \<and> hostage (views f ! nat (hoverFrom f)) then (HostageText, ''hostage'')
      else if 0 < imm then (Warn, ''pinned'') else (Good, ''free to compact''))"

definition hover_row :: "bool \<Rightarrow> (pclass \<Rightarrow> nat) \<Rightarrow> pclass \<Rightarrow> line" where
  "hover_row zfs t c =
     [(Plain, '' ''), (ClassColour c, full_block),
      (Plain, '' '' @ pad_right 9 (classNames zfs c) @ '' '' @ pad_left 6 (decimal (t c)) @ '' pages '' @
        pad_left 9 (pages_text (t c)))]"

definition hoverPane :: "pkg_vars \<Rightarrow> 'a ui_frame_scheme \<Rightarrow> line list" where
  "hoverPane vars f =
     (let css = hover_blocks f; t = sum_over css;
          known = (\<Sum>c\<leftarrow>ram_classes. t c);
          imm = (\<Sum>c\<leftarrow>filter (immovable (abdMovable vars)) ram_classes. t c);
          what = (if hoverTo f - hoverFrom f > 1
                  then ''blocks '' @ show_int (hoverFrom f) @ en_dash @ show_int (hoverTo f - 1)
                  else ''block '' @ show_int (hoverFrom f));
          place = (\<lambda>b. humanBytes (of_int b * block_size_bytes f));
          top_lines = [head ''under the pointer'' @ faint (''   '' @ what),
            faint ('' '' @ place (hoverFrom f) @ en_dash @ place (hoverTo f))]
      in if known = 0 then top_lines @ [faint '' not memory: a hole in the map'']
         else
           top_lines @
           [[(Plain, '' ''), (Bold, fixed 0 (fl (fl (fl (of_nat (known - t clFree)) / fl (of_nat known)) * 100)) @ ''%''),
             (Plain, '' used '' @ mid_dot @ '' '' @ pages_text imm @ '' immovable '' @ mid_dot @ '' ''),
             hover_state f imm], []] @
           map (hover_row (zfsNames vars) t) (filter (\<lambda>c. t c \<noteq> 0) barOrder))"

definition leftPane :: "pane_input \<Rightarrow> 'a ui_frame_scheme \<Rightarrow> line list go_result" where
  "leftPane e f =
     (if hoverTo f > hoverFrom f then Inr (hoverPane (pkg e) f)
      else and_then (types_rows (rf_types (reporting e))) (\<lambda>rows.
        Inr ([head ''pageblocks by migrate type''] @ rows @ [[], head ''page flags vs kernel counters''] @
          reconcile e (m f))))"

section \<open>The slab table\<close>

definition sort_names :: "string list" where
  "sort_names = [''hostage pages'', ''blocks touched'', ''least dense'', ''size'']"

definition sortName :: "'a ui_frame_scheme \<Rightarrow> string go_result" where
  "sortName f =
     (let k = slabSort f smod 4 in if k < 0 then Inl SliceOutOfRange else Inr (sort_names ! nat k))"

definition occStyle :: "rat \<Rightarrow> style" where
  "occStyle oc = (if oc < 1 / 2 then Bad else if oc < fl (8 / 10) then Warn else Plain)"

definition moveMark :: "bool \<Rightarrow> style \<times> string" where
  "moveMark mob = (if mob then (Good, ''    '' @ utf8 0x2713) else (Faint, ''    -''))"

fun topSite :: "site_stat list \<Rightarrow> string \<Rightarrow> string" where
  "topSite [] cache = []"
| "topSite (s # ss) cache = (if site_cache s = cache then site_fn s @ '' '' @ site_file s else topSite ss cache)"

definition used_text :: "nat \<Rightarrow> slab_cache \<Rightarrow> string" where
  "used_text n c = pad_left n (fixed 0 (fl (occupancy c * 100))) @ ''%''"

definition slab_row :: "pane_input \<Rightarrow> slab_cache \<Rightarrow> line" where
  "slab_row e c =
     (let w = who_of (rf_who (reporting e)) (sname c)
      in [(Plain, '' '' @ pad_right 22 (trunc (cacheLabel (cacheAliases (pkg e)) (sname c)) 22) @ '' '' @
            pad_left 8 (humanBytes (slab_bytes c)) @ '' ''),
          (occStyle (occupancy c), used_text 4 c),
          (Plain, '' '' @ pad_left 7 (humanCount (wblocks w)) @ '' '' @ pad_left 7 (humanCount (whostageBlocks w))),
          moveMark (mobile w)])"

definition slab_row_plain :: "pane_input \<Rightarrow> slab_cache \<Rightarrow> line" where
  "slab_row_plain e c =
     plain ('' '' @ pad_right 22 (trunc (cacheLabel (cacheAliases (pkg e)) (sname c)) 22) @ '' '' @
       pad_left 8 (humanBytes (slab_bytes c)) @ '' '' @ used_text 5 c)"

definition slabs_of :: "pane_input \<Rightarrow> 'a ui_frame_scheme \<Rightarrow> slab_cache list go_result" where
  "slabs_of e f = sortedSlabs (slabSort f) (rf_who (reporting e)) (rf_slabs (reporting e))"

definition slabPane :: "int \<Rightarrow> pane_input \<Rightarrow> 'a ui_frame_scheme \<Rightarrow> line list go_result" where
  "slabPane limit e f =
     and_then (slabs_of e f) (\<lambda>cs.
     and_then (sortName f) (\<lambda>order.
       let rf = reporting e
       in if rf_who rf = None
          then Inr ([head ''slab caches'' @ faint ('' '' @ mid_dot @ '' '' @ order),
                     faint ('' '' @ (if rf_whoErr rf \<noteq> [] then rf_whoErr rf
                                    else ''load slabwho.ko for the block columns'')),
                     faint ('' '' @ pad_right 22 ''cache'' @ '' '' @ pad_left 9 ''size'' @ '' '' @ pad_left 6 ''used'')] @
                    map (slab_row_plain e) (take (nat (limit - 3)) cs))
          else Inr ([head ''slab caches'' @ faint ('' by '' @ order) @
                       faint (''   '' @ show_int (max (int (length cs) - limit + 2) 0) @ '' more with Tab''),
                     faint ('' '' @ pad_right 22 ''cache'' @ '' '' @ pad_left 9 ''size'' @ '' '' @ pad_left 5 ''used'' @ '' '' @
                       pad_left 7 ''blocks'' @ '' '' @ pad_left 7 ''hostage'' @ '' '' @ pad_left 5 ''move'')] @
                    map (slab_row e) (take (nat (limit - 2)) cs))))"

definition aliasRows :: int where "aliasRows = 3"

definition legend_reserve :: "pane_input \<Rightarrow> int" where
  "legend_reserve e = (if cacheAliases (pkg e) \<noteq> None then aliasRows + 1 else 0)"

definition slab_full_row :: "nat \<Rightarrow> pane_input \<Rightarrow> slab_cache \<Rightarrow> line" where
  "slab_full_row width e c =
     (let w = who_of (rf_who (reporting e)) (sname c)
      in [(Plain, '' '' @ pad_right 28 (trunc (cacheLabel (cacheAliases (pkg e)) (sname c)) 28) @ '' '' @
            pad_left 10 (humanBytes (slab_bytes c)) @ '' '' @ pad_left 10 (humanBytes (wasted c)) @ '' '' @
            pad_left 8 (humanBytes (objSize c)) @ '' ''),
          (occStyle (occupancy c), used_text 5 c),
          (Plain, '' '' @ pad_left 8 (humanCount (wblocks w)) @ '' '' @ pad_left 8 (humanCount (whostageBlocks w)) @ '' '' @
            pad_left 10 (humanCount (whostagePages w)) @ '' ''),
          moveMark (mobile w), (Plain, ''  ''),
          (Faint, trunc (topSite (rf_sites (reporting e)) (sname c)) (nat (max (int width - 116) 8)))])"

text \<open>\<open>f\<close> is the frame after \<open>slab_window\<close> has settled the scroll position.\<close>

definition shown_slabs :: "'a ui_frame_scheme \<Rightarrow> slab_cache list \<Rightarrow> slab_cache list" where
  "shown_slabs f cs = take (nat (slabRows f)) (drop (nat (slabScroll f)) cs)"

definition slab_full_lines :: "nat \<Rightarrow> pane_input \<Rightarrow> slab_cache list \<Rightarrow> string \<Rightarrow> 'a ui_frame_scheme \<Rightarrow> line list" where
  "slab_full_lines width e cs order f =
     (let n = int (length cs);
          shown = (if rf_who (reporting e) = None then faint ''   no per-block data, load slabwho.ko''
                   else faint (''   showing '' @ show_int (slabScroll f + 1) @ en_dash @
                          show_int (min (slabScroll f + slabRows f) n) @ '' of '' @ show_int n));
          al = aliasLines (cacheAliases (pkg e)) (map sname (shown_slabs f cs)) width (nat aliasRows)
      in [head ''slab caches'' @ faint ''   order: '' @ [(Bold, order)] @ faint '' (o cycles)'' @ shown,
          faint ('' '' @ pad_right 28 ''cache'' @ '' '' @ pad_left 10 ''size'' @ '' '' @ pad_left 10 ''wasted'' @ '' '' @
            pad_left 8 ''objsize'' @ '' '' @ pad_left 6 ''used'' @ '' '' @ pad_left 8 ''blocks'' @ '' '' @
            pad_left 8 ''hostage'' @ '' '' @ pad_left 10 ''host.pages'' @ '' '' @ pad_left 5 ''move'' @
            ''  mostly allocated at'')] @
         map (slab_full_row width e) (shown_slabs f cs) @
         (if 0 < legend_reserve e \<and> al \<noteq> []
          then faint '' one kmem_cache shared by, and reported as, the first of:'' # map faint al else []))"

definition slabFullPane :: "int \<Rightarrow> nat \<Rightarrow> pane_input \<Rightarrow> 'a ui_frame_scheme \<Rightarrow> (line list \<times> 'a ui_frame_scheme) go_result" where
  "slabFullPane rows width e f =
     and_then (slabs_of e f) (\<lambda>cs.
     and_then (sortName f) (\<lambda>order.
       let f' = slab_window rows (int (length cs)) (legend_reserve e) f
       in Inr (slab_full_lines width e cs order f', f')))"


section \<open>The bar keeps to its width\<close>

definition share_cells :: "(pclass \<Rightarrow> nat) \<Rightarrow> nat \<Rightarrow> int \<Rightarrow> pclass \<Rightarrow> int" where
  "share_cells tot_of known width c =
     (let n0 = to_int (fl (fl (fl (of_nat (tot_of c)) / fl (of_nat known)) * fl (of_int width)))
      in if n0 = 0 \<and> 0 < tot_of c then 1 else n0)"

lemma share_cells_nonneg: "0 \<le> width \<Longrightarrow> 0 \<le> share_cells tot_of known width c"
proof -
  assume "0 \<le> width"
  then have "0 \<le> fl (fl (fl (of_nat (tot_of c)) / fl (of_nat known)) * fl (of_int width))"
    by (intro fl_nonneg mult_nonneg_nonneg divide_nonneg_nonneg) simp_all
  then show ?thesis using to_int_nonneg by (simp add: share_cells_def Let_def)
qed

lemma share_cells_pos:
  assumes "0 \<le> width" and "0 < tot_of c"
  shows "1 \<le> share_cells tot_of known width c"
  using share_cells_nonneg [OF assms(1), of tot_of known c] assms(2)
  by (auto simp: share_cells_def Let_def split: if_splits)

lemma bar_cells_Cons:
  "bar_cells tot_of known width (c # cs) drawn =
     (let n = min (share_cells tot_of known width c) (width - drawn)
      in (c, n) # bar_cells tot_of known width cs (drawn + n))"
  by (simp add: share_cells_def Let_def min_def)

lemma bar_cells_spec:
  assumes "0 \<le> drawn" and "drawn \<le> width"
  shows "map fst (bar_cells tot_of known width cs drawn) = cs \<and>
    (\<forall>p \<in> set (bar_cells tot_of known width cs drawn). 0 \<le> snd p) \<and>
    drawn + (\<Sum>p\<leftarrow>bar_cells tot_of known width cs drawn. snd p) \<le> width \<and>
    (\<forall>p \<in> set (bar_cells tot_of known width cs drawn). 0 < tot_of (fst p) \<and> snd p = 0 \<longrightarrow>
       drawn + (\<Sum>p\<leftarrow>bar_cells tot_of known width cs drawn. snd p) = width)"
  using assms
proof (induction cs arbitrary: drawn)
  case Nil
  then show ?case by simp
next
  case (Cons c cs)
  let ?n = "min (share_cells tot_of known width c) (width - drawn)"
  have n: "0 \<le> ?n" "drawn + ?n \<le> width"
    using share_cells_nonneg [of width tot_of known c] Cons.prems by auto
  note IH = Cons.IH [of "drawn + ?n"]
  let ?bs = "bar_cells tot_of known width cs (drawn + ?n)"
  have eq: "bar_cells tot_of known width (c # cs) drawn = (c, ?n) # ?bs"
    by (simp only: bar_cells_Cons Let_def)
  have IH': "map fst ?bs = cs" "\<forall>p \<in> set ?bs. 0 \<le> snd p" "drawn + ?n + (\<Sum>p\<leftarrow>?bs. snd p) \<le> width"
    "\<forall>p \<in> set ?bs. 0 < tot_of (fst p) \<and> snd p = 0 \<longrightarrow> drawn + ?n + (\<Sum>p\<leftarrow>?bs. snd p) = width"
    using IH Cons.prems n by simp_all
  have "0 \<le> (\<Sum>p\<leftarrow>?bs. snd p)" using IH'(2) by (intro sum_list_nonneg) auto
  moreover have "drawn = width" if "0 < tot_of c" "?n = 0"
    using share_cells_pos [of width tot_of c known] that Cons.prems by (auto simp: min_def split: if_splits)
  ultimately show ?case unfolding eq using IH' n by (auto simp: algebra_simps)
qed

text \<open>
  The composition bar keeps to its width: every class of the order gets its stretch, none is
  negative (which \<^verbatim>\<open>strings.Repeat\<close> would not survive), together they are no longer than the
  bar, and a class that has pages is missing from the bar only when the bar is full.
\<close>

theorem composition_bar_fits:
  assumes "0 \<le> width"
  shows "let bar = bar_cells (class_total b) (known_total b) width barOrder 0; len = (\<Sum>p\<leftarrow>bar. snd p)
    in map fst bar = barOrder \<and> len \<le> width \<and>
       (\<forall>p \<in> set bar. 0 \<le> snd p \<and> (0 < class_total b (fst p) \<and> snd p = 0 \<longrightarrow> len = width))"
  using bar_cells_spec [of 0 width "class_total b" "known_total b" barOrder] assms by (simp add: Let_def)

lemma composition_bar_fits_witness:
  "(\<Sum>p\<leftarrow>bar_cells (class_total (m sample_frame)) (known_total (m sample_frame)) 78 barOrder 0. snd p) \<le> 78"
  using composition_bar_fits [of 78 "m sample_frame"] by (simp only: Let_def)

end
