(* ===== verification/Events.thy ===== *)
theory Events
  imports Draw
begin

text \<open>
  The running program, \<^verbatim>\<open>packages/fragview/main.go\<close>: the scan chain (\<^verbatim>\<open>scan\<close>, \<^verbatim>\<open>scanRange\<close>)
  and the messages of \<^verbatim>\<open>Update\<close>, as steps of a \<^verbatim>\<open>model\<close>, and what holds in every state
  they reach. A scan reads its instructions under the lock, reads the flag file without it
  and publishes under it again, so it is two steps with anything in between.
\<close>

section \<open>State\<close>

datatype scan_job = FullSweep | Slice int | NoScan

record model =
  frm :: ui_frame
  ppb :: nat
  cursor :: int
  ready :: bool
  hoverSeq :: u64
  wantFull :: bool
  scratch :: "counts list"
  unknownFlags :: unknowns
  inflight :: "scan_job option"

section \<open>Scanning\<close>

text \<open>
  \<^verbatim>\<open>scanRange\<close>. A failed scan publishes nothing; what it saw of unclassified words is
  merged into the register either way.
\<close>

definition readBuf :: nat where
  "readBuf = 1048576"

definition publish :: "int \<Rightarrow> int \<Rightarrow> counts list \<Rightarrow> 'a ui_frame_scheme \<Rightarrow> 'a ui_frame_scheme" where
  "publish lo hi dst fr =
     (let cs = counts (m fr)
      in fr\<lparr>m := (m fr)\<lparr>counts := take (nat lo) cs @ take (nat (hi - lo)) dst @ drop (nat hi) cs\<rparr>,
            gen := gen fr + 1\<rparr>)"

definition scanRange :: "reader \<Rightarrow> int \<Rightarrow> int \<Rightarrow> model \<Rightarrow> model" where
  "scanRange rd lo hi M =
     (let n = int (nblocks (m (frm M)));
          hi' = (if hi > n then n else hi)
      in if hi' \<le> lo then M
         else
           (let scr = (if int (length (scratch M)) < hi' - lo
                       then replicate (nat (hi' - lo)) zero_counts else scratch M);
                (dst, unk, err) = refreshInto rd (m (frm M)) lo hi' (ppb M) scr readBuf;
                M' = M\<lparr>scratch := dst, unknownFlags := mergeUnknown (unknownFlags M) unk\<rparr>
            in if err \<noteq> None then M' else M'\<lparr>frm := publish lo hi' dst (frm M')\<rparr>))"

text \<open>
  \<^verbatim>\<open>scan\<close>, first under the lock: what to do. The chunk is computed right after, from the
  values read there; \<^verbatim>\<open>total / share\<close> stops the program when the share is zero.
\<close>

definition chunk_of :: "int \<Rightarrow> int \<Rightarrow> int" where
  "chunk_of tot shr = (if tot sdiv shr < 1 then 1 else tot sdiv shr)"

definition scan_begin :: "model \<Rightarrow> model go_result" where
  "scan_begin M =
     (let tot = int (nblocks (m (frm M))); M' = M\<lparr>wantFull := False\<rparr>
      in if wantFull M then Inr (M'\<lparr>inflight := Some FullSweep\<rparr>)
         else if paused (frm M) then Inr (M'\<lparr>inflight := Some NoScan\<rparr>)
         else if share (frm M) = 0 then Inl DivideByZero
         else Inr (M'\<lparr>inflight := Some (Slice (chunk_of tot (share (frm M))))\<rparr>))"

text \<open>The rest of it, up to the \<^verbatim>\<open>scanDoneMsg\<close> that schedules the next one.\<close>

definition next_cursor :: "int \<Rightarrow> int \<Rightarrow> int \<Rightarrow> int" where
  "next_cursor tot chunk cur = (if cur + chunk \<ge> tot then 0 else cur + chunk)"

definition scan_end :: "reader \<Rightarrow> scan_job \<Rightarrow> model \<Rightarrow> model" where
  "scan_end rd job M =
     (let tot = int (nblocks (m (frm M)))
      in case job of
           FullSweep \<Rightarrow> (scanRange rd 0 tot M)\<lparr>cursor := 0, ready := True, inflight := None\<rparr>
         | Slice chunk \<Rightarrow>
             (scanRange rd (cursor M) (cursor M + chunk) M)
               \<lparr>cursor := next_cursor tot chunk (cursor M), inflight := None\<rparr>
         | NoScan \<Rightarrow> M\<lparr>inflight := None\<rparr>)"

section \<open>Messages\<close>

definition mouse_wheel :: "bool \<Rightarrow> bool \<Rightarrow> model \<Rightarrow> model" where
  "mouse_wheel down ctrl M = M\<lparr>frm := wheel down ctrl (frm M), hoverSeq := hoverSeq M + 1\<rparr>"

definition mouse_move :: "int \<Rightarrow> int \<Rightarrow> model \<Rightarrow> model" where
  "mouse_move x y M =
     (if hoverCol (frm M) = x \<and> hoverRow (frm M) = y then M
      else M\<lparr>frm := move_pointer x y (frm M), hoverSeq := hoverSeq M + 1\<rparr>)"

definition hover_settle :: "u64 \<Rightarrow> model \<Rightarrow> model" where
  "hover_settle sq M = (if sq = hoverSeq M then M\<lparr>frm := settle_box (frm M)\<rparr> else M)"

text \<open>All keys of one message are applied, whatever they ask for.\<close>

fun keys_msg :: "bool \<Rightarrow> string list \<Rightarrow> ui_frame \<Rightarrow> ui_frame \<times> bool \<times> bool" where
  "keys_msg kitty [] fr = (fr, False, False)"
| "keys_msg kitty (k # ks) fr =
     (let (fr1, q, c) = key kitty k fr; (fr2, quit, compact) = keys_msg kitty ks fr1
      in (fr2, q \<or> quit, c \<or> compact))"

definition update_keys :: "bool \<Rightarrow> string list \<Rightarrow> model \<Rightarrow> model" where
  "update_keys kitty ks M =
     (let (fr, quit, compact) = keys_msg kitty ks (frm M)
      in M\<lparr>frm := fr, wantFull := wantFull M \<or> compact\<rparr>)"

section \<open>Steps\<close>

text \<open>
  \<open>mv\<close> says whether ARC pages can be moved, \<open>kitty\<close> whether the terminal draws pictures. A
  repaint waits for the opening sweep, reads the cell size, which is at least a pixel each
  way, and is due at the latest when nothing was ever painted.
\<close>

inductive session_step :: "bool \<Rightarrow> bool \<Rightarrow> model \<Rightarrow> model \<Rightarrow> bool" for mv kitty where
  wheel: "session_step mv kitty M (mouse_wheel down ctrl M)"
| move: "session_step mv kitty M (mouse_move x y M)"
| settle: "session_step mv kitty M (hover_settle sq M)"
| keys: "session_step mv kitty M (update_keys kitty ks M)"
| draw: "ready M \<Longrightarrow> 1 \<le> cw \<Longrightarrow> 1 \<le> ch \<Longrightarrow> (blocksPerRow (layout (frm M)) = 0 \<Longrightarrow> due) \<Longrightarrow>
    session_step mv kitty M
      (M\<lparr>frm := render mv due cw ch leftLen n reserve rows cols (frm M)\<rparr>)"
| scan_starts: "inflight M = None \<Longrightarrow> scan_begin M = Inr M' \<Longrightarrow> session_step mv kitty M M'"
| scan_ends: "inflight M = Some job \<Longrightarrow> session_step mv kitty M (scan_end rd job M)"

inductive_cases session_stepE: "session_step mv kitty M M'"

definition reachable :: "bool \<Rightarrow> bool \<Rightarrow> model \<Rightarrow> model \<Rightarrow> bool" where
  "reachable mv kitty = (session_step mv kitty)\<^sup>*\<^sup>*"

text \<open>\<^verbatim>\<open>main\<close> builds this frame and model from the flags.\<close>

definition start_frame :: "block_map \<Rightarrow> nat \<Rightarrow> int \<Rightarrow> bool \<Rightarrow> int \<Rightarrow> bool \<Rightarrow> ui_frame" where
  "start_frame bm pages shr slab order kitty =
     \<lparr>m = bm, pagesPerBlock = pages, views = [], hostages = 0, hostageFree = 0, viewFrom = 0,
      viewTo = int (nblocks bm), share = shr, paused = False, byClass = False, pixels = kitty,
      layout = no_layout, pxKey = \<lparr>kfrom = 0, kto = 0, kwidth = 0, krows = 0, kcellW = 0,
        kcellH = 0, kgen = 0, khoverFrom = 0, khoverTo = 0\<rparr>, gen = 0, mapTop = 0,
      hoverCol = -1, hoverRow = -1, hoverFrom = 0, hoverTo = 0, boxFrom = 0, boxTo = 0,
      rowBlocks = 0, screenBlocks = 0, focusSlab = slab, slabSort = order smod nSorts,
      slabScroll = 0, slabRows = 0, slabTotal = 0\<rparr>"

definition start_model :: "ui_frame \<Rightarrow> model" where
  "start_model fr = \<lparr>frm = fr, ppb = pagesPerBlock fr, cursor = 0, ready = False, hoverSeq = 0,
     wantFull = True, scratch = [], unknownFlags = [], inflight = None\<rparr>"

section \<open>What a step keeps of the frame\<close>

text \<open>
  Apart from the window: every frame has a share to divide by, a sort order to look up, a
  pointer range on the map and a layout that is painted or blank.
\<close>

definition rest_ok :: "nat \<Rightarrow> ui_frame \<Rightarrow> bool" where
  "rest_ok n fr \<longleftrightarrow> nblocks (m fr) = n \<and> length (counts (m fr)) = n \<and> 1 \<le> share fr \<and>
     0 \<le> slabSort fr \<and> slabSort fr < nSorts \<and>
     0 \<le> hoverFrom fr \<and> hoverFrom fr \<le> hoverTo fr \<and> hoverTo fr \<le> int n \<and>
     (layout fr = no_layout \<or> layout_ok (layout fr) \<and> 0 \<le> lviewFrom (layout fr))"

definition frame_ok :: "nat \<Rightarrow> ui_frame \<Rightarrow> bool" where
  "frame_ok n fr \<longleftrightarrow> window_ok fr \<and> rest_ok n fr"

lemma rest_ok_cong:
  "rest_ok n fr \<Longrightarrow> m fr' = m fr \<Longrightarrow> share fr' = share fr \<Longrightarrow> slabSort fr' = slabSort fr \<Longrightarrow>
   hoverFrom fr' = hoverFrom fr \<Longrightarrow> hoverTo fr' = hoverTo fr \<Longrightarrow> layout fr' = layout fr \<Longrightarrow>
   rest_ok n fr'"
  by (simp add: rest_ok_def)

lemma clamp_fields [simp]:
  "share (clamp fr) = share fr" "slabSort (clamp fr) = slabSort fr"
  "hoverFrom (clamp fr) = hoverFrom fr" "hoverTo (clamp fr) = hoverTo fr"
  "layout (clamp fr) = layout fr"
  by (simp_all add: clamp_def Let_def)

lemma clamp_rest: "rest_ok n fr \<Longrightarrow> rest_ok n (clamp fr)"
  by (erule rest_ok_cong) simp_all

lemma pan_rest: "rest_ok n fr \<Longrightarrow> rest_ok n (pan by fr)"
  unfolding pan_def by (rule clamp_rest) (simp add: rest_ok_def)

lemma zoom_rest: "rest_ok n fr \<Longrightarrow> rest_ok n (zoom width fr)"
  unfolding zoom_def Let_def by (rule clamp_rest) (simp add: rest_ok_def)

lemma wheel_rest: "rest_ok n fr \<Longrightarrow> rest_ok n (wheel down ctrl fr)"
  unfolding wheel_def Let_def by (auto intro: pan_rest zoom_rest) (auto simp: rest_ok_def)

lemma slab_key_rest: "rest_ok n fr \<Longrightarrow> rest_ok n (slab_key k fr)"
  by (rule rest_ok_cong) simp_all

lemma sort_step: "0 \<le> s \<Longrightarrow> 0 \<le> (s + 1) smod nSorts \<and> (s + 1) smod nSorts < nSorts"
  by (simp add: smod_nonneg nSorts_def)

lemma mode_key_rest: "rest_ok n fr \<Longrightarrow> rest_ok n (mode_key kitty k fr)"
  using sort_step [of "slabSort fr"] by (auto simp: mode_key_def rest_ok_def)

lemma rest_ok_if: "rest_ok n a \<Longrightarrow> rest_ok n b \<Longrightarrow> rest_ok n (if c then a else b)"
  by simp

lemma map_key_rest:
  assumes "rest_ok n fr"
  shows "rest_ok n (map_key k width row screen fr)"
proof -
  have home: "rest_ok n (clamp (fr\<lparr>viewFrom := a, viewTo := b\<rparr>))" for a b
    using assms by (intro clamp_rest) (simp add: rest_ok_def)
  have half: "rest_ok n (if share fr > 1 then fr\<lparr>share := share fr sdiv 2\<rparr> else fr)"
    using assms by (auto simp: rest_ok_def sdiv_nonneg)
  have twice: "rest_ok n (if share fr < 256 then fr\<lparr>share := share fr * 2\<rparr> else fr)"
    using assms by (auto simp: rest_ok_def)
  show ?thesis
    unfolding map_key_def
    by (intro rest_ok_if [of n _ "if _ = _ then _ else _"] rest_ok_if [of n _ "if _ \<in> _ then _ else _"]
        rest_ok_if [of n _ fr] pan_rest zoom_rest home half twice assms)
qed

lemma frame_ok_key: "frame_ok n fr \<Longrightarrow> frame_ok n (fst (key kitty k fr))"
proof -
  assume ok: "frame_ok n fr"
  then have r: "rest_ok n (if focusSlab fr then slab_key k fr else fr)"
    by (simp add: frame_ok_def slab_key_rest)
  then have "rest_ok n (fst (key kitty k fr))"
    by (simp add: key_def Let_def mode_key_rest map_key_rest)
  with ok show ?thesis by (simp add: frame_ok_def key_ok)
qed

lemma frame_ok_keys: "frame_ok n fr \<Longrightarrow> frame_ok n (fst (keys_msg kitty ks fr))"
proof (induction kitty ks fr rule: keys_msg.induct)
  case (1 kitty fr)
  then show ?case by simp
next
  case (2 kitty k ks fr)
  obtain fr1 q c where key: "key kitty k fr = (fr1, q, c)" by (cases "key kitty k fr")
  then have "frame_ok n fr1" using frame_ok_key [of n fr kitty k] 2 by simp
  then show ?case using 2 key by (simp add: Let_def case_prod_beta)
qed

lemma frame_ok_wheel: "frame_ok n fr \<Longrightarrow> frame_ok n (wheel down ctrl fr)"
  by (simp add: frame_ok_def wheel_ok wheel_rest)

lemma frame_ok_cong:
  "frame_ok n fr \<Longrightarrow> viewFrom fr' = viewFrom fr \<Longrightarrow> viewTo fr' = viewTo fr \<Longrightarrow> m fr' = m fr \<Longrightarrow>
   share fr' = share fr \<Longrightarrow> slabSort fr' = slabSort fr \<Longrightarrow> hoverFrom fr' = hoverFrom fr \<Longrightarrow>
   hoverTo fr' = hoverTo fr \<Longrightarrow> layout fr' = layout fr \<Longrightarrow> frame_ok n fr'"
  by (auto simp: frame_ok_def rest_ok_def window_ok_def)

lemma frame_ok_pointer: "frame_ok n fr \<Longrightarrow> frame_ok n (move_pointer x y fr)"
  by (rule frame_ok_cong) (simp_all add: move_pointer_def)

lemma frame_ok_settle: "frame_ok n fr \<Longrightarrow> frame_ok n (settle_box fr)"
  by (rule frame_ok_cong) (simp_all add: settle_box_def)

lemma frame_ok_summarise:
  assumes "frame_ok n fr"
  shows "frame_ok n (frame_summarise mv fr)"
proof -
  have "map_ok (m fr)" using assms by (simp add: frame_ok_def rest_ok_def map_ok_def)
  then show ?thesis
    using assms by (auto simp: frame_summarise_eq frame_ok_def rest_ok_def window_ok_def)
qed

text \<open>The blocks under a cell are an interval of the map.\<close>

lemma cell_blocks_range:
  assumes "layout_ok l" and "0 \<le> lviewFrom l" and "0 \<le> nb"
  shows "0 \<le> fst (cell_blocks l nb col row) \<and>
    fst (cell_blocks l nb col row) \<le> snd (cell_blocks l nb col row) \<and>
    snd (cell_blocks l nb col row) \<le> nb"
proof (cases "col < 0 \<or> row < 0 \<or> row \<ge> mapRows l \<or> col * cellW l \<ge> pxW l \<or>
    row * cellH l sdiv (rowSpan l * cellH l) \<ge> tileRows l")
  case True
  then show ?thesis using assms(3) by (auto simp: cell_blocks_def Let_def)
next
  case False
  note d = layout_okD [OF assms(1)]
  let ?x = "col * cellW l" and ?t = "row div rowSpan l"
  let ?A = "lviewFrom l + ?t * blocksPerRow l"
  let ?lst = "min (lviewFrom l + tileRows l * blocksPerRow l) nb"
  have x: "0 \<le> ?x" "?x < pxW l" and t: "0 \<le> ?t"
    using False d by (auto simp: pos_imp_zdiv_nonneg_iff)
  have row: "row * cellH l sdiv (rowSpan l * cellH l) = ?t"
    using False by (intro cell_row assms(1)) simp
  have A: "0 \<le> ?A" using assms(2) t d(8) by simp
  have lst: "0 \<le> ?lst" "?lst \<le> nb" using assms d by auto
  have clip: "0 \<le> min a ?lst \<and> min a ?lst \<le> min b ?lst \<and> min b ?lst \<le> nb"
    if "0 \<le> a" "a \<le> b" for a b
    using that lst by (auto simp: min_def)
  show ?thesis
  proof (cases "0 < blockPx l")
    case True
    let ?j = "(?x + cellW l sdiv 2) * blocksPerRow l sdiv pxW l"
    have "0 \<le> ?j" using x d by (simp add: sdiv_nonneg pos_imp_zdiv_nonneg_iff)
    then have "0 \<le> ?A + ?j" "?A + ?j \<le> ?A + (?j + 1)" using A by simp_all
    from clip [OF this] show ?thesis
      using True False d by (simp add: cell_blocks_def Let_def cell_row [OF assms(1)])
  next
    case no: False
    then have pc: "0 < perCol l" using d by simp
    have "?x * perCol l \<le> min (?x + cellW l) (pxW l) * perCol l"
      using pc x d by (intro mult_right_mono) auto
    then have "0 \<le> ?A + ?x * perCol l"
      "?A + ?x * perCol l \<le> ?A + min (?x + cellW l) (pxW l) * perCol l"
      using A x pc by simp_all
    note range = clip [OF this]
    have "cell_blocks l nb col row =
        (min (?A + ?x * perCol l) ?lst, min (?A + min (?x + cellW l) (pxW l) * perCol l) ?lst)"
      using no False unfolding row by (simp add: cell_blocks_def Let_def row)
    with range show ?thesis by simp
  qed
qed

lemma frame_ok_hover:
  assumes "frame_ok n fr"
  shows "frame_ok n (resolveHover fr)"
proof (cases "layout fr = no_layout")
  case True
  then have "blocksPerRow (layout fr) = 0" by (simp add: no_layout_def)
  then show ?thesis
    using assms by (auto simp: resolveHover_def frame_ok_def rest_ok_def window_ok_def)
next
  case False
  let ?r = "cell_blocks (layout fr) (int (nblocks (m fr))) (hoverCol fr - mapLabel)
    (hoverRow fr - mapTop fr)"
  have "layout_ok (layout fr)" "0 \<le> lviewFrom (layout fr)" "nblocks (m fr) = n"
    using assms False by (auto simp: frame_ok_def rest_ok_def)
  then have "0 \<le> fst ?r \<and> fst ?r \<le> snd ?r \<and> snd ?r \<le> int n"
    using cell_blocks_range [of "layout fr" "int n"] by simp
  then show ?thesis
    using assms by (auto simp: resolveHover_def frame_ok_def rest_ok_def window_ok_def case_prod_beta)
qed

lemma frame_ok_width: "frame_ok n fr \<Longrightarrow> 0 < n \<Longrightarrow> 0 < viewTo fr - viewFrom fr"
  by (auto simp: frame_ok_def rest_ok_def window_ok_def min_def split: if_splits)

lemma frame_ok_paint:
  assumes "frame_ok n fr" and "0 < n" and "0 < cols" and "1 \<le> cw" and "1 \<le> ch" and "0 < rows"
  shows "frame_ok n (paintPixels cols rows cw ch fr)"
proof -
  have "layout_ok (pixLayoutFor (viewTo fr - viewFrom fr) (cols * cw) cw ch rows)"
    using frame_ok_width [OF assms(1,2)] assms by (intro pixLayoutFor_ok [THEN conjunct1]) auto
  then show ?thesis
    using assms(1) by (auto simp: paintPixels_def Let_def frame_ok_def rest_ok_def window_ok_def)
qed

lemma frame_ok_draw:
  assumes "frame_ok n fr" and "0 < n" and "1 \<le> cw" and "1 \<le> ch"
  shows "frame_ok n (render mv due cw ch leftLen k reserve rows cols fr)"
proof -
  let ?f1 = "frame_summarise mv fr"
  let ?f2 = "resolveHover ?f1"
  let ?f3 = "?f2\<lparr>slabTotal := k, mapTop := 11 + 1\<rparr>"
  have f1: "frame_ok n ?f1" by (rule frame_ok_summarise) (fact assms(1))
  have f2: "frame_ok n ?f2" by (rule frame_ok_hover) (fact f1)
  have f3: "frame_ok n ?f3" using f2 by (rule frame_ok_cong) simp_all
  have h: "0 < map_height px (viewTo ?f2 - viewFrom ?f2) w avail leftLen" for px w avail
    using map_height_pos [OF frame_ok_width [OF f2 assms(2)]]
    by (simp add: int_one_le_iff_zero_less)
  have "frame_ok n (slab_window r k reserve ?f1)" for r
    using f1 by (rule frame_ok_cong) (simp_all add: slab_window_def Let_def)
  moreover have "frame_ok n (snd (blockMap w r ?f3))" for w r
    using f3 by (rule frame_ok_cong) (simp_all add: blockMap_def Let_def)
  moreover have "frame_ok n (pixelBlockMap due w r cw ch ?f3)" if "0 < r" for w r
  proof -
    have "frame_ok n (?f3\<lparr>pxKey := key\<rparr>)" for key using f3 by (rule frame_ok_cong) simp_all
    moreover have "0 < map_cols w" using map_cols_pos [of w] by simp
    ultimately show ?thesis
      using f3 frame_ok_paint [OF _ assms(2) _ assms(3,4) that]
      by (simp only: pixelBlockMap_def Let_def if_split simp_thms)
  qed
  ultimately show ?thesis using h by (simp add: render_def Let_def)
qed

lemma length_refreshInto: "length (fst (refreshInto rd bm lo hi p dst buflen)) = length dst"
  by (simp add: refreshInto_def Let_def length_refresh_loop)

lemma frame_ok_publish:
  assumes "frame_ok n fr" and "0 \<le> lo" and "lo \<le> hi" and "hi \<le> int n"
    and "hi - lo \<le> int (length dst)"
  shows "frame_ok n (publish lo hi dst fr)"
proof -
  have "length (counts (m fr)) = n" using assms(1) by (simp add: frame_ok_def rest_ok_def)
  then have "length (take (nat lo) (counts (m fr)) @ take (nat (hi - lo)) dst @
      drop (nat hi) (counts (m fr))) = n"
    using assms(2-5) by (simp add: min_absorb1 min_absorb2 nat_le_iff le_nat_iff)
  then show ?thesis
    using assms(1) by (auto simp: publish_def Let_def frame_ok_def rest_ok_def window_ok_def)
qed

section \<open>The invariant\<close>

definition session_ok :: "nat \<Rightarrow> model \<Rightarrow> bool" where
  "session_ok n M \<longleftrightarrow> frame_ok n (frm M) \<and> 0 \<le> cursor M \<and> cursor M < int n \<and>
     (\<forall>c. inflight M = Some (Slice c) \<longrightarrow> 1 \<le> c) \<and>
     length (unknownFlags M) \<le> 256"

lemma session_okD:
  assumes "session_ok n M"
  shows "frame_ok n (frm M)" "0 \<le> cursor M" "cursor M < int n" "length (unknownFlags M) \<le> 256"
    "inflight M = Some (Slice c) \<Longrightarrow> 1 \<le> c" "0 < n" "nblocks (m (frm M)) = n" "share (frm M) \<noteq> 0"
  using assms by (auto simp: session_ok_def frame_ok_def rest_ok_def)

lemma session_ok_frame:
  "session_ok n M \<Longrightarrow> frame_ok n fr \<Longrightarrow> session_ok n (M\<lparr>frm := fr\<rparr>)"
  by (simp add: session_ok_def)

lemma scanRange_fields:
  "cursor (scanRange rd lo hi M) = cursor M" "inflight (scanRange rd lo hi M) = inflight M"
  by (simp_all add: scanRange_def Let_def case_prod_beta)

lemma scanRange_ok:
  assumes "session_ok n M" and "0 \<le> lo"
  shows "session_ok n (scanRange rd lo hi M)"
proof -
  let ?hi = "if hi > int n then int n else hi"
  let ?scr = "if int (length (scratch M)) < ?hi - lo then replicate (nat (?hi - lo)) zero_counts
    else scratch M"
  let ?r = "refreshInto rd (m (frm M)) lo ?hi (ppb M) ?scr readBuf"
  let ?M' = "M\<lparr>scratch := fst ?r, unknownFlags := mergeUnknown (unknownFlags M) (fst (snd ?r))\<rparr>"
  have M': "session_ok n ?M'"
    using assms(1) by (simp add: session_ok_def mergeUnknown_length)
  have "frame_ok n (publish lo ?hi (fst ?r) (frm ?M'))" if "lo < ?hi"
    using assms session_okD(1) [OF assms(1)] that
    by (intro frame_ok_publish) (auto simp: length_refreshInto)
  then have "lo < ?hi \<Longrightarrow> session_ok n (?M'\<lparr>frm := publish lo ?hi (fst ?r) (frm ?M')\<rparr>)"
    by (rule session_ok_frame [OF M'])
  then show ?thesis
    using assms(1) M' session_okD(7) [OF assms(1)]
    by (auto simp: scanRange_def Let_def case_prod_beta not_le)
qed

lemma scan_end_ok:
  assumes "session_ok n M" and "\<And>c. job = Slice c \<Longrightarrow> 1 \<le> c"
  shows "session_ok n (scan_end rd job M)"
proof (cases job)
  case FullSweep
  then show ?thesis
    using scanRange_ok [OF assms(1), of 0 rd "int n"] session_okD(6,7) [OF assms(1)]
    by (simp add: scan_end_def Let_def session_ok_def)
next
  case (Slice c)
  have "1 \<le> c" using assms(2) Slice by simp
  then have "0 \<le> next_cursor (int n) c (cursor M) \<and> next_cursor (int n) c (cursor M) < int n"
    using session_okD(2,6) [OF assms(1)] by (simp add: next_cursor_def)
  then show ?thesis
    using scanRange_ok [OF assms(1) session_okD(2) [OF assms(1)], of rd "cursor M + c"]
      session_okD(7) [OF assms(1)] Slice
    by (simp add: scan_end_def Let_def session_ok_def)
next
  case NoScan
  then show ?thesis using assms(1) by (simp add: scan_end_def Let_def session_ok_def)
qed

lemma scan_begin_ok:
  assumes "session_ok n M" and "scan_begin M = Inr M'"
  shows "session_ok n M'"
proof -
  have "1 \<le> chunk_of t s" for t s by (simp add: chunk_of_def)
  then show ?thesis
    using assms by (auto simp: scan_begin_def Let_def session_ok_def split: if_splits)
qed

lemma session_step_ok:
  assumes "session_step mv kitty M M'" and "session_ok n M"
  shows "session_ok n M'"
  using assms
proof (induction rule: session_step.induct)
  case (wheel M down ctrl)
  then show ?case
    by (simp add: mouse_wheel_def session_ok_def frame_ok_wheel)
next
  case (move M x y)
  then show ?case by (simp add: mouse_move_def session_ok_def frame_ok_pointer)
next
  case (settle M sq)
  then show ?case by (simp add: hover_settle_def session_ok_def frame_ok_settle)
next
  case (keys M ks)
  then show ?case
    using frame_ok_keys [of n "frm M" kitty ks]
    by (simp add: update_keys_def session_ok_def case_prod_beta)
next
  case (draw cw ch M due leftLen k reserve rows cols)
  then show ?case
    by (intro session_ok_frame frame_ok_draw) (simp_all add: session_okD)
next
  case (scan_starts M M')
  then show ?case using scan_begin_ok by blast
next
  case (scan_ends M job rd)
  then show ?case using scan_end_ok [of n M job rd] session_okD(5) [of n M] by blast
qed

interpretation session: step_system "session_step mv kitty" "session_ok n" for mv kitty n
  by unfold_locales (fact session_step_ok)

lemma reachable_ok: "reachable mv kitty M M' \<Longrightarrow> session_ok n M \<Longrightarrow> session_ok n M'"
  unfolding reachable_def by (rule session.steps_keep)

lemma start_ok:
  assumes "newBlockMap pages rs = Inr bm" and "1 \<le> shr" and "0 \<le> order"
  shows "session_ok (nblocks bm) (start_model (start_frame bm pages shr slab order kitty))"
proof -
  have "0 < nblocks bm" using assms(1)
    by (auto simp: newBlockMap_def and_then_Inr_iff Let_def split: if_splits)
  moreover have "length (counts bm) = nblocks bm"
    using newBlockMap_ok [OF assms(1)] by (simp add: map_ok_def)
  ultimately show ?thesis
    using assms(2,3)
    by (auto simp: start_model_def start_frame_def session_ok_def frame_ok_def window_ok_def
        rest_ok_def smod_nonneg nSorts_def)
qed

section \<open>Sweeps\<close>

text \<open>The slices of a sweep that starts at the first block.\<close>

definition sweep_slices :: "int \<Rightarrow> int \<Rightarrow> nat" where
  "sweep_slices tot chunk = nat ((tot + chunk - 1) div chunk)"

definition cursor_after :: "int \<Rightarrow> int \<Rightarrow> nat \<Rightarrow> int" where
  "cursor_after tot chunk k = (next_cursor tot chunk ^^ k) 0"

lemma sweep_slices_bounds:
  assumes "1 \<le> chunk" and "1 \<le> tot"
  shows "0 < sweep_slices tot chunk \<and> (int (sweep_slices tot chunk) - 1) * chunk < tot \<and>
    tot \<le> int (sweep_slices tot chunk) * chunk"
proof -
  let ?q = "(tot + chunk - 1) div chunk"
  have q: "1 \<le> ?q" using assms by (simp add: pos_imp_zdiv_pos_iff int_one_le_iff_zero_less)
  have "tot \<le> ?q * chunk" using assms by (intro ceil_div_ge) simp
  moreover have "?q * chunk \<le> tot + chunk - 1"
    using pos_mod_sign [of chunk "tot + chunk - 1"] div_mult_mod_eq [of "tot + chunk - 1" chunk]
      assms by linarith
  moreover have "(?q - 1) * chunk = ?q * chunk - chunk" by (simp add: left_diff_distrib)
  ultimately show ?thesis using q by (simp add: sweep_slices_def)
qed

lemma cursor_after_eq:
  assumes "1 \<le> chunk" and "1 \<le> tot"
  shows "k < sweep_slices tot chunk \<Longrightarrow> cursor_after tot chunk k = int k * chunk"
proof (induction k)
  case 0
  show ?case by (simp add: cursor_after_def)
next
  case (Suc k)
  have "int (Suc k) * chunk \<le> (int (sweep_slices tot chunk) - 1) * chunk"
    using Suc.prems assms by (intro mult_right_mono) auto
  then have "int k * chunk + chunk < tot"
    using sweep_slices_bounds [OF assms] by (simp add: distrib_right)
  then show ?case
    using Suc by (simp add: cursor_after_def next_cursor_def distrib_right)
qed

lemma cursor_after_sweep:
  assumes "1 \<le> chunk" and "1 \<le> tot"
  shows "cursor_after tot chunk (sweep_slices tot chunk) = 0"
proof -
  obtain k where k: "sweep_slices tot chunk = Suc k"
    using sweep_slices_bounds [OF assms] by (metis gr0_implies_Suc)
  have "cursor_after tot chunk k = int k * chunk" using cursor_after_eq [OF assms, of k] k by simp
  moreover have "tot \<le> int k * chunk + chunk"
    using sweep_slices_bounds [OF assms] k by (simp add: distrib_right)
  ultimately show ?thesis unfolding k by (simp add: cursor_after_def next_cursor_def)
qed

text \<open>What publishing a scanned range does to the counters.\<close>

lemma nth_publish:
  assumes "0 \<le> lo" and "lo \<le> hi" and "nat hi \<le> length cs" and "hi - lo \<le> int (length dst)"
    and "i < length cs"
  shows "(take (nat lo) cs @ take (nat (hi - lo)) dst @ drop (nat hi) cs) ! i =
    (if lo \<le> int i \<and> int i < hi then dst ! (i - nat lo) else cs ! i)"
proof -
  consider "int i < lo" | "lo \<le> int i" "int i < hi" | "hi \<le> int i" by linarith
  then show ?thesis
  proof cases
    case 1
    then have "i < nat lo" by linarith
    then show ?thesis using 1 assms by (simp add: nth_append)
  next
    case 2
    then have "nat lo \<le> i" "i - nat lo < nat (hi - lo)" by linarith+
    then show ?thesis using 2 assms by (auto simp: nth_append min_def)
  next
    case 3
    then have "nat lo \<le> i" "nat (hi - lo) \<le> i - nat lo" "nat hi \<le> i"
      "nat hi + (i - (nat lo + nat (hi - lo))) = i" using assms(1,2) by linarith+
    moreover have "length (take (nat (hi - lo)) dst) = nat (hi - lo)"
      "length (take (nat lo) cs) = nat lo" using assms(1-4) by simp_all
    ultimately show ?thesis using 3 assms by (simp add: nth_append del: length_take)
  qed
qed

definition file_covers :: "u8 list \<Rightarrow> block_map \<Rightarrow> nat \<Rightarrow> bool" where
  "file_covers content bm pages \<longleftrightarrow>
     (\<forall>blk < nblocks bm. inRAM bm (block_start bm pages blk) \<longrightarrow>
        block_start bm pages blk * 8 < length content)"

lemma scanRange_publishes:
  fixes lo hi :: int
  assumes "session_ok n M" and "0 < ppb M" and "ppb M * 8 \<le> readBuf"
    and "file_covers content (m (frm M)) (ppb M)" and "0 \<le> lo" and "i < n"
  defines "M' \<equiv> scanRange (bytes_read_at content) lo hi M"
  shows "if lo \<le> int i \<and> int i < hi
    then block_ok content (m (frm M)) (ppb M) i (counts (m (frm M')) ! i)
    else counts (m (frm M')) ! i = counts (m (frm M)) ! i"
proof -
  let ?n = "nblocks (m (frm M))"
  have n: "?n = n" "length (counts (m (frm M))) = n"
    using assms(1) by (simp_all add: session_ok_def frame_ok_def rest_ok_def)
  let ?hi = "if hi > int ?n then int ?n else hi"
  show ?thesis
  proof (cases "?hi \<le> lo")
    case True
    then show ?thesis using assms(6) n by (auto simp: M'_def scanRange_def Let_def split: if_splits)
  next
    case False
    let ?scr = "if int (length (scratch M)) < ?hi - lo then replicate (nat (?hi - lo)) zero_counts
      else scratch M"
    let ?r = "refreshInto (bytes_read_at content) (m (frm M)) lo ?hi (ppb M) ?scr readBuf"
    have len: "?hi - lo \<le> int (length ?scr)" by auto
    have total: "snd (snd ?r) = None \<and> block_ok content (m (frm M)) (ppb M) j (fst ?r ! (j - nat lo))"
      if "nat lo \<le> j" "j < nat ?hi" for j
    proof -
      have "snd (snd (refreshInto (bytes_read_at content) (m (frm M)) (int (nat lo)) (int (nat ?hi))
          (ppb M) ?scr readBuf)) = None \<and>
        block_ok content (m (frm M)) (ppb M) j (fst (refreshInto (bytes_read_at content) (m (frm M))
          (int (nat lo)) (int (nat ?hi)) (ppb M) ?scr readBuf) ! (j - nat lo))"
        using assms(2,3,4) that len False
        by (intro bytes.refreshInto_total) (auto simp: file_covers_def)
      then show ?thesis using assms(5) False by simp
    qed
    have "nat lo < nat ?hi" using False assms(5) by linarith
    then have none: "snd (snd ?r) = None" using total [of "nat lo"] by simp
    have counts: "counts (m (frm M')) =
        take (nat lo) (counts (m (frm M))) @ take (nat (?hi - lo)) (fst ?r) @
        drop (nat ?hi) (counts (m (frm M)))"
      using False none by (simp add: M'_def scanRange_def Let_def case_prod_beta publish_def)
    have "counts (m (frm M')) ! i = (if lo \<le> int i \<and> int i < ?hi then fst ?r ! (i - nat lo)
        else counts (m (frm M)) ! i)"
      unfolding counts using assms(5,6) n False len
      by (intro nth_publish) (auto simp: length_refreshInto)
    moreover have "int i < ?hi \<longleftrightarrow> int i < hi" using assms(6) n by auto
    moreover have "nat lo \<le> i" "i < nat ?hi" if "lo \<le> int i" "int i < hi"
      using that assms(6) n by auto
    ultimately show ?thesis using total [of i] by auto
  qed
qed

lemma scanRange_map:
  "nblocks (m (frm (scanRange rd lo hi M))) = nblocks (m (frm M))"
  "firstPFN (m (frm (scanRange rd lo hi M))) = firstPFN (m (frm M))"
  "ranges (m (frm (scanRange rd lo hi M))) = ranges (m (frm M))"
  "ppb (scanRange rd lo hi M) = ppb M"
  by (simp_all add: scanRange_def Let_def case_prod_beta publish_def)

lemma block_ok_cong:
  "firstPFN bm = firstPFN bm' \<Longrightarrow> ranges bm = ranges bm' \<Longrightarrow>
   block_ok content bm pages i c = block_ok content bm' pages i c"
  by (simp add: block_ok_def block_pages_def block_start_def inRAM_def)

text \<open>A number of slices in a row.\<close>

definition scan_slices :: "reader \<Rightarrow> int \<Rightarrow> nat \<Rightarrow> model \<Rightarrow> model" where
  "scan_slices rd chunk k = (scan_end rd (Slice chunk)) ^^ k"

lemma scan_end_slice:
  "frm (scan_end rd (Slice chunk) M) = frm (scanRange rd (cursor M) (cursor M + chunk) M)"
  "cursor (scan_end rd (Slice chunk) M) = next_cursor (int (nblocks (m (frm M)))) chunk (cursor M)"
  "ppb (scan_end rd (Slice chunk) M) = ppb M"
  by (simp_all add: scan_end_def Let_def scanRange_map)

lemma scan_slices_map:
  "nblocks (m (frm (scan_slices rd chunk k M))) = nblocks (m (frm M)) \<and>
   firstPFN (m (frm (scan_slices rd chunk k M))) = firstPFN (m (frm M)) \<and>
   ranges (m (frm (scan_slices rd chunk k M))) = ranges (m (frm M)) \<and>
   ppb (scan_slices rd chunk k M) = ppb M"
  by (induction k) (simp_all add: scan_slices_def scan_end_slice scanRange_map)

lemma scan_slices_cursor:
  "cursor M = 0 \<Longrightarrow>
   cursor (scan_slices rd chunk k M) = cursor_after (int (nblocks (m (frm M)))) chunk k"
proof (induction k)
  case 0
  then show ?case by (simp add: scan_slices_def cursor_after_def)
next
  case (Suc k)
  then show ?case
    using scan_slices_map [of rd chunk k M]
    by (simp add: scan_slices_def cursor_after_def scan_end_slice)
qed

lemma scan_slices_ok: "session_ok n M \<Longrightarrow> 1 \<le> chunk \<Longrightarrow> session_ok n (scan_slices rd chunk k M)"
  by (induction k) (auto simp: scan_slices_def intro: scan_end_ok)

lemma file_covers_cong:
  "nblocks bm = nblocks bm' \<Longrightarrow> firstPFN bm = firstPFN bm' \<Longrightarrow> ranges bm = ranges bm' \<Longrightarrow>
   file_covers content bm pages = file_covers content bm' pages"
  by (simp add: file_covers_def block_start_def inRAM_def)

lemma scan_slices_blocks:
  assumes "session_ok n M" and "1 \<le> chunk" and "0 < ppb M" and "ppb M * 8 \<le> readBuf"
    and "file_covers content (m (frm M)) (ppb M)" and "cursor M = 0"
  shows "k \<le> sweep_slices (int n) chunk \<Longrightarrow> i < n \<Longrightarrow> int i < int k * chunk \<Longrightarrow>
    block_ok content (m (frm M)) (ppb M) i
      (counts (m (frm (scan_slices (bytes_read_at content) chunk k M))) ! i)"
proof (induction k)
  case 0
  then show ?case by simp
next
  case (Suc k)
  let ?rd = "bytes_read_at content"
  let ?M = "scan_slices ?rd chunk k M"
  have n: "nblocks (m (frm M)) = n" "1 \<le> int n" using session_okD(6,7) [OF assms(1)] by auto
  have same: "nblocks (m (frm ?M)) = nblocks (m (frm M))" "firstPFN (m (frm ?M)) = firstPFN (m (frm M))"
    "ranges (m (frm ?M)) = ranges (m (frm M))" "ppb ?M = ppb M"
    using scan_slices_map [of ?rd chunk k M] by simp_all
  have cur: "cursor ?M = int k * chunk"
    using scan_slices_cursor [OF assms(6)] cursor_after_eq [OF assms(2) n(2)] Suc.prems(1) n(1)
    by simp
  have step: "counts (m (frm (scan_slices ?rd chunk (Suc k) M))) =
      counts (m (frm (scanRange ?rd (cursor ?M) (cursor ?M + chunk) ?M)))"
    by (simp add: scan_slices_def scan_end_slice)
  have ok: "block_ok content (m (frm ?M)) (ppb ?M) j = block_ok content (m (frm M)) (ppb M) j" for j
    using same block_ok_cong [of "m (frm ?M)" "m (frm M)"] by (intro ext) simp
  have "file_covers content (m (frm ?M)) (ppb ?M)"
    using assms(5) file_covers_cong [OF same(1-3)] same(4) by simp
  then have pub: "if cursor ?M \<le> int i \<and> int i < cursor ?M + chunk
      then block_ok content (m (frm ?M)) (ppb ?M) i
        (counts (m (frm (scan_slices ?rd chunk (Suc k) M))) ! i)
      else counts (m (frm (scan_slices ?rd chunk (Suc k) M))) ! i = counts (m (frm ?M)) ! i"
    unfolding step using assms(3,4) same(4) Suc.prems(2) cur assms(2)
    by (intro scanRange_publishes [OF scan_slices_ok [OF assms(1,2)]]) auto
  have "int i < int k * chunk + chunk" using Suc.prems(3) by (simp add: distrib_right)
  then consider "int i < int k * chunk" | "cursor ?M \<le> int i" "int i < cursor ?M + chunk"
    using cur by linarith
  then show ?case
  proof cases
    case 1
    then show ?thesis using pub cur Suc by auto
  next
    case 2
    then show ?thesis using pub ok by simp
  qed
qed

section \<open>Properties\<close>


definition sample_ranges :: "ram_range list" where
  "sample_ranges = ranges sample_map"

lemma sample_newBlockMap: "newBlockMap 2 (Inr sample_ranges) = Inr sample_map"
  by (simp add: sample_ranges_def sample_map_def newBlockMap_def Let_def sub_u64_def replicate_small)


text \<open>
  C9. A sweep covers the map: with a flag file that does not change, the slices scanned from
  the first block on leave every block with the counters of its pages, or with none where it
  starts outside memory, and bring the scan back to the first block.
\<close>

theorem sweep_refreshes_map:
  assumes "session_ok n M" and "cursor M = 0" and "1 \<le> chunk" and "0 < ppb M"
    and "ppb M * 8 \<le> readBuf" and "file_covers content (m (frm M)) (ppb M)" and "i < n"
  defines "M' \<equiv> scan_slices (bytes_read_at content) chunk (sweep_slices (int n) chunk) M"
  shows "block_ok content (m (frm M)) (ppb M) i (counts (m (frm M')) ! i) \<and> cursor M' = 0"
proof
  have n: "nblocks (m (frm M)) = n" "1 \<le> int n" using session_okD(6,7) [OF assms(1)] by auto
  have "int i < int (sweep_slices (int n) chunk) * chunk"
    using sweep_slices_bounds [OF assms(3) n(2)] assms(7) by linarith
  then show "block_ok content (m (frm M)) (ppb M) i (counts (m (frm M')) ! i)"
    unfolding M'_def using assms by (intro scan_slices_blocks) auto
  show "cursor M' = 0"
    using cursor_after_sweep [OF assms(3) n(2)] scan_slices_cursor [OF assms(2)] n(1)
    by (simp add: M'_def)
qed

lemma sweep_refreshes_map_witness:
  "cursor (scan_slices (bytes_read_at sample_file) 1 3
     (start_model (start_frame sample_map 2 8 False 0 True))) = 0"
proof -
  let ?M = "start_model (start_frame sample_map 2 8 False 0 True)"
  have ok: "session_ok 3 ?M"
    using start_ok [OF sample_newBlockMap, of 8 0 False True] by (simp add: sample_map_def)
  have "file_covers sample_file (m (frm ?M)) (ppb ?M)"
    by (auto simp: file_covers_def start_model_def start_frame_def sample_map_def block_start_def)
  then show ?thesis
    using sweep_refreshes_map [OF ok, of 1 sample_file 0]
    by (simp add: start_model_def start_frame_def readBuf_def sweep_slices_def)
qed

text \<open>
  With a share no larger than the map, a sweep takes at least that many slices and fewer
  than twice as many.
\<close>

theorem sweep_length:
  assumes "1 \<le> shr" and "shr \<le> tot"
  shows "shr \<le> int (sweep_slices tot (chunk_of tot shr)) \<and>
    int (sweep_slices tot (chunk_of tot shr)) < 2 * shr"
proof -
  define c where "c = tot div shr"
  have c: "1 \<le> c" unfolding c_def using assms by (simp add: pos_imp_zdiv_pos_iff int_one_le_iff_zero_less)
  then have chunk: "chunk_of tot shr = c" using assms by (simp add: chunk_of_def sdiv_nonneg c_def)
  have "c * shr \<le> tot" and hi: "tot \<le> c * shr + (shr - 1)"
    unfolding c_def using pos_mod_sign [of shr tot] pos_mod_bound [of shr tot] div_mult_mod_eq [of tot shr] assms
    by linarith+
  have b: "tot \<le> int (sweep_slices tot c) * c"
    using sweep_slices_bounds [OF c, of tot] assms by simp
  have "shr * c \<le> int (sweep_slices tot c) * c"
    using b \<open>c * shr \<le> tot\<close> by (simp add: mult.commute)
  then have lo: "shr \<le> int (sweep_slices tot c)"
    using c by (simp only: mult_le_cancel_right)
  have "1 * (shr - 1) \<le> c * (shr - 1)" using c assms by (intro mult_right_mono) auto
  then have "tot \<le> (2 * shr - 1) * c" using hi by (simp add: algebra_simps)
  then have "(tot + c - 1) div c \<le> 2 * shr - 1" using c by (intro ceil_div_le) auto
  then have "int (sweep_slices tot c) \<le> 2 * shr - 1"
    using assms by (simp add: sweep_slices_def)
  with lo show ?thesis by (simp add: chunk)
qed

lemma sweep_length_witness: "8 \<le> int (sweep_slices 1000 (chunk_of 1000 8))"
  using sweep_length [of 8 1000] by simp

text \<open>
  The share is described as the number of frames it takes to refresh the whole map. It
  can take nearly twice as many: fifteen for fifteen blocks at a share of eight.
\<close>

theorem sweep_longer_than_share: "sweep_slices 15 (chunk_of 15 8) = 15"
  by (simp add: sweep_slices_def chunk_of_def sdiv_nonneg)

text \<open>
  A share of zero, which the command line accepts, stops the program with a division by
  zero at the second scan, once the opening sweep is through.
\<close>

theorem zero_share_stops:
  "\<exists>M. reachable mv kitty (start_model (start_frame bm pages 0 slab order px)) M \<and>
     ready M \<and> scan_begin M = Inl DivideByZero"
proof -
  let ?M = "start_model (start_frame bm pages 0 slab order px)"
  let ?M1 = "?M\<lparr>wantFull := False, inflight := Some FullSweep\<rparr>"
  let ?M2 = "scan_end (bytes_read_at []) FullSweep ?M1"
  have "session_step mv kitty ?M ?M1"
    by (rule session_step.scan_starts) (simp_all add: start_model_def scan_begin_def Let_def)
  moreover have "session_step mv kitty ?M1 ?M2" by (rule session_step.scan_ends) (simp add: start_model_def)
  ultimately have "reachable mv kitty ?M ?M2"
    unfolding reachable_def by (metis converse_rtranclp_into_rtranclp r_into_rtranclp)
  moreover have "ready ?M2 \<and> scan_begin ?M2 = Inl DivideByZero"
    by (simp add: scan_end_def scan_begin_def Let_def scanRange_def case_prod_beta publish_def
        start_model_def start_frame_def)
  ultimately show ?thesis by blast
qed

end
