(* ===== verification/Screen.thy ===== *)
theory Screen
  imports Panes Events
begin

text \<open>
  A whole frame as lines of text: the map with its labels, the footer, and how \<^verbatim>\<open>render\<close> of
  \<^verbatim>\<open>packages/fragview/render.go\<close> divides the terminal between the map and the panes.
\<close>

section \<open>The map as text\<close>

definition scope_line :: "'a ui_frame_scheme \<Rightarrow> line" where
  "scope_line f =
     (let bb = block_size_bytes f; all_text = humanBytes (of_nat (nblocks (m f)) * bb)
      in if viewTo f - viewFrom f < int (nblocks (m f))
         then [(Plain, '' '' @ mid_dot @ '' ''), (Bold, ''window''),
               (Plain, '' '' @ humanBytes (of_int (viewFrom f) * bb) @ en_dash @ humanBytes (of_int (viewTo f) * bb) @
                 '' of '' @ all_text)]
         else faint ('' '' @ mid_dot @ '' showing all '' @ all_text))"

text \<open>The address in front of a row of the map.\<close>

definition row_label :: "u64 \<Rightarrow> line" where
  "row_label addr = faint (pad_left 4 (fixed 1 (fl (fl (of_nat (unat addr)) / 1073741824))) @ ''G '')"

definition fillGlyph :: "string list" where
  "fillGlyph = map utf8 [0xB7, 0x2581, 0x2582, 0x2583, 0x2584, 0x2585, 0x2586, 0x2587, 0x2588]"

definition cell_piece :: "(cell_colour \<times> int) option \<Rightarrow> style \<times> string" where
  "cell_piece c =
     (case c of None \<Rightarrow> (Plain, '' '') | Some (col, g) \<Rightarrow> (CellColour col, fillGlyph ! nat g))"

definition block_map_lines :: "int \<Rightarrow> int \<Rightarrow> 'a ui_frame_scheme \<Rightarrow> line list" where
  "block_map_lines w rows f =
     (let cols = map_cols w; per = per_cell (viewTo f - viewFrom f) cols rows; bb = block_size_bytes f;
          mode = (if byClass f then ''owner'' else ''movable or pinned'');
          header = faint ('' map '' @ mid_dot @ '' cell = '' @ show_int per @ '' block(s) = '' @
                     humanBytes (of_int per * bb) @ '' '' @ mid_dot @ '' height = used '' @ mid_dot @
                     '' colour = '' @ mode) @ scope_line f @ faint ('' '' @ mid_dot @ '' '') @
                   [(HostageText, ''red = hostage'')];
          label = (\<lambda>r. row_label (of_int (viewFrom f + int r * cols * per) * bb))
      in header # map (\<lambda>(r, cs). label r @ map cell_piece cs) (enumerate 0 (fst (blockMap w rows f))))"

definition pixelHeader :: "'a ui_frame_scheme \<Rightarrow> pix_layout \<Rightarrow> line" where
  "pixelHeader f l =
     (let (unit_text, mark) =
        (if blockPx l > 0
         then (show_int (blockPx l) @ times_sign @ show_int (rowSpan l * cellH l) @ '' px'', ''red outline = hostage'')
         else (show_int (perCol l) @ '' block(s) per column'', ''red line = hostage density''))
      in faint ('' map '' @ mid_dot @ '' pixels '' @ mid_dot @ '' block = '' @ unit_text @ '' '' @ mid_dot @ '' '' @
           show_int (blocksPerRow l) @ '' per row '' @ mid_dot @ '' stacked by owner, free on top'') @
         scope_line f @ faint ('' '' @ mid_dot @ '' '') @ [(HostageText, mark)])"

text \<open>
  The rows that carry the picture. A label is printed once for every row of blocks, so a layout
  without rows would be a division by zero.
\<close>

definition pixel_map_lines :: "int \<Rightarrow> int \<Rightarrow> 'a ui_frame_scheme \<Rightarrow> line list go_result" where
  "pixel_map_lines w rows f =
     (let l = layout f; cols = map_cols w; bb = block_size_bytes f;
          label = (\<lambda>r. if int r smod rowSpan l = 0
                       then row_label (of_int (lviewFrom l + int r sdiv rowSpan l * blocksPerRow l) * bb)
                       else plain (replicate (nat mapLabel) (CHR '' '')))
      in if rowSpan l = 0 \<and> 0 < rows then Inl DivideByZero
         else Inr (pixelHeader f l #
                map (\<lambda>r. label r @ plain (placeholderRow (int r) cols)) [0 ..< nat rows]))"

section \<open>The footer\<close>

definition arrows :: string where "arrows = utf8 0x2191 @ utf8 0x2193"

definition footerLine :: "pane_input \<Rightarrow> 'a ui_frame_scheme \<Rightarrow> line" where
  "footerLine e f =
     (let d = '' '' @ mid_dot @ '' '';
          nav = (if viewTo f - viewFrom f \<ge> int (nblocks (m f))
                 then arrows @ '' scroll (zoom in first)'' @ d @ ''g whole map''
                 else arrows @ '' scroll'' @ d @ ''PgUp/PgDn page'' @ d @ ''g whole map'');
          mode = (if pixels f then ''p character map'' @ d @ ''hover for detail'' else ''m colour'' @ d @ ''p pixels'')
      in if focusSlab f
         then faint ('' q quit'' @ d @ ''Tab back to map'' @ d @ ''o sort order'' @ d @ arrows @ '' scroll'' @ d @
                ''PgUp/PgDn page'' @ d @ ''space pause'')
         else if rf_snapshot (reporting e) \<noteq> []
         then faint ('' q quit'' @ d @ ''Tab slab table'' @ d @ mode @ d @ ''z/Z or ctrl+wheel zoom'' @ d @ nav)
         else faint ('' q quit'' @ d @ ''Tab slab table'' @ d @ ''space pause'' @ d @ ''c compact'' @ d @ mode @ d @
                ''z/Z or ctrl+wheel zoom'' @ d @ nav @ d @ ''+/- refresh rate''))"

section \<open>The frame\<close>

definition frame_width :: "int \<Rightarrow> nat" where
  "frame_width cols = nat (if cols - 1 < 60 then 60 else cols - 1)"

definition top_lines :: "pane_input \<Rightarrow> nat \<Rightarrow> 'a ui_frame_scheme \<Rightarrow> line list" where
  "top_lines e w f =
     [titleLine w e f, rule w] @ compositionLines w (zfsNames (pkg e)) (m f) @
     [rule w, verdictLine e f, rule w] @ ladderLines (rf_ladder (reporting e)) @ [rule w]"

text \<open>The rows of the tables and of the map.\<close>

definition split_rows :: "bool \<Rightarrow> int \<Rightarrow> int \<Rightarrow> int \<Rightarrow> int \<Rightarrow> int \<times> int" where
  "split_rows px width w avail leftLen =
     (let tableRows = min (max (avail sdiv 2) 3) (max leftLen 18);
          mapRows = max (avail - tableRows) 1;
          cols = map_cols w;
          per = per_cell width cols mapRows;
          needed = (width + cols * per - 1) sdiv (cols * per)
      in if needed < mapRows \<and> \<not> px then (tableRows + (mapRows - needed), needed) else (tableRows, mapRows))"

definition frame_lines ::
  "pane_input \<Rightarrow> bool \<Rightarrow> int \<Rightarrow> int \<Rightarrow> int \<Rightarrow> int \<Rightarrow> 'a ui_frame_scheme \<Rightarrow> (line list \<times> 'a ui_frame_scheme) go_result" where
  "frame_lines e due cw ch rows cols f =
     (let f1 = frame_summarise (abdMovable (pkg e)) f; w = frame_width cols; tops = top_lines e w f1;
          avail = rows - int (length tops) - 3
      in if focusSlab f1
         then and_then (slabFullPane (avail + 2) w e f1) (\<lambda>(ls, f2). Inr (tops @ ls @ [footerLine e f2], f2))
         else
           (let f2 = resolveHover f1
            in and_then (leftPane e f2) (\<lambda>left.
               let (tableRows, mapRows) = split_rows (pixels f2) (viewTo f2 - viewFrom f2) (int w) avail (int (length left))
               in and_then (slabPane (tableRows - 1) e f2) (\<lambda>right.
                  and_then (slabs_of e f2) (\<lambda>cs.
                  let bottom = take (nat (tableRows + 1)) (rule w # joinPanes left right 40);
                      f3 = f2\<lparr>slabTotal := int (length cs), mapTop := int (length tops) + 1\<rparr>
                  in if pixels f3
                     then (let f4 = pixelBlockMap due (int w) mapRows cw ch f3
                           in and_then (pixel_map_lines (int w) mapRows f4) (\<lambda>ml.
                              Inr (tops @ ml @ bottom @ [footerLine e f4], f4)))
                     else (let f4 = snd (blockMap (int w) mapRows f3)
                           in Inr (tops @ block_map_lines (int w) mapRows f3 @ bottom @ [footerLine e f4], f4)))))))"

section \<open>A frame fits the terminal\<close>

lemma length_top_lines: "length (top_lines e w f) = 11"
  by (simp add: top_lines_def compositionLines_def ladderLines_def Let_def)

lemma length_block_map_lines: "length (block_map_lines w rows f) = Suc (nat rows)"
  by (simp add: block_map_lines_def Let_def blockMap_def length_map_cells)

lemma length_pixel_map_lines: "pixel_map_lines w rows f = Inr ls \<Longrightarrow> length ls = Suc (nat rows)"
  by (auto simp: pixel_map_lines_def Let_def split: if_splits)

lemma length_slab_full_lines:
  "length (slab_full_lines w e cs order f) \<le> 2 + nat (slabRows f) + nat (legend_reserve e)"
proof -
  let ?al = "aliasLines (cacheAliases (pkg e)) (map sname (shown_slabs f cs)) w (nat aliasRows)"
  have "length ?al \<le> 3" using aliasLines_fits [of "cacheAliases (pkg e)"] by (simp add: aliasRows_def)
  moreover have "length (shown_slabs f cs) \<le> nat (slabRows f)" by (simp add: shown_slabs_def)
  ultimately show ?thesis
    by (auto simp: slab_full_lines_def Let_def legend_reserve_def aliasRows_def)
qed

lemma length_slabFullPane:
  assumes "slabFullPane rows w e f = Inr (ls, f')" and "7 \<le> rows"
  shows "int (length ls) \<le> rows"
proof -
  obtain cs order where ls: "ls = slab_full_lines w e cs order f'"
    and f': "f' = slab_window rows (int (length cs)) (legend_reserve e) f"
    using assms(1) by (auto simp: slabFullPane_def Let_def and_then_Inr_iff)
  have "slabRows f' = max (rows - 2 - legend_reserve e) 1" by (simp add: f' slab_window_def Let_def)
  moreover have "0 \<le> legend_reserve e" "legend_reserve e \<le> 4" by (simp_all add: legend_reserve_def aliasRows_def)
  ultimately show ?thesis using length_slab_full_lines [of w e cs order f'] assms(2) unfolding ls by linarith
qed

lemma split_rows_sum:
  assumes "split_rows px width w avail leftLen = (t, r)" and "4 \<le> avail" and "0 \<le> width"
  shows "t + r = avail" and "0 \<le> r" and "0 \<le> t"
proof -
  define t0 where "t0 = min (max (avail sdiv 2) 3) (max leftLen 18)"
  have "avail sdiv 2 = avail div 2" using assms(2) by (simp add: sdiv_nonneg)
  then have t0: "3 \<le> t0" "t0 < avail" using assms(2) by (auto simp: t0_def min_def max_def)
  define r0 where "r0 = max (avail - t0) 1"
  have r0: "r0 = avail - t0" "1 \<le> r0" using t0 by (simp_all add: r0_def)
  define k where "k = map_cols w * per_cell width (map_cols w) r0"
  have "1 \<le> map_cols w" "1 \<le> per_cell width (map_cols w) r0" by (simp_all add: map_cols_def per_cell_def)
  then have "1 \<le> k" unfolding k_def using mult_mono [of 1 "map_cols w" 1 "per_cell width (map_cols w) r0"] by simp
  then have "0 \<le> (width + k - 1) sdiv k" using assms(3) by (simp add: sdiv_nonneg pos_imp_zdiv_nonneg_iff)
  moreover have "(t, r) = (if (width + k - 1) sdiv k < r0 \<and> \<not> px
      then (t0 + (r0 - (width + k - 1) sdiv k), (width + k - 1) sdiv k) else (t0, r0))"
    by (subst assms(1) [symmetric]) (simp only: split_rows_def Let_def t0_def r0_def k_def)
  ultimately show "t + r = avail" "0 \<le> r" "0 \<le> t" using r0 t0 by (auto split: if_splits)
qed

lemma split_rows_map: "snd (split_rows px width w avail leftLen) = map_height px width w avail leftLen"
  by (simp add: split_rows_def map_height_def Let_def)

lemma summarise_window:
  assumes "window_ok f"
  shows "viewFrom (frame_summarise mv f) \<le> viewTo (frame_summarise mv f)"
  using assms by (auto simp: window_ok_def frame_summarise_def Let_def split: prod.split)

lemma resolveHover_window [simp]:
  "viewFrom (resolveHover f) = viewFrom f" "viewTo (resolveHover f) = viewTo f"
  "layout (resolveHover f) = layout f" "pxKey (resolveHover f) = pxKey f"
  "slabSort (resolveHover f) = slabSort f"
  by (auto simp: resolveHover_def split: prod.split)

text \<open>What a finished frame was put together from, in the slab table and around the map.\<close>

lemma frame_lines_slab:
  assumes "frame_lines e due cw ch rows cols f = Inr (ls, f')"
    and "focusSlab (frame_summarise (abdMovable (pkg e)) f)"
  obtains sl where
    "slabFullPane (rows - 12) (frame_width cols) e (frame_summarise (abdMovable (pkg e)) f) = Inr (sl, f')"
    "ls = top_lines e (frame_width cols) (frame_summarise (abdMovable (pkg e)) f) @ sl @ [footerLine e f']"
  using assms unfolding frame_lines_def Let_def length_top_lines by (auto simp: and_then_Inr_iff)

lemma frame_lines_map:
  fixes f and e :: pane_input and cols :: int
  defines "f1 \<equiv> frame_summarise (abdMovable (pkg e)) f"
  defines "f2 \<equiv> resolveHover f1" and "w \<equiv> frame_width cols"
  assumes "frame_lines e due cw ch rows cols f = Inr (ls, f')" and "\<not> focusSlab f1"
  shows "\<exists>left right cs ml t r. leftPane e f2 = Inr left \<and> slabs_of e f2 = Inr (cs :: slab_cache list) \<and>
    split_rows (pixels f2) (viewTo f2 - viewFrom f2) (int w) (rows - 14) (int (length left)) = (t, r) \<and>
    ls = top_lines e w f1 @ ml @ take (nat (t + 1)) (rule w # joinPanes left right 40) @ [footerLine e f'] \<and>
    length ml = Suc (nat r) \<and>
    f' = (let f3 = f2\<lparr>slabTotal := int (length cs), mapTop := 12\<rparr>
          in if pixels f3 then pixelBlockMap due (int w) r cw ch f3 else snd (blockMap (int w) r f3))"
proof -
  note run = assms(4) [unfolded frame_lines_def Let_def length_top_lines, folded f1_def w_def, folded f2_def]
  obtain left where left: "leftPane e f2 = Inr left" using run assms(5) by (auto simp: and_then_Inr_iff)
  obtain t r where tr: "split_rows (pixels f2) (viewTo f2 - viewFrom f2) (int w) (rows - 14) (int (length left)) = (t, r)"
    by fastforce
  have "and_then (slabPane (t - 1) e f2) (\<lambda>right. and_then (slabs_of e f2) (\<lambda>cs.
      if pixels f2
      then and_then (pixel_map_lines (int w) r
             (pixelBlockMap due (int w) r cw ch (f2\<lparr>slabTotal := int (length cs), mapTop := 12\<rparr>)))
           (\<lambda>ml. Inr (top_lines e w f1 @ ml @ take (nat (t + 1)) (rule w # joinPanes left right 40) @
              [footerLine e (pixelBlockMap due (int w) r cw ch (f2\<lparr>slabTotal := int (length cs), mapTop := 12\<rparr>))],
              pixelBlockMap due (int w) r cw ch (f2\<lparr>slabTotal := int (length cs), mapTop := 12\<rparr>)))
      else Inr (top_lines e w f1 @ block_map_lines (int w) r (f2\<lparr>slabTotal := int (length cs), mapTop := 12\<rparr>) @
             take (nat (t + 1)) (rule w # joinPanes left right 40) @
             [footerLine e (snd (blockMap (int w) r (f2\<lparr>slabTotal := int (length cs), mapTop := 12\<rparr>)))],
             snd (blockMap (int w) r (f2\<lparr>slabTotal := int (length cs), mapTop := 12\<rparr>))))) = Inr (ls, f')"
    using run assms(5) left tr by (simp cong del: if_weak_cong)
  then obtain right cs where "slabs_of e f2 = Inr (cs :: slab_cache list)" and
    "if pixels f2
      then (\<exists>ml. pixel_map_lines (int w) r f' = Inr ml \<and>
        f' = pixelBlockMap due (int w) r cw ch (f2\<lparr>slabTotal := int (length cs), mapTop := 12\<rparr>) \<and>
        ls = top_lines e w f1 @ ml @ take (nat (t + 1)) (rule w # joinPanes left right 40) @ [footerLine e f'])
      else f' = snd (blockMap (int w) r (f2\<lparr>slabTotal := int (length cs), mapTop := 12\<rparr>)) \<and>
        ls = top_lines e w f1 @ block_map_lines (int w) r (f2\<lparr>slabTotal := int (length cs), mapTop := 12\<rparr>) @
          take (nat (t + 1)) (rule w # joinPanes left right 40) @ [footerLine e f']"
    unfolding and_then_Inr_iff by (auto simp: and_then_Inr_iff split: if_splits)
  then show ?thesis
    using left tr length_block_map_lines length_pixel_map_lines
    by (cases "pixels f2") (simp_all add: Let_def, blast+)
qed

text \<open>
  A frame never runs off the terminal: on a terminal of at least nineteen lines, whatever is
  loaded, hovered or scrolled to, in the slab table, the character map and the pixel map, the
  frame has no more lines than the terminal.
\<close>

lemma frame_fits_terminal:
  assumes "frame_lines e due cw ch rows cols f = Inr (ls, f')" and "19 \<le> rows" and "window_ok f"
  shows "int (length ls) \<le> rows"
proof (cases "focusSlab (frame_summarise (abdMovable (pkg e)) f)")
  case True
  from frame_lines_slab [OF assms(1) this] obtain sl where
    sl: "slabFullPane (rows - 12) (frame_width cols) e (frame_summarise (abdMovable (pkg e)) f) = Inr (sl, f')"
    "ls = top_lines e (frame_width cols) (frame_summarise (abdMovable (pkg e)) f) @ sl @ [footerLine e f']" .
  have "int (length sl) \<le> rows - 12" using assms(2) by (intro length_slabFullPane [OF sl(1)]) simp
  then show ?thesis unfolding sl(2) by (simp add: length_top_lines)
next
  case False
  let ?f1 = "frame_summarise (abdMovable (pkg e)) f" and ?w = "frame_width cols"
  obtain left right :: "line list" and ml t r where
    tr: "split_rows (pixels (resolveHover ?f1)) (viewTo (resolveHover ?f1) - viewFrom (resolveHover ?f1)) (int ?w)
      (rows - 14) (int (length left)) = (t, r)"
    and ls: "ls = top_lines e ?w ?f1 @ ml @ take (nat (t + 1)) (rule ?w # joinPanes left right 40) @ [footerLine e f']"
    and ml: "length ml = Suc (nat r)"
    using frame_lines_map [OF assms(1) False] by blast
  have sum: "t + r = rows - 14" "0 \<le> r" "0 \<le> t"
    using split_rows_sum [OF tr] assms(2) summarise_window [OF assms(3)] by simp_all
  have "length (take (nat (t + 1)) (rule ?w # joinPanes left right 40)) \<le> nat (t + 1)" by simp
  then show ?thesis using sum ml unfolding ls by (simp add: length_top_lines del: length_take)
qed

text \<open>
  The lines and the state go together: the frame that \<^verbatim>\<open>render\<close> leaves behind while it builds the
  lines is the one of the model the window and event theories work with, for the height of the
  left pane and the number of caches that were printed.
\<close>

lemma frame_lines_render:
  assumes "frame_lines e due cw ch rows cols f = Inr (ls, f')"
  shows "\<exists>leftLen n. f' = render (abdMovable (pkg e)) due cw ch leftLen n (legend_reserve e) rows cols f"
proof (cases "focusSlab (frame_summarise (abdMovable (pkg e)) f)")
  case True
  from frame_lines_slab [OF assms this] obtain sl where
    "slabFullPane (rows - 12) (frame_width cols) e (frame_summarise (abdMovable (pkg e)) f) = Inr (sl, f')" .
  then obtain cs :: "slab_cache list" where
    "f' = slab_window (rows - 12) (int (length cs)) (legend_reserve e) (frame_summarise (abdMovable (pkg e)) f)"
    by (auto simp: slabFullPane_def Let_def and_then_Inr_iff)
  then have "f' = render (abdMovable (pkg e)) due cw ch 0 (int (length cs)) (legend_reserve e) rows cols f"
    using True by (simp add: render_def Let_def)
  then show ?thesis by blast
next
  case False
  let ?f2 = "resolveHover (frame_summarise (abdMovable (pkg e)) f)" and ?w = "frame_width cols"
  have w: "int ?w = (if cols - 1 < 60 then 60 else cols - 1)" by (simp add: frame_width_def)
  obtain left :: "line list" and cs :: "slab_cache list" and t r where
    tr: "split_rows (pixels ?f2) (viewTo ?f2 - viewFrom ?f2) (int ?w) (rows - 14) (int (length left)) = (t, r)"
    and f': "f' = (let f3 = ?f2\<lparr>slabTotal := int (length (cs :: slab_cache list)), mapTop := 12\<rparr>
          in if pixels f3 then pixelBlockMap due (int ?w) r cw ch f3 else snd (blockMap (int ?w) r f3))"
    using frame_lines_map [OF assms False] by blast
  have mh: "map_height (pixels ?f2) (viewTo ?f2 - viewFrom ?f2) (int ?w) (rows - 14) (int (length left)) = r"
    using split_rows_map tr by (metis snd_conv)
  then have "f' = render (abdMovable (pkg e)) due cw ch (int (length left)) (int (length cs)) (legend_reserve e) rows cols f"
    unfolding f' mh [symmetric] using False w by (simp add: render_def Let_def)
  then show ?thesis by blast
qed

section \<open>A frame is always drawn\<close>

text \<open>
  The repaint indexes the table of migrate types by the names in its header, looks up a sort
  order and divides by the height of a row of blocks. The reader keeps the first in range.
\<close>

definition types_ok :: "block_types \<Rightarrow> bool" where
  "types_ok t \<longleftrightarrow> length (tcounts t) = length (names t)"

lemma length_add_types [simp]: "length (add_types i ss cs) = length cs"
  by (induction i ss cs rule: add_types.induct) (auto split: prod.split)

lemma pagetype_line_ok: "types_ok (fst s) \<Longrightarrow> types_ok (fst (pagetype_line s line))"
  by (cases s) (simp add: pagetype_line_def types_ok_def Let_def)

lemma readPagetypeinfo_ok: "types_ok (fst (readPagetypeinfo proc))"
proof -
  have "types_ok (fst (foldl pagetype_line s ls))" if "types_ok (fst s)" for s ls
    using that by (induction ls arbitrary: s) (simp_all add: pagetype_line_ok)
  moreover have "types_ok no_types" by (simp add: types_ok_def no_types_def)
  ultimately show ?thesis
    by (simp add: readPagetypeinfo_def case_prod_beta' Let_def split: option.split)
qed

definition ever_painted :: "bool \<Rightarrow> 'a ui_frame_scheme \<Rightarrow> bool" where
  "ever_painted due f \<longleftrightarrow> layout_ok (layout f) \<or> due \<and> kwidth (pxKey f) = 0"

lemma summarise_fields [simp]:
  "layout (frame_summarise mv f) = layout f" "pxKey (frame_summarise mv f) = pxKey f"
  "focusSlab (frame_summarise mv f) = focusSlab f"
  by (simp_all add: frame_summarise_def Let_def split: prod.split)

lemma leftPane_drawn: "types_ok (rf_types (reporting e)) \<Longrightarrow> \<exists>ls. leftPane e f = Inr ls"
  by (simp add: leftPane_def types_rows_def types_ok_def)

lemma slabs_drawn:
  assumes "frame_ok n f"
  shows "\<exists>cs. slabs_of e f = Inr cs" and "\<exists>s. sortName f = Inr s"
    and "\<exists>ls. slabPane k e f = Inr ls" and "\<exists>ls f'. slabFullPane k w e f = Inr (ls, f')"
proof -
  have "0 \<le> slabSort f" using assms by (simp add: frame_ok_def rest_ok_def)
  then have "0 \<le> slabSort f smod 4" by (simp add: smod_nonneg)
  then show cs: "\<exists>cs. slabs_of e f = Inr cs" and s: "\<exists>s. sortName f = Inr s"
    by (simp_all add: slabs_of_def sortedSlabs_def sortName_def Let_def not_less)
  from cs s show "\<exists>ls. slabPane k e f = Inr ls" and "\<exists>ls f'. slabFullPane k w e f = Inr (ls, f')"
    by (auto simp: slabPane_def slabFullPane_def Let_def)
qed

lemma painted_rows:
  assumes "frame_ok n f" and "0 < n" and "1 \<le> cw" and "1 \<le> ch" and "0 < r" and "ever_painted due f"
  shows "\<exists>ml. pixel_map_lines w r (pixelBlockMap due w r cw ch f) = Inr ml"
proof -
  have cols: "16 \<le> map_cols w" by (rule map_cols_pos)
  have paint: "layout_ok (pixLayoutFor (viewTo f - viewFrom f) (map_cols w * cw) cw ch r)"
    using frame_ok_width [OF assms(1,2)] assms(3-5) cols by (intro pixLayoutFor_ok [THEN conjunct1]) auto
  have "layout_ok (layout (pixelBlockMap due w r cw ch f)) \<or>
      rowSpan (layout (pixelBlockMap due w r cw ch f)) \<noteq> 0"
  proof (cases "layout_ok (layout f) \<and> layout (pixelBlockMap due w r cw ch f) = layout f")
    case False
    then have "pixelBlockMap due w r cw ch f \<noteq> f \<or> due \<and> kwidth (pxKey f) = 0"
      using assms(6) by (auto simp: ever_painted_def)
    moreover have "kwidth (pxKey f) \<noteq> 0" if "\<lparr>kfrom = viewFrom f, kto = viewTo f, kwidth = map_cols w, krows = r,
        kcellW = cw, kcellH = ch, kgen = gen f, khoverFrom = boxFrom f, khoverTo = boxTo f\<rparr> = pxKey f"
      unfolding that [symmetric] using cols by simp
    ultimately have "\<exists>k. pixelBlockMap due w r cw ch f = paintPixels (map_cols w) r cw ch (f\<lparr>pxKey := k\<rparr>)"
      by (auto simp: pixelBlockMap_def Let_def)
    then show ?thesis using layout_okD(6) [OF paint] by (auto simp: paintPixels_def Let_def)
  qed simp
  then have "rowSpan (layout (pixelBlockMap due w r cw ch f)) \<noteq> 0" using layout_okD(6) by fastforce
  then show ?thesis by (simp add: pixel_map_lines_def Let_def)
qed

lemma frame_drawn:
  assumes "frame_ok n f" and "0 < n" and "types_ok (rf_types (reporting e))"
    and "1 \<le> cw" and "1 \<le> ch" and "ever_painted due f"
  shows "\<exists>ls f'. frame_lines e due cw ch rows cols f = Inr (ls, f')"
proof -
  let ?f1 = "frame_summarise (abdMovable (pkg e)) f"
  let ?f2 = "resolveHover ?f1" and ?w = "int (frame_width cols)"
  have f1: "frame_ok n ?f1" by (rule frame_ok_summarise) (fact assms(1))
  then have f2: "frame_ok n ?f2" by (rule frame_ok_hover)
  obtain left where left: "leftPane e ?f2 = Inr left" using leftPane_drawn [OF assms(3)] by blast
  obtain cs where cs: "slabs_of e ?f2 = Inr cs" using slabs_drawn(1) [OF f2] by blast
  let ?f3 = "?f2\<lparr>slabTotal := int (length cs), mapTop := 12\<rparr>"
  have f3: "frame_ok n ?f3" using f2 by (rule frame_ok_cong) simp_all
  obtain t r where tr: "split_rows (pixels ?f2) (viewTo ?f2 - viewFrom ?f2) ?w (rows - 14) (int (length left)) = (t, r)"
    by fastforce
  have "map_height (pixels ?f2) (viewTo ?f2 - viewFrom ?f2) ?w (rows - 14) (int (length left)) = r"
    using tr split_rows_map [of "pixels ?f2" "viewTo ?f2 - viewFrom ?f2" ?w "rows - 14" "int (length left)"]
    by (simp del: resolveHover_window)
  then have r: "0 < r" using map_height_pos [OF frame_ok_width [OF f2 assms(2)]] by (metis zero_less_one_class.zero_le_one int_one_le_iff_zero_less)
  have "ever_painted due ?f3" using assms(6) by (simp add: ever_painted_def)
  from painted_rows [OF f3 assms(2,4,5) r this] obtain ml where
    "pixel_map_lines ?w r (pixelBlockMap due ?w r cw ch ?f3) = Inr ml" by blast
  moreover obtain right where "slabPane (t - 1) e ?f2 = Inr right" using slabs_drawn(3) [OF f2] by blast
  moreover obtain sl f' where "slabFullPane (rows - 12) (frame_width cols) e ?f1 = Inr (sl, f')"
    using slabs_drawn(4) [OF f1] by blast
  ultimately show ?thesis
    using left cs tr unfolding frame_lines_def Let_def length_top_lines by (simp del: resolveHover_window)
qed

definition sample_panes :: pane_input where
  "sample_panes = \<lparr>reporting = sample_report, pkg = sample_vars, unknowns_seen = [], interval_ms = 500,
     sweep_ms = 12\<rparr>"

lemma sample_frame_ok: "frame_ok 1000 whole_ui" "types_ok (rf_types (reporting sample_panes))"
  "ever_painted True whole_ui"
  by (simp_all add: frame_ok_def rest_ok_def window_ok_def whole_ui_def sample_ui_def nSorts_def types_ok_def
    sample_panes_def sample_report_def no_types_def ever_painted_def)



end
