(* ===== verification/Hostage.thy ===== *)
theory Hostage
  imports MapFrame Merge
begin

text \<open>
  The hostage report, \<^verbatim>\<open>packages/fragview/hostage.go\<close>: what the immovable pages inside the
  hostage blocks are, in how many blocks each owner is alone, and how many blocks moving a
  set of owners out of the way would return.
\<close>

section \<open>The first loop over the blocks\<close>

text \<open>
  The variables of the loop. \<^verbatim>\<open>kinds\<close> is a Go map from a number of owners to a number of
  blocks; its keys are only ever read sorted.
\<close>

record hostage_tally =
  tblocks :: nat
  freeIn :: nat
  byClass :: "pclass \<Rightarrow> nat"
  soleClass :: "pclass \<Rightarrow> nat"
  kinds :: "(nat \<times> nat) list"
  mixed :: nat

definition no_tally :: hostage_tally where
  "no_tally = \<lparr>tblocks = 0, freeIn = 0, byClass = \<lambda>_. 0, soleClass = \<lambda>_. 0, kinds = [], mixed = 0\<rparr>"

text \<open>The inner loop over the used classes of one block: \<^verbatim>\<open>byClass\<close>, \<^verbatim>\<open>n\<close> and \<^verbatim>\<open>only\<close>.\<close>

definition owner_step ::
  "bool \<Rightarrow> counts \<Rightarrow> (pclass \<Rightarrow> nat) \<times> nat \<times> pclass \<Rightarrow> pclass \<Rightarrow> (pclass \<Rightarrow> nat) \<times> nat \<times> pclass" where
  "owner_step abdMovable c s k =
     (let (by, n, only) = s
      in if \<not> immovable abdMovable k \<or> c k = 0 then (by, n, only)
         else (by(k := by k + unat (c k)), n + 1, k))"

definition tally_block :: "bool \<Rightarrow> hostage_tally \<Rightarrow> block_view \<times> counts \<Rightarrow> hostage_tally" where
  "tally_block abdMovable s vc =
     (let (v, c) = vc
      in if \<not> hostage v then s
         else
           (let (by, n, only) = foldl (owner_step abdMovable c) (byClass s, 0, clNone) used_classes
            in \<lparr>tblocks = tblocks s + 1,
                freeIn = freeIn s + unat (c clFree),
                byClass = by,
                soleClass = (if n = 1 then (soleClass s)(only := soleClass s only + 1)
                             else soleClass s),
                kinds = add_count n 1 (kinds s),
                mixed = (if n > 1 then mixed s + 1 else mixed s)\<rparr>))"

definition hostage_tallies :: "bool \<Rightarrow> 'a map_frame_scheme \<Rightarrow> hostage_tally" where
  "hostage_tallies abdMovable f = foldl (tally_block abdMovable) no_tally (zip (views f) (counts (m f)))"

section \<open>The tables\<close>

text \<open>One row per class with pages; \<^verbatim>\<open>sort.Slice\<close> sorts at most eleven of them here.\<close>

definition class_rows :: "hostage_tally \<Rightarrow> (pclass \<times> nat) list" where
  "class_rows s =
     slice_isort (\<lambda>a b. snd b < snd a)
       (map (\<lambda>k. (k, byClass s k)) (filter (\<lambda>k. 0 < byClass s k) used_classes))"

definition owner_sets :: "pclass list list" where
  "owner_sets = [[clSlab], [clABD], [clSlab, clABD], [clSlab, clABD, clKernel]]"

text \<open>The loop that clears \<^verbatim>\<open>ok\<close> at the first immovable class that is not in the set.\<close>

definition only_owners :: "bool \<Rightarrow> pclass list \<Rightarrow> counts \<Rightarrow> bool" where
  "only_owners abdMovable owners c =
     list_all (\<lambda>k. \<not> immovable abdMovable k \<or> c k = 0 \<or> k \<in> set owners) used_classes"

definition ceiling_step ::
  "bool \<Rightarrow> pclass list \<Rightarrow> nat \<times> nat \<Rightarrow> block_view \<times> counts \<Rightarrow> nat \<times> nat" where
  "ceiling_step abdMovable owners s vc =
     (let (n, freed) = s; (v, c) = vc
      in if \<not> hostage v then (n, freed)
         else if only_owners abdMovable owners c then (n + 1, freed + unat (c clFree))
         else (n, freed))"

definition owner_ceiling :: "bool \<Rightarrow> pclass list \<Rightarrow> 'a map_frame_scheme \<Rightarrow> nat \<times> nat" where
  "owner_ceiling abdMovable owners f =
     foldl (ceiling_step abdMovable owners) (0, 0) (zip (views f) (counts (m f)))"

text \<open>What the report prints up to the tables per cache.\<close>

record hostage_report =
  rblocks :: nat
  rfree :: nat
  rrows :: "(pclass \<times> nat \<times> nat) list"
  rceilings :: "(pclass list \<times> nat \<times> nat) list"
  rkinds :: "(nat \<times> nat) list"
  rmixed :: nat

definition hostageReport :: "bool \<Rightarrow> 'a map_frame_scheme \<Rightarrow> hostage_report" where
  "hostageReport abdMovable f0 =
     (let f = frame_summarise abdMovable f0;
          s = hostage_tallies abdMovable f
      in \<lparr>rblocks = tblocks s, rfree = freeIn s,
          rrows = map (\<lambda>(k, pages). (k, pages, soleClass s k)) (class_rows s),
          rceilings = map (\<lambda>owners. (owners, owner_ceiling abdMovable owners f)) owner_sets,
          rkinds = map (\<lambda>k. (k, count_of (kinds s) k)) (sort (map fst (kinds s))),
          rmixed = mixed s\<rparr>)"

section \<open>The owners of a block\<close>

definition block_owners :: "bool \<Rightarrow> counts \<Rightarrow> pclass list" where
  "block_owners abdMovable c = filter (\<lambda>k. immovable abdMovable k \<and> c k \<noteq> 0) used_classes"

lemma set_block_owners: "set (block_owners mv c) = {k. immovable mv k \<and> c k \<noteq> 0}"
proof -
  have "immovable mv k \<Longrightarrow> k \<in> - {clNone, clFree}" for k by (cases k) simp_all
  then show ?thesis unfolding block_owners_def by auto
qed

lemma distinct_block_owners: "distinct (block_owners mv c)"
  by (simp add: block_owners_def)

lemma owner_steps:
  assumes "distinct ks"
  shows "foldl (owner_step mv c) (by, n, only) ks =
    (\<lambda>k. if k \<in> set ks \<and> immovable mv k then by k + unat (c k) else by k,
     n + length (filter (\<lambda>k. immovable mv k \<and> c k \<noteq> 0) ks),
     List.last (only # filter (\<lambda>k. immovable mv k \<and> c k \<noteq> 0) ks))"
  using assms
proof (induction ks arbitrary: "by" n only)
  case Nil
  then show ?case by simp
next
  case (Cons k ks)
  then show ?case by (auto simp: owner_step_def fun_eq_iff)
qed

lemma owners_of_block:
  "foldl (owner_step mv c) (by, 0, clNone) used_classes =
    (\<lambda>k. if immovable mv k then by k + unat (c k) else by k, length (block_owners mv c),
     List.last (clNone # block_owners mv c))"
proof -
  have "immovable mv k \<Longrightarrow> k \<in> - {clNone, clFree}" for k by (cases k) simp_all
  then show ?thesis by (auto simp: owner_steps block_owners_def fun_eq_iff)
qed

lemma only_owners_iff: "only_owners mv S c \<longleftrightarrow> set (block_owners mv c) \<subseteq> set S"
proof -
  have "immovable mv k \<Longrightarrow> k \<in> - {clNone, clFree}" for k by (cases k) simp_all
  then show ?thesis by (auto simp: only_owners_def set_block_owners list_all_iff)
qed

lemma hostage_has_owner: "hostage (summarise mv c) \<Longrightarrow> block_owners mv c \<noteq> []"
proof -
  assume "hostage (summarise mv c)"
  then have "set (block_owners mv c) \<noteq> {}"
    by (auto simp: set_block_owners summarise_hostage immovable_pages_pos)
  then show ?thesis by auto
qed

section \<open>What the loops count\<close>

definition hostage_counts :: "bool \<Rightarrow> counts list \<Rightarrow> counts list" where
  "hostage_counts abdMovable cs = filter (\<lambda>c. hostage (summarise abdMovable c)) cs"

definition tally_of :: "bool \<Rightarrow> counts list \<Rightarrow> hostage_tally \<Rightarrow> hostage_tally" where
  "tally_of mv hs s =
     \<lparr>tblocks = tblocks s + length hs,
      freeIn = freeIn s + (\<Sum>c\<leftarrow>hs. unat (c clFree)),
      byClass = (\<lambda>k. byClass s k + (if immovable mv k then \<Sum>c\<leftarrow>hs. unat (c k) else 0)),
      soleClass = (\<lambda>k. soleClass s k + length (filter (\<lambda>c. block_owners mv c = [k]) hs)),
      kinds = foldl (\<lambda>ks c. add_count (length (block_owners mv c)) 1 ks) (kinds s) hs,
      mixed = mixed s + length (filter (\<lambda>c. 1 < length (block_owners mv c)) hs)\<rparr>"

lemma tally_of_Nil [simp]: "tally_of mv [] s = s"
  by (cases s) (auto simp: tally_of_def fun_eq_iff)

lemma tally_one:
  "tally_block mv s (summarise mv c, c) = tally_of mv (hostage_counts mv [c]) s"
proof (cases "hostage (summarise mv c)")
  case True
  have one: "length (block_owners mv c) = Suc 0 \<longleftrightarrow> (\<exists>k. block_owners mv c = [k])"
    by (auto simp: length_Suc_conv)
  show ?thesis
    using True one
    by (auto simp: tally_block_def hostage_counts_def tally_of_def Let_def owners_of_block fun_eq_iff)
next
  case False
  then show ?thesis by (simp add: tally_block_def hostage_counts_def)
qed

lemma tally_of_append: "tally_of mv (as @ bs) s = tally_of mv bs (tally_of mv as s)"
  by (simp add: tally_of_def fun_eq_iff)

lemma tallies_fold:
  "foldl (tally_block mv) s (zip (map (summarise mv) cs) cs) = tally_of mv (hostage_counts mv cs) s"
proof (induction cs arbitrary: s)
  case Nil
  show ?case by (simp add: hostage_counts_def)
next
  case (Cons c cs)
  have "hostage_counts mv (c # cs) = hostage_counts mv [c] @ hostage_counts mv cs"
    by (simp add: hostage_counts_def)
  then show ?case using Cons.IH [of "tally_of mv (hostage_counts mv [c]) s"]
    by (simp only: list.map zip_Cons_Cons foldl_Cons tally_one tally_of_append)
qed

lemma ceiling_fold:
  "foldl (ceiling_step mv S) (n, freed) (zip (map (summarise mv) cs) cs) =
    (n + length (filter (\<lambda>c. set (block_owners mv c) \<subseteq> set S) (hostage_counts mv cs)),
     freed + (\<Sum>c\<leftarrow>filter (\<lambda>c. set (block_owners mv c) \<subseteq> set S) (hostage_counts mv cs). unat (c clFree)))"
  by (induction cs arbitrary: n freed)
    (simp_all add: ceiling_step_def hostage_counts_def only_owners_iff)

lemma tallies_eq:
  assumes "map_ok (m f)"
  shows "hostage_tallies mv (frame_summarise mv f) =
    tally_of mv (hostage_counts mv (counts (m f))) no_tally"
  using assms by (simp add: hostage_tallies_def frame_summarise_eq tallies_fold)

lemma frame_totals:
  assumes "map_ok (m f)"
  shows "hostages (frame_summarise mv f) = length (hostage_counts mv (counts (m f)))"
    and "hostageFree (frame_summarise mv f) =
      (\<Sum>c\<leftarrow>hostage_counts mv (counts (m f)). unat (c clFree))"
  using assms by (simp_all add: frame_summarise_eq hostage_counts_def comp_def)

lemma ceiling_eq:
  assumes "map_ok (m f)"
  shows "owner_ceiling mv S (frame_summarise mv f) =
    (length (filter (\<lambda>c. set (block_owners mv c) \<subseteq> set S) (hostage_counts mv (counts (m f)))),
     \<Sum>c\<leftarrow>filter (\<lambda>c. set (block_owners mv c) \<subseteq> set S) (hostage_counts mv (counts (m f))). unat (c clFree))"
  using assms by (simp add: owner_ceiling_def frame_summarise_eq ceiling_fold)

lemma count_of_kinds:
  "count_of (foldl (\<lambda>ks x. add_count (f x) (1::nat) ks) ks xs) k =
    count_of ks k + length (filter (\<lambda>x. f x = k) xs)"
  by (induction xs arbitrary: ks) (simp_all add: count_of_add_count)

lemma keys_of_kinds:
  "fst ` set (foldl (\<lambda>ks x. add_count (f x) (1::nat) ks) ks xs) = fst ` set ks \<union> f ` set xs"
  by (induction xs arbitrary: ks) (auto simp: keys_add_count)

lemma distinct_kinds:
  "distinct (map fst ks) \<Longrightarrow>
    distinct (map fst (foldl (\<lambda>ks x. add_count (f x) (1::nat) ks) ks xs))"
  by (induction xs arbitrary: ks) (simp_all add: distinct_add_count)

lemma length_by_key:
  assumes "distinct keys" and "f ` set xs \<subseteq> set keys"
  shows "(\<Sum>k\<leftarrow>keys. length (filter (\<lambda>x. f x = k) xs)) = length xs"
  using assms(2)
proof (induction xs)
  case Nil
  then show ?case by simp
next
  case (Cons x xs)
  have "(\<Sum>k\<leftarrow>keys. length (filter (\<lambda>y. f y = k) (x # xs))) =
      (\<Sum>k\<leftarrow>keys. (if f x = k then 1 else 0) + length (filter (\<lambda>y. f y = k) xs))"
    by (intro arg_cong [where f = sum_list] map_cong) auto
  also have "\<dots> = (\<Sum>k\<leftarrow>keys. if f x = k then 1 else 0) + length xs"
    using Cons by (simp add: sum_list_addf)
  also have "(\<Sum>k\<leftarrow>keys. if f x = k then 1 else (0::nat)) = (\<Sum>k\<in>set keys. if f x = k then 1 else 0)"
    using assms(1) by (simp add: sum_list_distinct_conv_sum_set)
  also have "\<dots> = 1" using Cons.prems by simp
  finally show ?case by simp
qed

lemma sum_isort: "(\<Sum>x\<leftarrow>slice_isort lt xs. g x) = (\<Sum>x\<leftarrow>xs. g x :: nat)"
  using isort.srt_perm [of lt xs] by (metis mset_map sum_mset_sum_list)

lemma sum_filter_zero: "(\<And>x. x \<in> set xs \<Longrightarrow> \<not> P x \<Longrightarrow> g x = (0::nat)) \<Longrightarrow>
    (\<Sum>x\<leftarrow>filter P xs. g x) = (\<Sum>x\<leftarrow>xs. g x)"
  by (induction xs) auto

definition sole_count :: "bool \<Rightarrow> counts list \<Rightarrow> pclass \<Rightarrow> nat" where
  "sole_count mv hs k = length (filter (\<lambda>c. block_owners mv c = [k]) hs)"

lemma sole_and_mixed:
  assumes "\<forall>c \<in> set hs. block_owners mv c \<noteq> []"
  shows "(\<Sum>k\<leftarrow>used_classes. sole_count mv hs k) +
    length (filter (\<lambda>c. 1 < length (block_owners mv c)) hs) = length hs"
proof -
  let ?one = "filter (\<lambda>c. length (block_owners mv c) = 1) hs"
  have "sole_count mv hs k = length (filter (\<lambda>c. hd (block_owners mv c) = k) ?one)" for k
    unfolding sole_count_def
    by (simp, intro arg_cong [where f = length] filter_cong) (auto simp: length_Suc_conv)
  moreover have "(\<lambda>c. hd (block_owners mv c)) ` set ?one \<subseteq> set used_classes"
  proof -
    have "hd (block_owners mv c) \<in> set used_classes" if "length (block_owners mv c) = 1" for c
    proof -
      have "hd (block_owners mv c) \<in> set (block_owners mv c)"
        using that by (intro hd_in_set) auto
      then show ?thesis by (simp add: block_owners_def)
    qed
    then show ?thesis by auto
  qed
  ultimately have "(\<Sum>k\<leftarrow>used_classes. sole_count mv hs k) = length ?one"
    using length_by_key [of used_classes "\<lambda>c. hd (block_owners mv c)" ?one] by simp
  moreover have "length ?one + length (filter (\<lambda>c. 1 < length (block_owners mv c)) hs) = length hs"
    using assms by (induction hs) (auto simp: Suc_lessI)
  ultimately show ?thesis by simp
qed

text \<open>What the first loop leaves for the hostages \<open>hs\<close>.\<close>

definition final_tally :: "bool \<Rightarrow> counts list \<Rightarrow> hostage_tally" where
  "final_tally mv hs = tally_of mv hs no_tally"

lemma final_tally_simps:
  "tblocks (final_tally mv hs) = length hs"
  "freeIn (final_tally mv hs) = (\<Sum>c\<leftarrow>hs. unat (c clFree))"
  "byClass (final_tally mv hs) k = (if immovable mv k then \<Sum>c\<leftarrow>hs. unat (c k) else 0)"
  "soleClass (final_tally mv hs) k = sole_count mv hs k"
  "kinds (final_tally mv hs) = foldl (\<lambda>ks c. add_count (length (block_owners mv c)) 1 ks) [] hs"
  "mixed (final_tally mv hs) = length (filter (\<lambda>c. 1 < length (block_owners mv c)) hs)"
  by (simp_all add: final_tally_def tally_of_def no_tally_def sole_count_def)

lemma hostageReport_eq:
  assumes "map_ok (m f)"
  shows "hostageReport mv f =
    (let hs = hostage_counts mv (counts (m f)); s = final_tally mv hs
     in \<lparr>rblocks = length hs, rfree = (\<Sum>c\<leftarrow>hs. unat (c clFree)),
         rrows = map (\<lambda>(k, pages). (k, pages, sole_count mv hs k)) (class_rows s),
         rceilings = map (\<lambda>S. (S, owner_ceiling mv S (frame_summarise mv f))) owner_sets,
         rkinds = map (\<lambda>k. (k, count_of (kinds s) k)) (sort (map fst (kinds s))),
         rmixed = mixed s\<rparr>)"
  using assms
  by (simp add: hostageReport_def Let_def tallies_eq final_tally_def [symmetric] final_tally_simps)

lemma class_rows_mem:
  "(k, n) \<in> set (class_rows (final_tally mv hs)) \<longleftrightarrow>
    immovable mv k \<and> 0 < n \<and> n = (\<Sum>c\<leftarrow>hs. unat (c k))"
proof -
  have "immovable mv k \<Longrightarrow> k \<in> - {clNone, clFree}" by (cases k) simp_all
  then show ?thesis
    by (auto simp: class_rows_def isort.srt_set final_tally_simps split: if_splits)
qed

lemma class_rows_sorted: "sorted_wrt (\<lambda>a b. snd b \<le> snd a) (class_rows s)"
  using isort.srt_ordered [OF weak_order_key_desc [of snd]] unfolding class_rows_def
  by (simp add: not_less)

lemma sole_needs_pages:
  assumes "\<not> 0 < byClass (final_tally mv hs) k"
  shows "sole_count mv hs k = 0"
proof -
  have "block_owners mv c \<noteq> [k]" if c: "c \<in> set hs" for c
  proof
    assume "block_owners mv c = [k]"
    then have "immovable mv k" "c k \<noteq> 0" using set_block_owners [of mv c] by auto
    then show False using c assms by (auto simp: final_tally_simps sum_list_eq_0_iff unat_eq_0)
  qed
  then show ?thesis by (simp add: sole_count_def filter_empty_conv)
qed

lemma class_rows_sole:
  "(\<Sum>p\<leftarrow>class_rows (final_tally mv hs). sole_count mv hs (fst p)) =
    (\<Sum>k\<leftarrow>used_classes. sole_count mv hs k)"
proof -
  have "(\<Sum>p\<leftarrow>class_rows (final_tally mv hs). sole_count mv hs (fst p)) =
      (\<Sum>k\<leftarrow>filter (\<lambda>k. 0 < byClass (final_tally mv hs) k) used_classes. sole_count mv hs k)"
    by (simp add: class_rows_def sum_isort comp_def)
  then show ?thesis using sole_needs_pages by (metis sum_filter_zero)
qed

lemma kinds_sum:
  "(\<Sum>k\<leftarrow>sort (map fst (kinds (final_tally mv hs))). count_of (kinds (final_tally mv hs)) k) =
    length hs"
proof -
  define own where "own c = length (block_owners mv c)" for c
  let ?ks = "foldl (\<lambda>ks c. add_count (own c) (1::nat) ks) [] hs"
  have "(\<Sum>k\<leftarrow>sort (map fst ?ks). count_of ?ks k) =
      (\<Sum>k\<leftarrow>sort (map fst ?ks). length (filter (\<lambda>c. own c = k) hs))"
    by (simp only: count_of_kinds count_of_Nil add_0)
  also have "\<dots> = length hs"
  proof (rule length_by_key)
    show "distinct (sort (map fst ?ks))" by (simp only: distinct_sort) (rule distinct_kinds, simp)
    show "own ` set hs \<subseteq> set (sort (map fst ?ks))"
      using keys_of_kinds [of own "[]" hs] by simp
  qed
  finally show ?thesis unfolding final_tally_simps own_def .
qed

section \<open>Properties\<close>

text \<open>
  C18. The report adds up: it counts the hostages the map was judged to have and the free pages
  in them, the blocks with one owner each and the mixed ones make up all of them, and so do
  the blocks by number of owners. A class has a row exactly when hostages hold immovable
  pages of it, with their number, and the rows come largest first.
\<close>

theorem hostageReport_adds_up:
  assumes "map_ok (m f)"
  shows "rblocks (hostageReport mv f) = hostages (frame_summarise mv f) \<and>
    rfree (hostageReport mv f) = hostageFree (frame_summarise mv f) \<and>
    (\<Sum>(k, pages, sole)\<leftarrow>rrows (hostageReport mv f). sole) + rmixed (hostageReport mv f) =
      rblocks (hostageReport mv f) \<and>
    (\<Sum>(k, n)\<leftarrow>rkinds (hostageReport mv f). n) = rblocks (hostageReport mv f) \<and>
    (\<forall>k pages. (\<exists>sole. (k, pages, sole) \<in> set (rrows (hostageReport mv f))) \<longleftrightarrow>
      immovable mv k \<and> 0 < pages \<and>
      pages = (\<Sum>c\<leftarrow>hostage_counts mv (counts (m f)). unat (c k))) \<and>
    sorted_wrt (\<lambda>a b. fst (snd b) \<le> fst (snd a)) (rrows (hostageReport mv f))"
proof -
  let ?hs = "hostage_counts mv (counts (m f))"
  note R = hostageReport_eq [OF assms, of mv, unfolded Let_def]
  have "\<forall>c \<in> set ?hs. block_owners mv c \<noteq> []"
    by (auto simp: hostage_counts_def hostage_has_owner)
  then have "(\<Sum>(k, pages, s)\<leftarrow>rrows (hostageReport mv f). s) + rmixed (hostageReport mv f) =
      rblocks (hostageReport mv f)"
    using sole_and_mixed [of ?hs mv]
    by (simp add: R comp_def case_prod_beta' class_rows_sole final_tally_simps)
  moreover have "(\<Sum>(k, n)\<leftarrow>rkinds (hostageReport mv f). n) = rblocks (hostageReport mv f)"
    using kinds_sum [of mv ?hs] by (simp add: R comp_def)
  moreover have "rblocks (hostageReport mv f) = hostages (frame_summarise mv f) \<and>
      rfree (hostageReport mv f) = hostageFree (frame_summarise mv f)"
    by (simp add: R frame_totals [OF assms])
  moreover have "(\<exists>s. (k, n, s) \<in> set (rrows (hostageReport mv f))) \<longleftrightarrow>
      immovable mv k \<and> 0 < n \<and> n = (\<Sum>c\<leftarrow>?hs. unat (c k))" for k n
    using class_rows_mem [of k n mv ?hs] by (force simp: R image_iff)
  moreover have "sorted_wrt (\<lambda>a b. fst (snd b) \<le> fst (snd a)) (rrows (hostageReport mv f))"
    using class_rows_sorted by (simp add: R sorted_wrt_map case_prod_beta')
  ultimately show ?thesis by blast
qed

lemma hostageReport_adds_up_witness:
  "rblocks (hostageReport False sample_frame) = 1 \<and> rmixed (hostageReport False sample_frame) = 1"
proof -
  have ok: "map_ok (m sample_frame)" by (simp add: map_ok_def sample_frame_def)
  have no: "\<not> hostage (summarise False zero_counts)"
    by (simp add: summarise_none known_pages_def zero_counts_def ram_classes_eq no_view_def)
  have hs: "hostage_counts False (counts (m sample_frame)) = [mixed_block]"
    by (simp add: hostage_counts_def sample_frame_def hostage_mixed_block no)
  have "block_owners False mixed_block = [clSlab, clKernel]"
    by (simp add: block_owners_def used_classes_eq mixed_block_def zero_counts_def)
  then have "rmixed (hostageReport False sample_frame) = 1"
    using hostageReport_eq [OF ok, of False] by (simp add: hs Let_def final_tally_simps)
  moreover have "rblocks (hostageReport False sample_frame) = hostages (frame_summarise False sample_frame)"
    using hostageReport_adds_up [OF ok, of False] by blast
  moreover have "hostages (frame_summarise False sample_frame) = 1"
    by (simp add: frame_summarise_eq [OF ok] comp_def) (simp add: sample_frame_def hostage_mixed_block no)
  ultimately show ?thesis by simp
qed

text \<open>
  The ceiling the report names for ARC data is what relocating it brings: the blocks whose
  only immovable pages are ARC data are exactly those a machine that can move ARC data does
  not count as hostages, and the free pages they would return are those it does not count as
  pinned. The ceiling of one class is the number of blocks where that class is alone.
\<close>

theorem arc_ceiling_is_relocation:
  assumes "map_ok (m f)"
  shows "hostages (frame_summarise False f) =
      hostages (frame_summarise True f) + fst (owner_ceiling False [clABD] (frame_summarise False f)) \<and>
    hostageFree (frame_summarise False f) =
      hostageFree (frame_summarise True f) + snd (owner_ceiling False [clABD] (frame_summarise False f)) \<and>
    (\<forall>k pages sole. (k, pages, sole) \<in> set (rrows (hostageReport False f)) \<longrightarrow>
      sole = fst (owner_ceiling False [k] (frame_summarise False f)))"
proof -
  let ?arc = "\<lambda>c. set (block_owners False c) \<subseteq> {clABD}"
  have split: "hostage (summarise True c) \<longleftrightarrow> hostage (summarise False c) \<and> \<not> ?arc c" for c
  proof -
    have "immovable True k \<longleftrightarrow> immovable False k \<and> k \<noteq> clABD" for k by (cases k) simp_all
    then show ?thesis by (auto simp: summarise_hostage immovable_pages_pos set_block_owners)
  qed
  have count: "length (hostage_counts False cs) =
      length (hostage_counts True cs) + length (filter ?arc (hostage_counts False cs))"
    and free: "(\<Sum>c\<leftarrow>hostage_counts False cs. unat (c clFree)) =
      (\<Sum>c\<leftarrow>hostage_counts True cs. unat (c clFree)) +
      (\<Sum>c\<leftarrow>filter ?arc (hostage_counts False cs). unat (c clFree))" for cs
    by (induction cs) (auto simp: hostage_counts_def split)
  have "sole_count False hs k =
      length (filter (\<lambda>c. set (block_owners False c) \<subseteq> {k}) hs)"
    if "\<forall>c \<in> set hs. block_owners False c \<noteq> []" for hs k
  proof -
    have "block_owners False c = [k] \<longleftrightarrow> set (block_owners False c) \<subseteq> {k}" if "c \<in> set hs" for c
      using \<open>\<forall>c \<in> set hs. _\<close> that distinct_block_owners [of False c]
      by (cases "block_owners False c") (auto simp: subset_singleton_iff)
    then show ?thesis unfolding sole_count_def
      by (intro arg_cong [where f = length] filter_cong) simp_all
  qed
  moreover have "\<forall>c \<in> set (hostage_counts False (counts (m f))). block_owners False c \<noteq> []"
    by (auto simp: hostage_counts_def hostage_has_owner)
  ultimately have "\<forall>k pages sole. (k, pages, sole) \<in> set (rrows (hostageReport False f)) \<longrightarrow>
      sole = fst (owner_ceiling False [k] (frame_summarise False f))"
    using assms by (auto simp: hostageReport_eq Let_def ceiling_eq)
  then show ?thesis
    using count [of "counts (m f)"] free [of "counts (m f)"]
    by (simp add: ceiling_eq [OF assms] frame_totals [OF assms])
qed

definition arc_block :: counts where
  "arc_block = zero_counts(clFree := 500, clABD := 12)"

definition arc_frame :: map_frame where
  "arc_frame = sample_frame\<lparr>m := \<lparr>firstPFN = 0, nblocks = 2, counts = [mixed_block, arc_block],
     ranges = []\<rparr>\<rparr>"

lemma arc_ceiling_is_relocation_witness:
  "hostages (frame_summarise False arc_frame) = hostages (frame_summarise True arc_frame) + 1"
proof -
  have ok: "map_ok (m arc_frame)" by (simp add: map_ok_def arc_frame_def)
  have "known_pages arc_block = 512"
    by (simp add: known_pages_def arc_block_def zero_counts_def ram_classes_eq)
  then have "hostage (summarise False arc_block)"
    unfolding summarise_hostage
    by (simp add: immovable_pages_def immovable_classes_eq used_pages_def used_classes_eq
      arc_block_def zero_counts_def)
  then have "hostage_counts False (counts (m arc_frame)) = [mixed_block, arc_block]"
    by (simp add: hostage_counts_def arc_frame_def hostage_mixed_block)
  moreover have "block_owners False mixed_block = [clSlab, clKernel]" "block_owners False arc_block = [clABD]"
    by (simp_all add: block_owners_def used_classes_eq mixed_block_def arc_block_def zero_counts_def)
  ultimately have "fst (owner_ceiling False [clABD] (frame_summarise False arc_frame)) = 1"
    by (simp add: ceiling_eq [OF ok])
  then show ?thesis using arc_ceiling_is_relocation [OF ok] by simp
qed

section \<open>The tables per cache and per allocation site\<close>

text \<open>
  The rows of \<^verbatim>\<open>hostageByCache\<close>: name, blocks and pages of every cache with pages in hostage
  blocks. Go visits the map in any order and \<^verbatim>\<open>sort.Slice\<close> leaves ties open, so the order of
  the entries and the sorting routine are arguments.
\<close>

type_synonym cache_row = "string \<times> u64 \<times> u64"

definition cache_rows :: "(string \<times> who_stat) list \<Rightarrow> cache_row list" where
  "cache_rows who =
     map (\<lambda>(nm, w). (nm, whostageBlocks w, whostagePages w))
       (filter (\<lambda>(nm, w). whostageBlocks w \<noteq> 0) who)"

definition top_rows ::
  "((cache_row \<Rightarrow> cache_row \<Rightarrow> bool) \<Rightarrow> cache_row list \<Rightarrow> cache_row list) \<Rightarrow> nat \<Rightarrow>
   (string \<times> who_stat) list \<Rightarrow> cache_row list" where
  "top_rows srt n who = take n (srt (\<lambda>a b. snd (snd b) < snd (snd a)) (cache_rows who))"

text \<open>\<^verbatim>\<open>hostageBySite\<close>: the first sites, in the order the module lists them.\<close>

definition hostageBySite :: "groups option \<Rightarrow> nat \<Rightarrow> site_stat list \<Rightarrow> (string \<times> string \<times> string \<times> u64 \<times> u64) list" where
  "hostageBySite al n sites =
     map (\<lambda>s. (trunc (cacheLabel al (site_cache s)) 22, trunc (site_fn s) 26, trunc (site_file s) 22,
               site_blocks s, site_objects s)) (take n sites)"

text \<open>\<^verbatim>\<open>hostageByCache\<close>: the table, the legend under it, and the table of sites.\<close>

definition hostageByCache ::
  "((cache_row \<Rightarrow> cache_row \<Rightarrow> bool) \<Rightarrow> cache_row list \<Rightarrow> cache_row list) \<Rightarrow> groups option \<Rightarrow> nat \<Rightarrow>
   (string \<times> who_stat) list option \<Rightarrow> site_stat list \<Rightarrow>
   (cache_row list \<times> string list \<times> (string \<times> string \<times> string \<times> u64 \<times> u64) list) option" where
  "hostageByCache srt al n who sites =
     (case who of
        None \<Rightarrow> None
      | Some w \<Rightarrow>
          (let rows = top_rows srt n w
           in Some (map (\<lambda>(nm, b, p). (trunc (cacheLabel al nm) 28, b, p)) rows,
                    aliasLegend al (map fst rows), hostageBySite al 15 sites)))"

end
