(* ===== verification/Assertions.thy ===== *)
theory Assertions
  imports Compare
begin

text \<open>
  The assertions of \<^verbatim>\<open>packages/fragview/compare.go\<close>: what a capped baseline leaves to judge, and the
  text of an assertion read back.
\<close>


section \<open>Saturated baselines\<close>

text \<open>The pairs of seeds whose baseline stayed below the cap.\<close>

definition below_cap :: "string \<Rightarrow> rat \<Rightarrow> build_group \<Rightarrow> build_group \<Rightarrow> (numbers \<times> numbers) list" where
  "below_cap metric ceil gf gt =
     filter (\<lambda>p. num_of (fst p) metric < ceil) (zip (seeds gf) (seeds gt))"

lemma paired_loop_filter:
  "paired_loop metric ceil ss ts a b d =
     (let keep = filter (\<lambda>p. num_of (fst p) metric < ceil) (zip ss ts)
      in (a @ map (\<lambda>p. num_of (fst p) metric) keep, b @ map (\<lambda>p. num_of (snd p) metric) keep,
          d + (length (zip ss ts) - length keep)))"
proof (induction metric ceil ss ts a b d rule: paired_loop.induct)
  case (1 metric ceil s ss t ts a b d)
  obtain k where "length (zip ss ts) = length (filter (\<lambda>p. num_of (fst p) metric < ceil) (zip ss ts)) + k"
    using le_Suc_ex [OF length_filter_le] by blast
  then show ?case using 1 by (auto simp: Let_def simp del: length_zip)
qed simp_all

lemma pairedBelow_below_cap:
  "pairedBelow gf gt metric ceil =
     (let keep = below_cap metric ceil gf gt; dropped = length (zip (seeds gf) (seeds gt)) - length keep
      in if keep = [] then (num_of (gmedian gf) metric, num_of (gmedian gt) metric, dropped)
         else (median (map (\<lambda>p. num_of (fst p) metric) keep),
               median (map (\<lambda>p. num_of (snd p) metric) keep), dropped))"
  by (simp add: pairedBelow_def paired_loop_filter below_cap_def Let_def del: length_zip)

lemma median_above:
  assumes "xs \<noteq> []" and "\<forall>x \<in> set xs. fl x = x \<and> c \<le> x"
  shows "c \<le> median xs"
proof -
  have i: "(length xs - 1) div 2 < length xs" using assms(1) by (cases xs) auto
  then have "sort xs ! ((length xs - 1) div 2) \<in> set xs" by (metis length_sort nth_mem set_sort)
  then have "c \<le> sort xs ! ((length xs - 1) div 2)" using assms(2) by simp
  also have "\<dots> \<le> median xs" using median_middle [OF assms(1)] assms(2) by simp
  finally show ?thesis .
qed

lemma all_capped:
  assumes "below_cap metric c gf gt = []" and "length (seeds gf) \<le> length (seeds gt)"
    and "s \<in> set (seeds gf)"
  shows "c \<le> num_of s metric"
proof -
  obtain i where i: "i < length (seeds gf)" "seeds gf ! i = s" using assms(3) by (auto simp: in_set_conv_nth)
  then have "(s, seeds gt ! i) \<in> set (zip (seeds gf) (seeds gt))"
    using assms(2) by (force simp: set_zip)
  then show ?thesis using assms(1) by (force simp: below_cap_def filter_empty_conv)
qed


definition sample_group :: "string \<Rightarrow> rat list \<Rightarrow> build_group" where
  "sample_group n xs = \<lparr>glabel = n, seeds = map (\<lambda>x. [(''hugepages'', x)]) xs,
     gmedian = [(''hugepages'', median xs)]\<rparr>"

definition sample_expectation :: expectation where
  "sample_expectation = no_expectation\<lparr>emetric := ''hugepages'', ebound := 1, eceiling := 8\<rparr>"



section \<open>The text of an assertion\<close>

text \<open>A number that parses is made of digits, signs, a point and the letter of an exponent.\<close>

definition num_char :: "char \<Rightarrow> bool" where
  "num_char c \<longleftrightarrow> is_digit c \<or> c \<in> set ''+-.eE''"

lemma split_sign_chars:
  assumes "split_sign s = (neg, r)" and "list_all num_char r"
  shows "list_all num_char s"
  using assms by (cases s) (auto simp: split_sign_def num_char_def split: if_splits)

lemma digits_num_chars: "list_all is_digit ds \<Longrightarrow> list_all num_char ds"
  by (simp add: list_all_iff num_char_def)

lemma takeWhile_num_chars: "list_all num_char (takeWhile is_digit s)"
  by (rule digits_num_chars) (auto simp: list_all_iff dest: set_takeWhileD)

lemma rest_num_chars: "list_all num_char (dropWhile is_digit s) \<Longrightarrow> list_all num_char s"
  using takeWhile_num_chars [of s] list_all_append takeWhile_dropWhile_id by metis

lemma parse_exponent_chars: "parse_exponent s = Some e \<Longrightarrow> list_all num_char s"
proof -
  assume a: "parse_exponent s = Some e"
  obtain neg ds where ds: "split_sign s = (neg, ds)" by fastforce
  then have "list_all is_digit ds" using a by (simp add: parse_exponent_def split: if_splits)
  then show "list_all num_char s" by (intro split_sign_chars [OF ds] digits_num_chars)
qed

lemma exponent_chars:
  assumes "r = [] \<or> (hd r = CHR ''e'' \<or> hd r = CHR ''E'') \<and> parse_exponent (tl r) \<noteq> None"
  shows "list_all num_char r"
  using assms parse_exponent_chars by (cases r) (auto simp: num_char_def)

lemma parse_float_chars:
  assumes "parse_float s = Some x"
  shows "list_all num_char s"
proof -
  obtain neg s1 where s1: "split_sign s = (neg, s1)" by fastforce
  obtain ip r1 where ip: "takeWhile is_digit s1 = ip" and r1: "dropWhile is_digit s1 = r1" by blast
  let ?point = "r1 \<noteq> [] \<and> hd r1 = CHR ''.''"
  obtain fp r2 where point: "(if ?point then (takeWhile is_digit (tl r1), dropWhile is_digit (tl r1))
      else ([], r1)) = (fp, r2)"
    by fastforce
  have "r2 = [] \<or> (hd r2 = CHR ''e'' \<or> hd r2 = CHR ''E'') \<and> parse_exponent (tl r2) \<noteq> None"
  proof (rule ccontr)
    assume bad: "\<not> ?thesis"
    then have "parse_float s = None"
      unfolding parse_float_def s1 Let_def prod.case ip r1 point by auto
    then show False using assms by simp
  qed
  then have r2: "list_all num_char r2" by (rule exponent_chars)
  have "list_all num_char r1"
  proof (cases ?point)
    case True
    then have "list_all num_char (tl r1)" using r2 point by (auto intro: rest_num_chars)
    then show ?thesis using True by (cases r1) (auto simp: num_char_def)
  next
    case False
    then have "r2 = r1" using point by (simp only: if_False prod.inject simp_thms)
    then show ?thesis using r2 by simp
  qed
  then have "list_all num_char s1" using rest_num_chars [of s1] r1 by simp
  then show ?thesis by (rule split_sign_chars [OF s1])
qed

lemma num_chars_free:
  assumes "parse_float s = Some x" and "\<not> num_char c"
  shows "c \<notin> set s"
  using parse_float_chars [OF assms(1)] assms(2) by (auto simp: list_all_iff)

lemma not_num_char:
  "\<not> num_char CHR '':''" "\<not> num_char CHR ''@''" "\<not> num_char CHR ''=''"
  by (simp_all add: num_char_def is_digit_def of_char_def)

text \<open>Two-character separators: the second character says where they can be.\<close>

lemma cut_pair: "c \<noteq> d \<Longrightarrow> d \<notin> set a \<Longrightarrow> cut [c, d] (a @ [c, d] @ b) = Some (a, b)"
proof (induction a)
  case Nil
  show ?case using cut_here [of "[c, d]" b] by simp
next
  case (Cons e a)
  then have "take (length [c, d]) (e # a @ [c, d] @ b) \<noteq> [c, d]" by (cases a) auto
  from cut_skip [OF this] show ?case using Cons by simp
qed

lemma cut_pair_none: "d \<notin> set s \<Longrightarrow> cut [c, d] s = None"
proof (induction s)
  case Nil
  show ?case by (subst cut.simps) simp
next
  case (Cons e s)
  then have "take (length [c, d]) (e # s) \<noteq> [c, d]" by (cases s) auto
  from cut_skip [OF this] show ?case using Cons by simp
qed

lemma cut_pair_other:
  "x \<noteq> c \<Longrightarrow> x \<noteq> d \<Longrightarrow> d \<notin> set a \<Longrightarrow> d \<notin> set b \<Longrightarrow> c \<noteq> d \<Longrightarrow> cut [c, d] (a @ [x, d] @ b) = None"
proof (induction a)
  case Nil
  have "take (length [c, d]) (x # d # b) \<noteq> [c, d]" "take (length [c, d]) (d # b) \<noteq> [c, d]"
    using Nil by simp_all
  from cut_skip [OF this(1)] cut_skip [OF this(2)] show ?case using Nil by (simp add: cut_pair_none)
next
  case (Cons e a)
  then have "take (length [c, d]) (e # a @ [x, d] @ b) \<noteq> [c, d]" by (cases a) auto
  from cut_skip [OF this] show ?case using Cons by simp
qed


section \<open>Reading an assertion back\<close>

text \<open>An assertion the way a user writes it, with the texts of its numbers.\<close>

definition gate_text :: "(string \<times> string \<times> string option) option \<Rightarrow> string" where
  "gate_text g =
     (case g of None \<Rightarrow> []
      | Some (name, lo, ceil) \<Rightarrow>
          ''@'' @ name @ '':'' @ lo @ (case ceil of None \<Rightarrow> [] | Some c \<Rightarrow> '':'' @ c))"

definition spec_text ::
  "string \<Rightarrow> string \<Rightarrow> string \<Rightarrow> bool \<Rightarrow> bool \<Rightarrow> string \<Rightarrow> (string \<times> string \<times> string option) option \<Rightarrow> string"
where
  "spec_text metric src dst skip le bound g =
     metric @ '':'' @ src @ ''->'' @ dst @ (if skip then ''?skip'' else []) @
     (if le then ''<='' else ''>='') @ bound @ gate_text g"

definition with_gate ::
  "expectation \<Rightarrow> (string \<times> string \<times> string option) option \<Rightarrow> expectation" where
  "with_gate e g =
     (case g of None \<Rightarrow> e
      | Some (name, lo, ceil) \<Rightarrow>
          e\<lparr>egate := name, efloor := the (parse_float lo),
            eceiling := (case ceil of None \<Rightarrow> 0 | Some c \<Rightarrow> the (parse_float c))\<rparr>)"

definition gate_ok :: "(string \<times> string \<times> string option) option \<Rightarrow> bool" where
  "gate_ok g =
     (case g of None \<Rightarrow> True
      | Some (name, lo, ceil) \<Rightarrow>
          CHR '':'' \<notin> set name \<and> CHR ''='' \<notin> set name \<and> parse_float lo \<noteq> None \<and>
          (case ceil of None \<Rightarrow> True | Some c \<Rightarrow> parse_float c \<noteq> None))"

lemma numbers_free:
  assumes "parse_float s \<noteq> None"
  shows "CHR '':'' \<notin> set s" "CHR ''@'' \<notin> set s" "CHR ''='' \<notin> set s"
  using assms num_chars_free not_num_char by blast+

lemma gate_text_free: "gate_ok g \<Longrightarrow> CHR ''='' \<notin> set (gate_text g)"
  using numbers_free(3) by (auto simp: gate_ok_def gate_text_def split: option.splits)

lemma parse_gate_text:
  assumes "gate_ok (Some (name, lo, ceil))" and "eceiling e = 0"
  shows "parse_gate (tl (gate_text (Some (name, lo, ceil)))) e = Inr (with_gate e (Some (name, lo, ceil)))"
proof -
  have n: "CHR '':'' \<notin> set name" and f: "parse_float lo \<noteq> None" using assms by (simp_all add: gate_ok_def)
  obtain x where x: "parse_float lo = Some x" using f by blast
  note sep = numbers_free(1) [OF f]
  show ?thesis
  proof (cases ceil)
    case None
    then show ?thesis
      using assms(2) cut_char [OF n, of lo] cut_none [OF sep] x
      by (simp add: parse_gate_def gate_text_def with_gate_def)
  next
    case (Some c)
    then obtain y where "parse_float c = Some y" using assms(1) by (auto simp: gate_ok_def)
    then show ?thesis
      using Some cut_char [OF n] cut_char [OF sep] x
      by (simp add: parse_gate_def gate_text_def with_gate_def)
  qed
qed

lemma skip_text:
  assumes "skip \<or> \<not> has_suffix ''?skip'' dst"
  shows "has_suffix ''?skip'' (dst @ (if skip then ''?skip'' else [])) = skip \<and>
    trim_suffix ''?skip'' (dst @ (if skip then ''?skip'' else [])) = dst"
proof (cases skip)
  case True
  then show ?thesis using has_suffix_append trim_suffix_append by simp
next
  case False
  then show ?thesis using assms by (simp add: trim_suffix_def)
qed

lemma operator_text:
  assumes "CHR ''='' \<notin> set p" and "CHR ''='' \<notin> set b"
  shows "(if cut ''<='' (p @ (if le then ''<='' else ''>='') @ b) = None then ''>='' else ''<='') =
      (if le then ''<='' else ''>='')"
    and "cut (if le then ''<='' else ''>='') (p @ (if le then ''<='' else ''>='') @ b) = Some (p, b)"
proof -
  have "cut ''<='' (p @ ''>='' @ b) = None" using assms by (intro cut_pair_other) simp_all
  moreover have "cut ''<='' (p @ ''<='' @ b) = Some (p, b)" using assms(1) by (intro cut_pair) simp_all
  moreover have "cut ''>='' (p @ ''>='' @ b) = Some (p, b)" using assms(1) by (intro cut_pair) simp_all
  ultimately show
    "(if cut ''<='' (p @ (if le then ''<='' else ''>='') @ b) = None then ''>='' else ''<='') =
      (if le then ''<='' else ''>='')"
    "cut (if le then ''<='' else ''>='') (p @ (if le then ''<='' else ''>='') @ b) = Some (p, b)"
    by (cases le; simp del: append_Cons)+
qed



end
