(* ===== verification/Startup.thy ===== *)
theory Startup
  imports Screen Hostage Assertions
begin

text \<open>
  Starting up: \<^verbatim>\<open>packages/fragview/procroot.go\<close>, and from \<^verbatim>\<open>main.go\<close> the round of readers
  (\<^verbatim>\<open>collect\<close>), \<^verbatim>\<open>Init\<close>, \<^verbatim>\<open>View\<close> and what \<^verbatim>\<open>main\<close> does with its flags. The model and
  its steps are in \<open>Events\<close>; a \<open>program\<close> puts it together with the reporting around the map.
\<close>

section \<open>Page files\<close>

text \<open>
  \<^verbatim>\<open>openPageFile\<close>: the kernel's own file on the live machine, otherwise a collected copy,
  compressed or not. \<open>device\<close> opens the one, \<open>stored\<close> has the bytes of the other; \<open>gunzip\<close> is
  the decompressor.
\<close>

definition openPageFile ::
  "bool \<Rightarrow> (string \<Rightarrow> reader option) \<Rightarrow> (string \<Rightarrow> u8 list option) \<Rightarrow> (u8 list \<Rightarrow> u8 list go_result) \<Rightarrow>
   string \<Rightarrow> reader go_result" where
  "openPageFile live device stored gunzip rel =
     (if live then (case device rel of None \<Rightarrow> Inl (IOError ''open'') | Some rd \<Rightarrow> Inr rd)
      else
        (case stored (rel @ ''.gz'') of
           Some z \<Rightarrow> and_then (gunzip z) (\<lambda>b. Inr (bytes_read_at b))
         | None \<Rightarrow>
             (case stored rel of None \<Rightarrow> Inl (IOError ''open'') | Some b \<Rightarrow> Inr (bytes_read_at b))))"

section \<open>The world and the program\<close>

text \<open>
  What the program finds: the text files under its root, whether that root is \<^verbatim>\<open>/proc\<close>, the
  links of \<^verbatim>\<open>/sys/kernel/slab\<close>, the page files, the environment, the pixels of a cell and how
  \<^verbatim>\<open>sort.Slice\<close> orders the caches and the unclassified words.
\<close>

record world =
  wproc :: proc_fs
  wlive :: bool
  wlinks :: "dir_entry list option"
  wdevice :: "string \<Rightarrow> reader option"
  wstored :: "string \<Rightarrow> u8 list option"
  wgunzip :: "u8 list \<Rightarrow> u8 list go_result"
  wenv :: "string \<Rightarrow> string"
  wcellW :: int
  wcellH :: int
  wsortSlabs :: "(slab_cache \<Rightarrow> slab_cache \<Rightarrow> bool) \<Rightarrow> slab_cache list \<Rightarrow> slab_cache list"
  wsortWords :: "(u64 \<times> u64 \<Rightarrow> u64 \<times> u64 \<Rightarrow> bool) \<Rightarrow> unknowns \<Rightarrow> unknowns"

definition page_file :: "world \<Rightarrow> string \<Rightarrow> reader go_result" where
  "page_file w = openPageFile (wlive w) (wdevice w) (wstored w) (wgunzip w)"

text \<open>
  The frame of the source is \<open>frm\<close> of the model for the map and the view, and \<open>rep\<close> for the
  rest; the map and the block size of \<open>rep\<close> are taken from the model by \<open>report_of\<close>.
\<close>

record program =
  mdl :: model
  rep :: report_frame
  globals :: pkg_vars
  period_ms :: nat

definition report_of :: "program \<Rightarrow> report_frame" where
  "report_of P = (rep P)\<lparr>rf_map := m (frm (mdl P)), rf_pagesPerBlock := pagesPerBlock (frm (mdl P))\<rparr>"

definition blank_report :: "block_map \<Rightarrow> nat \<Rightarrow> string \<Rightarrow> report_frame" where
  "blank_report bm pages hst = \<lparr>rf_map = bm, rf_pagesPerBlock = pages, rf_ladder = no_ladder, rf_types = no_types,
     rf_slabs = [], rf_mem = [], rf_vm = [], rf_arc = [], rf_who = None, rf_sites = [], rf_whoTot = no_totals,
     rf_whoErr = [], rf_host = hst, rf_snapshot = [], rf_kernel = [], rf_taken = []\<rparr>"

section \<open>Collecting\<close>

text \<open>
  \<^verbatim>\<open>collect\<close>: everything is read, then everything is published. The sites are asked for only
  while the slab table is open, and an answer without sites leaves the old ones.
\<close>

definition collect :: "world \<Rightarrow> program \<Rightarrow> program" where
  "collect w P =
     (let proc = wproc w;
          ladder = fst (readBuddyinfo proc); types = fst (readPagetypeinfo proc);
          slb = fst (readSlabinfo (wsortSlabs w) proc);
          (who, tot, err) = readSlabwho proc;
          sites = (if focusSlab (frm (mdl P)) then readSites proc else [])
      in P\<lparr>rep := (rep P)\<lparr>rf_ladder := ladder, rf_types := types, rf_slabs := slb, rf_mem := readMeminfo proc,
             rf_vm := readVmstat proc, rf_arc := readARC proc, rf_who := who, rf_whoTot := tot, rf_whoErr := err,
             rf_sites := (if sites \<noteq> [] then sites else rf_sites (rep P))\<rparr>,
           globals := (globals P)\<lparr>cacheAliases := loadCacheAliases (wlive w) (wlinks w) proc\<rparr>\<rparr>)"

text \<open>A call of \<^verbatim>\<open>scan\<close> that runs through: \<open>scan_begin\<close>, \<open>scan_end\<close> and the readers.\<close>

definition run_scan :: "world \<Rightarrow> reader \<Rightarrow> program \<Rightarrow> program go_result" where
  "run_scan w rd P =
     and_then (scan_begin (mdl P)) (\<lambda>M.
       case inflight M of
         None \<Rightarrow> Inr (P\<lparr>mdl := M\<rparr>)
       | Some job \<Rightarrow>
           (let P' = P\<lparr>mdl := scan_end rd job M\<rparr>
            in Inr (if job = NoScan then P' else collect w P')))"

definition full_scan :: "world \<Rightarrow> reader \<Rightarrow> program \<Rightarrow> program go_result" where
  "full_scan w rd P = run_scan w rd (P\<lparr>mdl := (mdl P)\<lparr>wantFull := True\<rparr>\<rparr>)"

section \<open>Init and View\<close>

text \<open>\<^verbatim>\<open>Init\<close>: the model afterwards, and whether the first command is a scan.\<close>

definition Init :: "program \<Rightarrow> program \<times> bool" where
  "Init P =
     (if rf_snapshot (rep P) \<noteq> [] then (P, False)
      else (P\<lparr>mdl := (mdl P)\<lparr>wantFull := True\<rparr>\<rparr>, True))"

text \<open>\<^verbatim>\<open>strconv.Atoi\<close> with its error ignored: zero for what is no number, the bound beyond it.\<close>

definition atoi :: "string \<Rightarrow> int" where
  "atoi s =
     (let (neg, ds) = split_sign s; n = int (digits_val ds)
      in if ds = [] \<or> \<not> list_all is_digit ds then 0
         else if neg then max (- n) (- (2 ^ 63)) else min n (2 ^ 63 - 1))"

definition termSizeFallback :: "(string \<Rightarrow> string) \<Rightarrow> int \<times> int" where
  "termSizeFallback env =
     (let r = atoi (env ''LINES''); c = atoi (env ''COLUMNS'') in if r > 0 \<and> c > 0 then (r, c) else (0, 0))"

definition pane_input_of :: "world \<Rightarrow> int \<Rightarrow> program \<Rightarrow> pane_input" where
  "pane_input_of w swp P = \<lparr>reporting = report_of P, pkg = globals P,
     unknowns_seen = unknownSeen (wsortWords w) (unknownFlags (mdl P)), interval_ms = period_ms P, sweep_ms = swp\<rparr>"

definition draw_frame :: "world \<Rightarrow> bool \<Rightarrow> int \<Rightarrow> int \<Rightarrow> int \<Rightarrow> program \<Rightarrow> (line list \<times> program) go_result" where
  "draw_frame w due swp rows cols P =
     and_then (frame_lines (pane_input_of w swp P) due (wcellW w) (wcellH w) rows cols (frm (mdl P)))
       (\<lambda>(ls, f). Inr (ls, P\<lparr>mdl := (mdl P)\<lparr>frm := f\<rparr>\<rparr>))"

text \<open>\<^verbatim>\<open>View\<close>, for a terminal of \<open>rows\<close> and \<open>cols\<close>, zero while it has not said.\<close>

definition view_size :: "(string \<Rightarrow> string) \<Rightarrow> int \<Rightarrow> int \<Rightarrow> int \<times> int" where
  "view_size env rows cols =
     (if rows = 0 \<or> cols = 0
      then (let (r, c) = termSizeFallback env in if r = 0 then (40, 120) else (r, c))
      else (rows, cols))"

definition View :: "world \<Rightarrow> bool \<Rightarrow> int \<Rightarrow> int \<Rightarrow> int \<Rightarrow> program \<Rightarrow> (line list \<times> program) go_result" where
  "View w due swp rows cols P =
     (let (r, c) = view_size (wenv w) rows cols
      in if \<not> ready (mdl P) then Inr ([plain (''reading /proc/kpageflags'' @ utf8 0x2026)], P)
         else draw_frame w due swp r c P)"

section \<open>Snapshots to and from files\<close>

text \<open>
  \<^verbatim>\<open>writeSnapshot\<close>: \<open>creates\<close> says whether the file can be made and written. What ends up in it
  is the snapshot, in a form that \<open>json_back\<close> describes.
\<close>

definition writeSnapshot :: "world \<Rightarrow> (string \<Rightarrow> bool) \<Rightarrow> program \<Rightarrow> string \<Rightarrow> string \<Rightarrow> snapshot go_result" where
  "writeSnapshot w creates P path lbl =
     (if \<not> creates path then Inl (IOError ''create'')
      else toSnapshot (globals P) (wproc w) (unknownSeen (wsortWords w) (unknownFlags (mdl P))) lbl (report_of P))"

section \<open>Main\<close>

record options =
  oInterval :: nat
  oShare :: int
  oOnce :: bool
  oSlab :: bool
  oSort :: int
  oFlags :: bool
  oHostage :: bool
  oDump :: string
  oLoad :: string
  oLabel :: string
  oStamp :: string
  oCmp :: bool
  oOrder :: string
  oCompare :: compare_opts
  oArgs :: "string list"

datatype main_result =
    Quit int
  | Compared int "build_group list" "verdict list"
  | FlagTable "dump_row list"
  | Reported hostage_report
  | Dumped string snapshot "line"
  | Printed "line list"
  | Runs program bool

lemma cut_comma_shorter: "cut '','' t = Some p \<Longrightarrow> length (snd p) < length t"
proof (induction t arbitrary: p)
  case Nil
  then show ?case by (simp add: cut_none)
next
  case (Cons c t)
  show ?case
  proof (cases "c = CHR '',''")
    case True
    then show ?thesis using Cons.prems cut_here [of "'',''" t] by auto
  next
    case False
    then show ?thesis using Cons by (fastforce simp: cut_skip_char)
  qed
qed

function split_commas :: "string \<Rightarrow> string list" where
  "split_commas s =
     (case cut '','' s of None \<Rightarrow> [s] | Some (a, b) \<Rightarrow> a # split_commas b)"
  by pat_completeness auto
termination
proof (relation "measure length", goal_cases)
  case 1
  show ?case by simp
next
  case (2 s p a b)
  then show ?case using cut_comma_shorter [of s p] by (cases p) simp
qed

declare split_commas.simps [simp del]

text \<open>\<^verbatim>\<open>showFrame\<close>: one frame on standard output, or the program.\<close>

definition showFrame :: "world \<Rightarrow> bool \<Rightarrow> program \<Rightarrow> main_result go_result" where
  "showFrame w once P =
     (if once
      then (let (r, c) = termSizeFallback (wenv w); (rows, cols) = (if r > 0 then (r, c) else (50, 200))
            in and_then (draw_frame w True 0 rows cols P) (\<lambda>(ls, P'). Inr (Printed ls)))
      else (let (P', go) = Init P in Inr (Runs P' go)))"

text \<open>The frame of a snapshot on a model that is ready, and the flags that apply to it.\<close>

definition loaded :: "world \<Rightarrow> options \<Rightarrow> report_frame \<Rightarrow> pkg_vars \<Rightarrow> program" where
  "loaded w opt f vars' =
     (let fr = start_frame (rf_map f) (rf_pagesPerBlock f) (oShare opt) (oSlab opt) (oSort opt) (kittyAvailable (wenv w))
      in \<lparr>mdl = (start_model fr)\<lparr>ready := True, wantFull := False\<rparr>, rep = f, globals = vars', period_ms = oInterval opt\<rparr>)"

definition load_snapshot :: "world \<Rightarrow> pkg_vars \<Rightarrow> options \<Rightarrow> snapshot option \<Rightarrow> main_result go_result" where
  "load_snapshot w vars0 opt file =
     (case file of
        None \<Rightarrow> Inr (Quit 1)
      | Some s \<Rightarrow>
          (case readSnapshot vars0 s of
             Inl _ \<Rightarrow> Inr (Quit 1)
           | Inr (f, vars') \<Rightarrow>
               (let P = loaded w opt f vars'
                in if oHostage opt then Inr (Reported (hostageReport (abdMovable vars') (frm (mdl P))))
                   else showFrame w (oOnce opt) P)))"

definition pages_per_block :: "proc_fs \<Rightarrow> nat" where
  "pages_per_block proc = (let k = unat (readPageblockOrder proc) in if k < 64 then 2 ^ k else 0)"

definition live_map :: "world \<Rightarrow> (block_map \<times> reader) go_result" where
  "live_map w =
     and_then (readRAMRanges (wproc w)) (\<lambda>rs.
     and_then (page_file w ''kpageflags'') (\<lambda>rd.
     and_then (newBlockMap (pages_per_block (wproc w)) (Inr rs)) (\<lambda>bm. Inr (bm, rd))))"

definition live_program :: "world \<Rightarrow> pkg_vars \<Rightarrow> options \<Rightarrow> block_map \<Rightarrow> program" where
  "live_program w vars0 opt bm =
     (let pages = pages_per_block (wproc w);
          fr = start_frame bm pages (oShare opt) (oSlab opt) (oSort opt) (kittyAvailable (wenv w))
      in \<lparr>mdl = (start_model fr)\<lparr>wantFull := False\<rparr>, rep = blank_report bm pages (hostname (wproc w)),
          globals = vars0\<lparr>zfsNames := nameClassesForHost (readARC (wproc w) \<noteq> []) (zfsNames vars0),
                          abdMovable := abdRelocationBuilt (wproc w)\<rparr>,
          period_ms = oInterval opt\<rparr>)"

definition with_sites :: "world \<Rightarrow> program \<Rightarrow> program" where
  "with_sites w P = P\<lparr>rep := (rep P)\<lparr>rf_sites := readSites (wproc w)\<rparr>\<rparr>"

definition dump_line :: "string \<Rightarrow> program \<Rightarrow> line" where
  "dump_line path P =
     (let f = frm (mdl P)
      in plain (path @ '': '' @ decimal (nblocks (m f)) @ '' blocks, '' @ decimal (hostages f) @
           '' hostage, pinning '' @ pages_text (hostageFree f)))"

definition dump_to :: "world \<Rightarrow> (string \<Rightarrow> bool) \<Rightarrow> options \<Rightarrow> program \<Rightarrow> main_result go_result" where
  "dump_to w creates opt P =
     (let P' = P\<lparr>rep := (rep P)\<lparr>rf_taken := oStamp opt\<rparr>,
                 mdl := (mdl P)\<lparr>frm := frame_summarise (abdMovable (globals P)) (frm (mdl P))\<rparr>\<rparr>
      in (case writeSnapshot w creates P' (oDump opt) (oLabel opt) of
            Inl e \<Rightarrow> (case e of IOError _ \<Rightarrow> Inr (Quit 1) | _ \<Rightarrow> Inl e)
          | Inr s \<Rightarrow> Inr (Dumped (oDump opt) s (dump_line (oDump opt) P'))))"

definition live_run ::
  "world \<Rightarrow> (string \<Rightarrow> bool) \<Rightarrow> (hist \<Rightarrow> hist) \<Rightarrow> options \<Rightarrow> block_map \<Rightarrow> reader \<Rightarrow> program \<Rightarrow> main_result go_result" where
  "live_run w creates order opt bm rd P =
     (if oFlags opt
      then Inr (FlagTable (dumpFlags order rd
             (case page_file w ''kpagecount'' of Inl _ \<Rightarrow> None | Inr crd \<Rightarrow> Some crd) bm 40))
      else if oHostage opt
      then and_then (full_scan w rd P) (\<lambda>P1.
             let P2 = with_sites w P1
             in Inr (Reported (hostageReport (abdMovable (globals P2)) (frm (mdl P2)))))
      else if oDump opt \<noteq> []
      then and_then (full_scan w rd P) (\<lambda>P1.
             dump_to w creates opt (with_sites w P1))
      else if oOnce opt
      then and_then (full_scan w rd P) (\<lambda>P1. showFrame w True (P1\<lparr>mdl := (mdl P1)\<lparr>ready := True\<rparr>\<rparr>))
      else showFrame w False P)"

text \<open>
  \<^verbatim>\<open>main\<close> after the flags are parsed. \<open>files\<close> has the snapshot that a path leads to, \<open>creates\<close>
  the paths that can be written and \<open>order\<close> the iteration order of the histogram.
\<close>

definition main_run ::
  "world \<Rightarrow> pkg_vars \<Rightarrow> (string \<Rightarrow> snapshot option) \<Rightarrow> (string \<Rightarrow> bool) \<Rightarrow> (hist \<Rightarrow> hist) \<Rightarrow> options \<Rightarrow>
   main_result go_result" where
  "main_run w vars0 files creates order opt =
     (if oCmp opt
      then (if oArgs opt = [] then Inr (Quit 1)
            else (let cols = (if oOrder opt = [] then [] else split_commas (oOrder opt));
                      (status, gs, vs) = compareSnapshots vars0 creates (map files (oArgs opt))
                        ((oCompare opt)\<lparr>co_order := cols\<rparr>)
                  in Inr (Compared status gs vs)))
      else if oLoad opt \<noteq> [] then load_snapshot w vars0 opt (files (oLoad opt))
      else
        (case live_map w of
           Inl DivideByZero \<Rightarrow> Inl DivideByZero
         | Inl _ \<Rightarrow> Inr (Quit 1)
         | Inr (bm, rd) \<Rightarrow> live_run w creates order opt bm rd (live_program w vars0 opt bm)))"

section \<open>What main starts\<close>

lemma start_frame_fields [simp]:
  "m (start_frame bm pages shr slab order kitty) = bm"
  "focusSlab (start_frame bm pages shr slab order kitty) = slab"
  "pagesPerBlock (start_frame bm pages shr slab order kitty) = pages"
  by (simp_all add: start_frame_def)

lemma start_frame_ok:
  assumes "map_ok bm" and "1 \<le> shr" and "0 \<le> order"
  shows "frame_ok (nblocks bm) (start_frame bm pages shr slab order kitty)"
    and "ever_painted True (start_frame bm pages shr slab order kitty)"
  using assms
  by (auto simp: start_frame_def frame_ok_def window_ok_def rest_ok_def smod_nonneg nSorts_def map_ok_def ever_painted_def)

lemma readSnapshot_map:
  "readSnapshot vars0 s = Inr (f, vars') \<Longrightarrow> map_ok (rf_map f) \<and> ranges (rf_map f) = [] \<and> rf_snapshot f = snLabel s"
  by (auto simp: readSnapshot_def map_ok_def split: if_splits option.splits)

lemma showFrame_runs:
  "showFrame w once P = Inr (Runs P' go) \<Longrightarrow> \<not> once \<and> (P', go) = Init P"
  by (auto simp: showFrame_def and_then_Inr_iff split: if_splits prod.splits)

lemma dump_to_ends: "dump_to w creates opt P \<noteq> Inr (Runs P' go)"
  by (simp add: dump_to_def Let_def split: sum.split go_error.split)

lemma load_runs:
  assumes "load_snapshot w vars0 opt file = Inr (Runs P go)"
  obtains s f vars' where "file = Some s" "readSnapshot vars0 s = Inr (f, vars')"
    "(P, go) = Init (loaded w opt f vars')"
  using assms showFrame_runs [of w "oOnce opt"]
  by (auto simp: load_snapshot_def Let_def split: option.splits sum.splits if_splits prod.splits)

lemma live_runs:
  assumes "live_run w creates order opt bm rd P0 = Inr (Runs P go)"
  shows "(P, go) = Init P0"
  using assms showFrame_runs [of w False P0 P go] showFrame_runs [of w True _ P go] dump_to_ends [of w creates opt _ P go]
  by (auto simp: live_run_def Let_def and_then_Inr_iff split: if_splits)

lemma main_runs:
  assumes "main_run w vars0 files creates order opt = Inr (Runs P go)"
  obtains
    (snap) s f vars' where "oLoad opt \<noteq> []" "files (oLoad opt) = Some s" "readSnapshot vars0 s = Inr (f, vars')"
      "(P, go) = Init (loaded w opt f vars')"
  | (live) bm rd where "oLoad opt = []" "live_map w = Inr (bm, rd)" "(P, go) = Init (live_program w vars0 opt bm)"
proof (cases "oLoad opt = []")
  case False
  then have "load_snapshot w vars0 opt (files (oLoad opt)) = Inr (Runs P go)"
    using assms by (auto simp: main_run_def split: if_splits prod.splits)
  then show ?thesis by (rule load_runs) (use False snap in blast)
next
  case True
  then show ?thesis
    using assms live live_runs
    by (auto simp: main_run_def split: if_splits prod.splits sum.splits go_error.splits)
qed

lemma live_map_ok: "live_map w = Inr (bm, rd) \<Longrightarrow> map_ok bm"
  by (auto simp: live_map_def and_then_Inr_iff intro: newBlockMap_ok)

lemma Init_fields:
  assumes "(P, go) = Init P0"
  shows "frm (mdl P) = frm (mdl P0)" "rep P = rep P0" "globals P = globals P0" "go = (rf_snapshot (rep P0) = [])"
    "wantFull (mdl P) = (go \<or> wantFull (mdl P0))" "ready (mdl P) = ready (mdl P0)"
    "inflight (mdl P) = inflight (mdl P0)"
  using assms by (auto simp: Init_def split: if_splits)

lemma main_starts_frame:
  assumes "main_run w vars0 files creates order opt = Inr (Runs P go)" and "1 \<le> oShare opt" and "0 \<le> oSort opt"
  shows "frame_ok (nblocks (m (frm (mdl P)))) (frm (mdl P))" and "map_ok (m (frm (mdl P)))"
    and "ever_painted True (frm (mdl P))" and "inflight (mdl P) = None"
proof -
  have "\<exists>bm hst slab kitty. map_ok bm \<and> frm (mdl P) = start_frame bm hst (oShare opt) slab (oSort opt) kitty \<and>
      inflight (mdl P) = None"
    using assms(1)
  proof (cases rule: main_runs)
    case (snap s f vars')
    note I = Init_fields [OF snap(4)]
    show ?thesis using readSnapshot_map [OF snap(3)] by (auto simp: I loaded_def Let_def start_model_def)
  next
    case (live bm rd)
    note I = Init_fields [OF live(3)]
    show ?thesis using live_map_ok [OF live(2)] by (auto simp: I live_program_def Let_def start_model_def)
  qed
  then obtain bm hst slab kitty where bm: "map_ok bm" "inflight (mdl P) = None"
    and f: "frm (mdl P) = start_frame bm hst (oShare opt) slab (oSort opt) kitty" by blast
  show "frame_ok (nblocks (m (frm (mdl P)))) (frm (mdl P))" "map_ok (m (frm (mdl P)))"
    "ever_painted True (frm (mdl P))" "inflight (mdl P) = None"
    using start_frame_ok [OF bm(1) assms(2,3)] bm by (simp_all add: f)
qed

lemma main_starts_live:
  assumes "main_run w vars0 files creates order opt = Inr (Runs P go)" and "oLoad opt = []"
  shows "go" "wantFull (mdl P)" "\<not> ready (mdl P)" "types_ok (rf_types (rep P))" "0 < nblocks (m (frm (mdl P)))"
proof -
  obtain bm rd where live: "live_map w = Inr (bm, rd)" "(P, go) = Init (live_program w vars0 opt bm)"
    using assms main_runs by metis
  note I = Init_fields [OF live(2)]
  have "0 < nblocks bm"
    using live(1) by (auto simp: live_map_def and_then_Inr_iff newBlockMap_def Let_def split: if_splits)
  then show "go" "wantFull (mdl P)" "\<not> ready (mdl P)" "types_ok (rf_types (rep P))" "0 < nblocks (m (frm (mdl P)))"
    by (simp_all add: I live_program_def Let_def start_model_def blank_report_def types_ok_def no_types_def)
qed


section \<open>A snapshot without a label\<close>

lemma refresh_empty:
  assumes "ranges b = []" and "lo \<le> blk" and "hi \<le> lo + length dst"
  shows "\<exists>dst'. refresh_loop rd b pp buflen lo hi blk dst unk = (dst', unk, None) \<and> length dst' = length dst \<and>
    (\<forall>i < length dst. dst' ! i = (if blk - lo \<le> i \<and> i < hi - lo then zero_counts else dst ! i))"
  using assms(2,3)
proof (induction "hi - blk" arbitrary: blk dst)
  case 0
  then show ?case by (subst refresh_loop.simps) auto
next
  case (Suc k)
  have step: "refresh_step rd b pp buflen lo hi blk dst unk = Inr (Suc blk, dst[blk - lo := zero_counts], unk)"
    using assms(1) by (simp add: refresh_step_def Let_def inRAM_def)
  have k: "k = hi - Suc blk" using Suc.hyps(2) by simp
  have "\<exists>dst'. refresh_loop rd b pp buflen lo hi (Suc blk) (dst[blk - lo := zero_counts]) unk = (dst', unk, None) \<and>
    length dst' = length (dst[blk - lo := zero_counts]) \<and> (\<forall>i < length (dst[blk - lo := zero_counts]).
      dst' ! i = (if Suc blk - lo \<le> i \<and> i < hi - lo then zero_counts else dst[blk - lo := zero_counts] ! i))"
    by (rule Suc.hyps(1) [OF k]) (use Suc.prems in simp_all)
  then obtain dst' where d: "refresh_loop rd b pp buflen lo hi (Suc blk) (dst[blk - lo := zero_counts]) unk = (dst', unk, None)"
    "length dst' = length dst"
    "\<forall>i < length dst. dst' ! i = (if Suc blk - lo \<le> i \<and> i < hi - lo then zero_counts else dst[blk - lo := zero_counts] ! i)"
    by (simp only: length_list_update) blast
  have "refresh_loop rd b pp buflen lo hi blk dst unk = (dst', unk, None)"
    using Suc.hyps(2) d(1) by (subst refresh_loop.simps) (auto simp: step)
  moreover have "dst' ! i = (if blk - lo \<le> i \<and> i < hi - lo then zero_counts else dst ! i)" if "i < length dst" for i
    using d(3) that Suc.prems Suc.hyps(2) by (cases "i = blk - lo") auto
  ultimately show ?case using d(2) by blast
qed

lemma scanRange_empty:
  assumes "ranges (m (frm M)) = []" and "map_ok (m (frm M))"
  shows "counts (m (frm (scanRange rd 0 (int (nblocks (m (frm M)))) M))) = replicate (nblocks (m (frm M))) zero_counts"
proof -
  let ?b = "m (frm M)" and ?n = "nblocks (m (frm M))"
  have len: "length (counts ?b) = ?n" using assms(2) by (simp add: map_ok_def)
  show ?thesis
  proof (cases "?n = 0")
    case True
    then show ?thesis using len by (simp add: scanRange_def)
  next
    case False
    define scr where "scr = (if int (length (scratch M)) < int ?n then replicate ?n zero_counts else scratch M)"
    have scr: "?n \<le> length scr" by (simp add: scr_def)
    obtain dst' where d: "refresh_loop rd ?b (ppb M) readBuf 0 ?n 0 scr [] = (dst', [], None)"
      "length dst' = length scr" "\<forall>i < length scr. dst' ! i = (if i < ?n then zero_counts else scr ! i)"
      using refresh_empty [OF assms(1), of 0 0 ?n scr rd "ppb M" readBuf "[]"] scr by auto
    have "refreshInto rd ?b 0 (int ?n) (ppb M) scr readBuf = (dst', [], None)"
      using d(1) scr by (simp add: refreshInto_def Let_def)
    then have "counts (m (frm (scanRange rd 0 (int ?n) M))) = take ?n dst'"
      using False len by (cases "length (scratch M) < ?n") (simp_all add: scanRange_def Let_def scr_def publish_def)
    also have "\<dots> = replicate ?n zero_counts"
      using d(2,3) scr by (intro nth_equalityI) simp_all
    finally show ?thesis .
  qed
qed

lemma collect_fields [simp]:
  "mdl (collect w P) = mdl P" "rf_mem (rep (collect w P)) = readMeminfo (wproc w)"
  "rf_slabs (rep (collect w P)) = fst (readSlabinfo (wsortSlabs w) (wproc w))"
  "globals (collect w P) = (globals P)\<lparr>cacheAliases := loadCacheAliases (wlive w) (wlinks w) (wproc w)\<rparr>"
  by (simp_all add: collect_def Let_def split: prod.split)

lemma run_full:
  assumes "wantFull (mdl P)"
  shows "\<exists>P'. run_scan w rd P = Inr P' \<and> mdl P' = scan_end rd FullSweep ((mdl P)\<lparr>wantFull := False, inflight := Some FullSweep\<rparr>) \<and>
    P' = collect w (P\<lparr>mdl := mdl P'\<rparr>)"
  using assms by (simp add: run_scan_def scan_begin_def Let_def)

text \<open>
  C26. A snapshot that was dumped without \<^verbatim>\<open>-label\<close> does not survive being looked at: \<^verbatim>\<open>Init\<close> takes
  the empty label for a live machine and starts a scan, which wipes every counter of the map,
  since a snapshot has no memory ranges, and puts the counters of the machine it is looked at
  on in place of the ones it came with.
\<close>

theorem unlabelled_snapshot_is_wiped:
  assumes "main_run w vars0 files creates order opt = Inr (Runs P go)" and "oLoad opt \<noteq> []"
    and "files (oLoad opt) = Some s" and "snLabel s = []"
  shows "go \<and> (\<forall>rd. \<exists>P'. run_scan w rd P = Inr P' \<and>
    counts (m (frm (mdl P'))) = replicate (nblocks (m (frm (mdl P)))) zero_counts \<and>
    rf_mem (rep P') = readMeminfo (wproc w))"
  using assms(1)
proof (cases rule: main_runs)
  case live
  then show ?thesis using assms(2) by simp
next
  case (snap s' f vars')
  note I = Init_fields [OF snap(4)]
  have s: "s' = s" using snap(2) assms(3) by simp
  have M: "map_ok (rf_map f)" "ranges (rf_map f) = []" "rf_snapshot f = []"
    using readSnapshot_map [OF snap(3)] assms(4) by (simp_all add: s)
  then have go: "go" "wantFull (mdl P)" "m (frm (mdl P)) = rf_map f"
    by (simp_all add: I loaded_def Let_def start_model_def)
  have "\<exists>P'. run_scan w rd P = Inr P' \<and> counts (m (frm (mdl P'))) = replicate (nblocks (rf_map f)) zero_counts \<and>
      rf_mem (rep P') = readMeminfo (wproc w)" for rd
  proof -
    let ?M = "(mdl P)\<lparr>wantFull := False, inflight := Some FullSweep\<rparr>"
    obtain P' where P': "run_scan w rd P = Inr P'" "mdl P' = scan_end rd FullSweep ?M" "P' = collect w (P\<lparr>mdl := mdl P'\<rparr>)"
      using run_full [OF go(2)] by blast
    have "counts (m (frm (mdl P'))) = replicate (nblocks (rf_map f)) zero_counts"
      using scanRange_empty [of ?M rd] M go(3) unfolding P'(2) by (simp add: scan_end_def Let_def)
    moreover have "rf_mem (rep P') = readMeminfo (wproc w)" by (subst P'(3)) simp
    ultimately show ?thesis using P'(1) by blast
  qed
  then show ?thesis using go by simp
qed

section \<open>From the machine to the host\<close>

lemma scanRange_map_ok:
  assumes "map_ok (m (frm M))"
  shows "map_ok (m (frm (scanRange rd 0 (int (nblocks (m (frm M)))) M)))"
proof -
  have "length (fst (refreshInto rd (m (frm M)) 0 (int n) (ppb M) scr readBuf)) = length scr" for n scr
    by (rule length_refreshInto)
  then show ?thesis
    using assms by (auto simp: scanRange_def Let_def case_prod_beta publish_def map_ok_def)
qed

lemma full_scan_does:
  assumes "full_scan w rd P = Inr P1"
  shows "P1 = collect w (P\<lparr>mdl := mdl P1\<rparr>)" and "map_ok (m (frm (mdl P))) \<Longrightarrow> map_ok (m (frm (mdl P1)))"
proof -
  let ?P = "P\<lparr>mdl := (mdl P)\<lparr>wantFull := True\<rparr>\<rparr>"
  let ?M = "(mdl ?P)\<lparr>wantFull := False, inflight := Some FullSweep\<rparr>"
  have P1: "mdl P1 = scan_end rd FullSweep ?M" "P1 = collect w (?P\<lparr>mdl := mdl P1\<rparr>)"
    using run_full [of ?P w rd] assms by (auto simp: full_scan_def)
  show "P1 = collect w (P\<lparr>mdl := mdl P1\<rparr>)" using P1(2) by simp
  show "map_ok (m (frm (mdl P1)))" if "map_ok (m (frm (mdl P)))"
    using scanRange_map_ok [of ?M rd] that unfolding P1(1) by (simp add: scan_end_def Let_def)
qed

lemma collect_no_empty:
  "rf_who (rep (collect w P)) \<noteq> Some []" "cacheAliases (globals (collect w P)) \<noteq> Some []"
  by (auto simp: collect_def Let_def readSlabwho_def loadCacheAliases_def split: option.splits prod.splits if_splits)

lemma writeSnapshot_Inr:
  "writeSnapshot w creates P path lbl = Inr s \<Longrightarrow>
   toSnapshot (globals P) (wproc w) (unknownSeen (wsortWords w) (unknownFlags (mdl P))) lbl (report_of P) = Inr s"
  by (simp add: writeSnapshot_def split: if_splits)

lemma main_dumps:
  assumes "main_run w vars0 files creates order opt = Inr (Dumped path s out)"
  obtains bm rd P1 where "live_map w = Inr (bm, rd)" "full_scan w rd (live_program w vars0 opt bm) = Inr P1"
    "dump_to w creates opt (with_sites w P1) = Inr (Dumped path s out)"
proof -
  have no_show: "showFrame w' once P \<noteq> Inr (Dumped path s out)" for w' once P
    by (auto simp: showFrame_def and_then_Inr_iff split: if_splits prod.splits)
  then have no_load: "load_snapshot w vars0 opt sf \<noteq> Inr (Dumped path s out)" for sf
    by (auto simp: load_snapshot_def Let_def split: option.splits sum.splits if_splits prod.splits)
  obtain bm rd where live: "live_map w = Inr (bm, rd)"
    and run: "live_run w creates order opt bm rd (live_program w vars0 opt bm) = Inr (Dumped path s out)"
    using assms no_load by (auto simp: main_run_def split: if_splits prod.splits sum.splits go_error.splits)
  then show ?thesis
    using that no_show by (auto simp: live_run_def Let_def and_then_Inr_iff split: if_splits)
qed

lemma summarise_keeps_map [simp]:
  "m (frame_summarise mv fr) = m fr" "pagesPerBlock (frame_summarise mv fr) = pagesPerBlock fr"
  by (simp_all add: frame_summarise_def Let_def split: prod.split)

lemma report_of_dumped:
  "report_of (P\<lparr>rep := (rep P)\<lparr>rf_taken := t\<rparr>, mdl := (mdl P)\<lparr>frm := frame_summarise mv (frm (mdl P))\<rparr>\<rparr>) =
   (report_of P)\<lparr>rf_taken := t\<rparr>"
  by (rule report_frame.equality) (simp_all add: report_of_def)

lemma dump_to_snapshot:
  assumes "dump_to w creates opt P = Inr (Dumped path s out)"
  shows "\<exists>unseen. toSnapshot (globals P) (wproc w) unseen (oLabel opt) ((report_of P)\<lparr>rf_taken := oStamp opt\<rparr>) = Inr s"
  using assms
  by (auto simp: dump_to_def Let_def report_of_dumped split: sum.splits go_error.splits dest!: writeSnapshot_Inr)

text \<open>
  C25. What \<^verbatim>\<open>-dump\<close> writes on the machine is what \<^verbatim>\<open>-load\<close> shows on the host, whatever machine that
  is: the program starts on a frame with the counters of the full scan, the same reporting and the
  same verdict on every block, labelled as asked; and it leaves the host alone, that is, does not
  start to scan, exactly if there is a label.
\<close>

theorem dump_then_load:
  assumes "main_run w vars0 files creates order opt = Inr (Dumped path s out)"
    and "oLoad opt' \<noteq> []" and "files' (oLoad opt') = Some (json_back s)"
    and "\<not> oCmp opt'" and "\<not> oHostage opt'" and "\<not> oOnce opt'"
  shows "\<exists>bm rd P1 P. live_map w = Inr (bm, rd) \<and> full_scan w rd (live_program w vars0 opt bm) = Inr P1 \<and>
    main_run w' vars0' files' creates' order' opt' = Inr (Runs P (oLabel opt = [])) \<and>
    counts (m (frm (mdl P))) = counts (m (frm (mdl P1))) \<and>
    views (frame_summarise (abdMovable (globals P)) (frm (mdl P))) =
      views (frame_summarise (abdMovable (globals P1)) (frm (mdl P1))) \<and>
    rep P = (report_of (with_sites w P1))\<lparr>rf_map := m (frm (mdl P)), rf_snapshot := oLabel opt,
      rf_kernel := rf_kernel (rep P), rf_taken := []\<rparr>"
  using assms(1)
proof (cases rule: main_dumps)
  case (1 bm rd P1)
  let ?P2 = "with_sites w P1"
  note scan = full_scan_does [OF 1(2)]
  have map1: "map_ok (m (frm (mdl P1)))"
    using scan(2) live_map_ok [OF 1(1)] by (simp add: live_program_def Let_def start_model_def)
  define f where "f = (report_of ?P2)\<lparr>rf_taken := oStamp opt\<rparr>"
  obtain unseen where s: "toSnapshot (globals ?P2) (wproc w) unseen (oLabel opt) f = Inr s"
    using dump_to_snapshot [OF 1(3)] unfolding f_def by blast
  have "rf_who (rep P1) \<noteq> Some []" "cacheAliases (globals P1) \<noteq> Some []"
    by (subst scan(1), rule collect_no_empty)+
  then have who: "rf_who f \<noteq> Some []" "cacheAliases (globals ?P2) \<noteq> Some []"
    by (simp_all add: f_def report_of_def with_sites_def)
  have mapf: "map_ok (rf_map f)" using map1 by (simp add: f_def report_of_def with_sites_def)
  obtain kr where r: "readSnapshot vars0' (json_back s) =
      Inr (f\<lparr>rf_map := (rf_map f)\<lparr>ranges := []\<rparr>, rf_snapshot := oLabel opt, rf_kernel := kr, rf_taken := []\<rparr>,
        \<lparr>cacheAliases = cacheAliases (globals ?P2),
         zfsNames = nameClassesForHost (rf_arc f \<noteq> []) (zfsNames vars0'), abdMovable = abdMovable (globals ?P2)\<rparr>)"
    (is "_ = Inr (?f, ?v)")
    using readSnapshot_toSnapshot [OF mapf who s, of vars0'] by blast
  let ?P0 = "loaded w' opt' ?f ?v"
  define P go where "P = fst (Init ?P0)" and "go = snd (Init ?P0)"
  then have I: "(P, go) = Init ?P0" by simp
  have run: "main_run w' vars0' files' creates' order' opt' = Inr (Runs P go)"
    using assms(2-6) r by (simp add: main_run_def I [symmetric] load_snapshot_def showFrame_def split: prod.split)
  note F = Init_fields [OF I]
  have G: "go = (oLabel opt = [])" "rep P = ?f" "m (frm (mdl P)) = (m (frm (mdl P1)))\<lparr>ranges := []\<rparr>"
    "abdMovable (globals P) = abdMovable (globals P1)"
    by (simp_all add: F loaded_def Let_def start_model_def f_def report_of_def with_sites_def)
  have "map_ok ((m (frm (mdl P1)))\<lparr>ranges := []\<rparr>)" using map1 by (simp add: map_ok_def)
  then have "views (frame_summarise (abdMovable (globals P)) (frm (mdl P))) =
      views (frame_summarise (abdMovable (globals P1)) (frm (mdl P1)))"
    using map1 by (simp add: frame_summarise_eq G)
  moreover have "rep P = (report_of ?P2)\<lparr>rf_map := m (frm (mdl P)), rf_snapshot := oLabel opt,
      rf_kernel := rf_kernel (rep P), rf_taken := []\<rparr>"
    unfolding G by (rule report_frame.equality) (simp_all add: f_def report_of_def with_sites_def)
  moreover have "counts (m (frm (mdl P))) = counts (m (frm (mdl P1)))" by (simp add: G)
  ultimately show ?thesis using 1(1,2) run unfolding G(1) by blast
qed

section \<open>Examples\<close>

text \<open>A collected copy of a machine with one block of memory.\<close>

definition sample_world :: world where
  "sample_world = \<lparr>wproc = (\<lambda>f. if f = ''iomem'' then Some (unlines [''0-1fffff : System RAM'']) else None),
     wlive = False, wlinks = None, wdevice = (\<lambda>_. None),
     wstored = (\<lambda>f. if f = ''kpageflags'' then Some [0, 4, 0, 0, 0, 0, 0, 0] else None), wgunzip = Inr,
     wenv = (\<lambda>_. []), wcellW = 8, wcellH = 16, wsortSlabs = slice_isort, wsortWords = slice_isort\<rparr>"

definition sample_options :: options where
  "sample_options = \<lparr>oInterval = 500, oShare = 8, oOnce = False, oSlab = False, oSort = 0, oFlags = False,
     oHostage = False, oDump = [], oLoad = [], oLabel = [], oStamp = [], oCmp = False, oOrder = [],
     oCompare = \<lparr>co_order = [], co_expect = [], txtOut = [], mdOut = [], jsonOut = []\<rparr>, oArgs = []\<rparr>"

lemma sample_ram_line: "ram_line ''0-1fffff : System RAM'' = Some \<lparr>first = 0, last = 511\<rparr>"
proof -
  have "trim_space ''0-1fffff : System RAM'' = ''0-1fffff : System RAM''"
    by (simp add: trim_space_def is_space_def)
  moreover have "cut '' :'' ''0-1fffff : System RAM'' = Some (''0-1fffff'', '' System RAM'')"
    using cut_first [of "CHR '' ''" "''0-1fffff''" "'':''" "'' System RAM''"] by simp
  moreover have "cut ''-'' ''0-1fffff'' = Some (''0'', ''1fffff'')"
    using cut_char [of "CHR ''-''" "''0''" "''1fffff''"] by simp
  moreover have "parse_uint 16 ''0'' = (0, True)" "parse_uint 16 ''1fffff'' = (2097151, True)"
    by (simp_all add: parse_uint_def digit_val_def)
  ultimately show ?thesis by (simp add: ram_line_def has_suffix_def has_prefix_def)
qed

lemma sample_ranges_read: "readRAMRanges (wproc sample_world) = Inr [\<lparr>first = 0, last = 511\<rparr>]"
  by (simp add: sample_world_def readRAMRanges_def scan_unlines line_ok_def List.map_filter_def sample_ram_line
    del: unlines_def)

lemma sample_page_files:
  "page_file sample_world f =
   (if f = ''kpageflags'' then Inr (bytes_read_at [0, 4, 0, 0, 0, 0, 0, 0]) else Inl (IOError ''open''))"
  by (auto simp: page_file_def openPageFile_def sample_world_def)

lemma sample_live: "\<exists>bm rd. live_map sample_world = Inr (bm, rd)"
proof -
  have "pages_per_block (wproc sample_world) = 512"
    by (simp add: pages_per_block_def readPageblockOrder_def sample_world_def)
  then show ?thesis
    by (simp add: live_map_def sample_ranges_read sample_page_files newBlockMap_def Let_def)
qed

lemma sample_runs:
  "\<exists>P. main_run sample_world sample_vars files creates order sample_options = Inr (Runs P True)"
proof -
  obtain bm rd where "live_map sample_world = Inr (bm, rd)" using sample_live by blast
  then show ?thesis
    by (simp add: main_run_def sample_options_def live_run_def showFrame_def Init_def live_program_def Let_def
      blank_report_def)
qed


definition dump_options :: "string \<Rightarrow> options" where
  "dump_options lbl = sample_options\<lparr>oDump := ''guest.json.gz'', oLabel := lbl\<rparr>"

definition load_options :: options where
  "load_options = sample_options\<lparr>oLoad := ''guest.json.gz''\<rparr>"

lemma load_options_fields [simp]:
  "oLoad load_options = ''guest.json.gz''" "\<not> oCmp load_options" "\<not> oHostage load_options" "\<not> oOnce load_options"
  by (simp_all add: load_options_def sample_options_def)

lemma sample_dump:
  "\<exists>s out. main_run sample_world sample_vars (\<lambda>_. None) (\<lambda>_. True) id (dump_options lbl) =
     Inr (Dumped ''guest.json.gz'' s out)"
proof -
  obtain bm rd where live: "live_map sample_world = Inr (bm, rd)" using sample_live by blast
  let ?P = "live_program sample_world sample_vars (dump_options lbl) bm"
  obtain P1 where P1: "full_scan sample_world rd ?P = Inr P1"
    using run_full [of "?P\<lparr>mdl := (mdl ?P)\<lparr>wantFull := True\<rparr>\<rparr>"] by (auto simp: full_scan_def)
  have "\<exists>s out. dump_to sample_world (\<lambda>_. True) (dump_options lbl) P = Inr (Dumped ''guest.json.gz'' s out)" for P
    by (simp add: dump_to_def Let_def dump_options_def writeSnapshot_def toSnapshot_def kernelRelease_def sample_world_def)
  then show ?thesis
    using live P1 by (simp add: main_run_def live_run_def) (simp add: dump_options_def sample_options_def)
qed

lemma dump_then_load_witness:
  "\<exists>s out P. main_run sample_world sample_vars (\<lambda>_. None) (\<lambda>_. True) id (dump_options ''stock/warm'') =
       Inr (Dumped ''guest.json.gz'' s out) \<and>
     main_run sample_world sample_vars (\<lambda>_. Some (json_back s)) (\<lambda>_. True) id load_options = Inr (Runs P False)"
proof -
  obtain s out where s: "main_run sample_world sample_vars (\<lambda>_. None) (\<lambda>_. True) id (dump_options ''stock/warm'') =
      Inr (Dumped ''guest.json.gz'' s out)" using sample_dump by blast
  have "oLabel (dump_options ''stock/warm'') = ''stock/warm''" by (simp add: dump_options_def)
  then show ?thesis
    using s dump_then_load [OF s, of load_options "\<lambda>_. Some (json_back s)" sample_world sample_vars "\<lambda>_. True" id]
    by auto
qed

lemma unlabelled_snapshot_is_wiped_witness:
  "\<exists>s P P'. main_run sample_world sample_vars (\<lambda>_. Some s) (\<lambda>_. True) id load_options = Inr (Runs P True) \<and>
     run_scan sample_world (bytes_read_at []) P = Inr P' \<and>
     counts (m (frm (mdl P'))) = replicate (nblocks (m (frm (mdl P)))) zero_counts"
proof -
  have "kernelRelease (\<lambda>_. None) = Inr []" by (simp add: kernelRelease_def)
  then obtain s where s: "toSnapshot sample_vars (\<lambda>_. None) [] [] sample_report = Inr s"
    by (simp add: toSnapshot_def)
  have "map_ok (rf_map sample_report)" "rf_who sample_report \<noteq> Some []" "cacheAliases sample_vars \<noteq> Some []"
    by (simp_all add: sample_report_def sample_frame_def map_ok_def sample_vars_def)
  from readSnapshot_toSnapshot [OF this s] obtain f vars' where
    r: "readSnapshot sample_vars (json_back s) = Inr (f, vars')" by blast
  have lbl: "snLabel (json_back s) = []" using s by (auto simp: toSnapshot_def json_back_def and_then_Inr_iff)
  define P where "P = fst (Init (loaded sample_world load_options f vars'))"
  have "rf_snapshot f = []" using readSnapshot_map [OF r] lbl by simp
  then have "Init (loaded sample_world load_options f vars') = (P, True)"
    by (simp add: P_def Init_def loaded_def Let_def)
  then have run: "main_run sample_world sample_vars (\<lambda>_. Some (json_back s)) (\<lambda>_. True) id load_options = Inr (Runs P True)"
    using r by (simp add: main_run_def load_snapshot_def showFrame_def)
  obtain P' where "run_scan sample_world (bytes_read_at []) P = Inr P'"
    "counts (m (frm (mdl P'))) = replicate (nblocks (m (frm (mdl P)))) zero_counts"
    using unlabelled_snapshot_is_wiped [OF run _ _ lbl] by auto
  then show ?thesis using run by blast
qed

end
