(* ===== verification/Running.thy ===== *)
theory Running
  imports Startup
begin

text \<open>
  The program from its start to any later moment: what \<^verbatim>\<open>main\<close> of \<^verbatim>\<open>packages/fragview/main.go\<close> starts,
  with the messages of \<^verbatim>\<open>Update\<close>, the repaints of \<^verbatim>\<open>View\<close> and the one chain of scans, whose reading,
  publishing and collecting any message can come between.
\<close>

section \<open>The chain of scans\<close>

text \<open>
  A call of \<^verbatim>\<open>scan\<close> in the pieces that other goroutines can come between: it takes its instructions
  (\<open>scan_begin\<close>), publishes the counters, replaces the aliases, publishes the reporting, and ends.
  \<open>Still\<close> is a program whose \<^verbatim>\<open>Init\<close> did not start the chain.
\<close>

datatype scan_phase = Still | Waiting | Working | Published scan_job | Aliased scan_job | Collected scan_job

definition scan_publish :: "reader \<Rightarrow> scan_job \<Rightarrow> model \<Rightarrow> model" where
  "scan_publish rd job M =
     (let tot = int (nblocks (m (frm M)))
      in case job of
           FullSweep \<Rightarrow> (scanRange rd 0 tot M)\<lparr>cursor := 0\<rparr>
         | Slice chunk \<Rightarrow>
             (scanRange rd (cursor M) (cursor M + chunk) M)\<lparr>cursor := next_cursor tot chunk (cursor M)\<rparr>
         | NoScan \<Rightarrow> M)"

definition scan_finish :: "scan_job \<Rightarrow> model \<Rightarrow> model" where
  "scan_finish job M = M\<lparr>ready := ready M \<or> job = FullSweep, inflight := None\<rparr>"

text \<open>
  \<^verbatim>\<open>collect\<close> in two pieces; whether it asks for the sites is decided before it takes the lock, from
  the mode at that time.
\<close>

definition collect_aliases :: "world \<Rightarrow> program \<Rightarrow> program" where
  "collect_aliases w P =
     P\<lparr>globals := (globals P)\<lparr>cacheAliases := loadCacheAliases (wlive w) (wlinks w) (wproc w)\<rparr>\<rparr>"

definition collect_publish :: "bool \<Rightarrow> world \<Rightarrow> program \<Rightarrow> program" where
  "collect_publish asked w P =
     (let proc = wproc w; (who, tot, err) = readSlabwho proc;
          sites = (if asked then readSites proc else [])
      in P\<lparr>rep := (rep P)\<lparr>rf_ladder := fst (readBuddyinfo proc), rf_types := fst (readPagetypeinfo proc),
             rf_slabs := fst (readSlabinfo (wsortSlabs w) proc), rf_mem := readMeminfo proc,
             rf_vm := readVmstat proc, rf_arc := readARC proc, rf_who := who, rf_whoTot := tot, rf_whoErr := err,
             rf_sites := (if sites \<noteq> [] then sites else rf_sites (rep P))\<rparr>\<rparr>)"

lemma scan_end_pieces: "scan_end rd job M = scan_finish job (scan_publish rd job M)"
  by (cases job) (simp_all add: scan_end_def scan_publish_def scan_finish_def Let_def scanRange_def case_prod_beta)

lemma collect_pieces: "collect w P = collect_publish (focusSlab (frm (mdl P))) w (collect_aliases w P)"
  by (simp add: collect_def collect_publish_def collect_aliases_def Let_def case_prod_beta)

section \<open>Steps\<close>

record running =
  prog :: program
  phase :: scan_phase
  winRows :: int
  winCols :: int

definition started :: "program \<Rightarrow> bool \<Rightarrow> running" where
  "started P go = \<lparr>prog = P, phase = (if go then Waiting else Still), winRows = 0, winCols = 0\<rparr>"

definition with_model :: "(model \<Rightarrow> model) \<Rightarrow> running \<Rightarrow> running" where
  "with_model g R = R\<lparr>prog := (prog R)\<lparr>mdl := g (mdl (prog R))\<rparr>\<rparr>"

text \<open>
  One step; \<open>w\<close> is the world at that time, in which the files of the kernel have other contents
  each time. A repaint is due at the latest when nothing was painted yet, since the time of the
  last picture is then zero.
\<close>

inductive run_step :: "running \<Rightarrow> running \<Rightarrow> bool" where
  resize: "run_step R (R\<lparr>winRows := r, winCols := c\<rparr>)"
| wheel: "run_step R (with_model (mouse_wheel down ctrl) R)"
| move: "run_step R (with_model (mouse_move x y) R)"
| settle: "run_step R (with_model (hover_settle sq) R)"
| keys: "run_step R (with_model (update_keys (kittyAvailable (wenv (w :: world))) ks) R)"
| repaint: "View w due swp (winRows R) (winCols R) (prog R) = Inr (ls, P) \<Longrightarrow> 1 \<le> wcellW w \<Longrightarrow> 1 \<le> wcellH w \<Longrightarrow>
    (layout (frm (mdl (prog R))) = no_layout \<Longrightarrow> due) \<Longrightarrow> run_step R (R\<lparr>prog := P\<rparr>)"
| begins: "phase R = Waiting \<Longrightarrow> scan_begin (mdl (prog R)) = Inr M \<Longrightarrow>
    run_step R (with_model (\<lambda>_. M) (R\<lparr>phase := Working\<rparr>))"
| publishes: "phase R = Working \<Longrightarrow> inflight (mdl (prog R)) = Some job \<Longrightarrow>
    run_step R (with_model (scan_publish rd job) (R\<lparr>phase := Published job\<rparr>))"
| aliases: "phase R = Published job \<Longrightarrow> job \<noteq> NoScan \<Longrightarrow>
    run_step R (R\<lparr>prog := collect_aliases w (prog R), phase := Aliased job\<rparr>)"
| collects: "phase R = Aliased job \<Longrightarrow>
    run_step R (R\<lparr>prog := collect_publish asked w (prog R), phase := Collected job\<rparr>)"
| ends: "phase R = Collected job \<or> phase R = Published NoScan \<and> job = NoScan \<Longrightarrow>
    run_step R (with_model (scan_finish job) (R\<lparr>phase := Waiting\<rparr>))"

definition runs :: "running \<Rightarrow> running \<Rightarrow> bool" where
  "runs = run_step\<^sup>*\<^sup>*"

inductive_cases run_stepE: "run_step R R'"

section \<open>What every step keeps\<close>

text \<open>
  Whenever a picture was painted its key is set with it; so while there is no layout the key is
  blank, and the first repaint paints.
\<close>

definition fresh_ok :: "'a ui_frame_scheme \<Rightarrow> bool" where
  "fresh_ok f \<longleftrightarrow> (layout f = no_layout \<longrightarrow> kwidth (pxKey f) = 0)"

definition phase_ok :: "running \<Rightarrow> bool" where
  "phase_ok R \<longleftrightarrow> (phase R = Working \<longrightarrow> inflight (mdl (prog R)) \<noteq> None)"

definition running_ok :: "nat \<Rightarrow> running \<Rightarrow> bool" where
  "running_ok n R \<longleftrightarrow> session_ok n (mdl (prog R)) \<and> fresh_ok (frm (mdl (prog R))) \<and>
     types_ok (rf_types (rep (prog R))) \<and> phase_ok R"

named_theorems picture_kept \<open>Operations that leave the map and its picture alone.\<close>

definition same_pic :: "'a ui_frame_scheme \<Rightarrow> 'b ui_frame_scheme \<Rightarrow> bool" where
  "same_pic f g \<longleftrightarrow> layout f = layout g \<and> pxKey f = pxKey g \<and> m f = m g"

lemma same_pic_trans: "same_pic f g \<Longrightarrow> same_pic g h \<Longrightarrow> same_pic f h"
  by (simp add: same_pic_def)

lemma same_pic_if: "same_pic a f \<Longrightarrow> same_pic b f \<Longrightarrow> same_pic (if c then a else b) f"
  by simp

lemma clamp_pic [picture_kept]: "same_pic (clamp f) g \<longleftrightarrow> same_pic f g"
  by (simp add: clamp_def Let_def same_pic_def)

lemma pan_pic [picture_kept]: "same_pic (pan by f) f"
  by (simp add: pan_def picture_kept) (simp add: same_pic_def)

lemma zoom_pic [picture_kept]: "same_pic (zoom w f) f"
  by (simp add: zoom_def Let_def picture_kept) (simp add: same_pic_def)

lemma wheel_pic [picture_kept]: "same_pic (wheel down ctrl f) f"
  by (simp add: wheel_def Let_def picture_kept) (simp add: same_pic_def)

lemma key_pics:
  "same_pic (slab_key k f) f" "same_pic (mode_key kitty k f) f" "same_pic (map_key k w r s f) f"
proof -
  show "same_pic (slab_key k f) f" by (simp add: slab_key_def same_pic_def)
  show "same_pic (mode_key kitty k f) f" by (simp add: mode_key_def same_pic_def)
  have "same_pic (f\<lparr>viewFrom := a, viewTo := b\<rparr>) f" "same_pic (f\<lparr>share := c\<rparr>) f" "same_pic f f" for a b c
    by (simp_all add: same_pic_def)
  then show "same_pic (map_key k w r s f) f"
    unfolding map_key_def by (intro same_pic_if) (simp_all add: picture_kept)
qed

lemma key_pic: "same_pic (fst (key kitty k f)) f"
proof -
  have slab: "same_pic (if focusSlab f then slab_key k f else f) f"
    by (intro same_pic_if key_pics(1)) (simp add: same_pic_def)
  note mode = same_pic_trans [OF key_pics(2) slab]
  show ?thesis
    using slab mode same_pic_trans [OF key_pics(3) mode] by (simp add: key_def Let_def)
qed

lemma keys_pic: "same_pic (fst (keys_msg kitty ks f)) f"
proof (induction kitty ks f rule: keys_msg.induct)
  case (1 kitty f)
  then show ?case by (simp add: same_pic_def)
next
  case (2 kitty k ks f)
  obtain f1 q c where k: "key kitty k f = (f1, q, c)" by (cases "key kitty k f")
  then have "same_pic f1 f" using key_pic [of kitty k f] by simp
  then show ?case using 2 [of "(f1, q, c)"] k same_pic_trans by (fastforce simp: case_prod_beta)
qed

lemma fresh_ok_pic: "same_pic f g \<Longrightarrow> fresh_ok f = fresh_ok g"
  by (simp add: same_pic_def fresh_ok_def)

lemma summarise_pic: "same_pic (frame_summarise mv f) f"
  by (simp add: same_pic_def frame_summarise_def Let_def split: prod.split)

lemma hover_pic: "same_pic (resolveHover f) f"
  by (simp add: same_pic_def resolveHover_def Let_def case_prod_beta)

text \<open>A repaint keeps the map, and sets layout and key together.\<close>

lemma painted_not_blank: "layout_ok l \<Longrightarrow> l\<lparr>lviewFrom := a\<rparr> \<noteq> no_layout"
proof
  assume "layout_ok l" and "l\<lparr>lviewFrom := a\<rparr> = no_layout"
  then have "0 < pxW l" and "pxW (l\<lparr>lviewFrom := a\<rparr>) = 0" by (simp_all add: layout_okD no_layout_def)
  then show False by simp
qed

lemma pixelBlockMap_fresh:
  "fresh_ok f \<Longrightarrow> layout_ok (pixLayoutFor (viewTo f - viewFrom f) (map_cols w * cw) cw ch r) \<Longrightarrow>
   fresh_ok (pixelBlockMap due w r cw ch f)"
  using painted_not_blank by (auto simp: fresh_ok_def pixelBlockMap_def paintPixels_def Let_def)

lemma pixelBlockMap_map: "m (pixelBlockMap due w r cw ch f) = m f"
  by (simp add: pixelBlockMap_def paintPixels_def Let_def)

lemma render_keeps:
  assumes "frame_ok n f" and "0 < n" and "1 \<le> cw" and "1 \<le> ch" and "fresh_ok f"
  shows "fresh_ok (render mv due cw ch leftLen k reserve rows cols f)"
    and "m (render mv due cw ch leftLen k reserve rows cols f) = m f"
proof -
  let ?f1 = "frame_summarise mv f"
  let ?f2 = "resolveHover ?f1"
  let ?f3 = "?f2\<lparr>slabTotal := k, mapTop := 12\<rparr>"
  have p: "same_pic ?f3 f" "same_pic (slab_window a k reserve ?f1) f" "same_pic (snd (blockMap w r ?f3)) f" for a w r
    using same_pic_trans [OF hover_pic summarise_pic, of mv f] summarise_pic [of mv f]
    by (simp_all add: same_pic_def slab_window_def blockMap_def Let_def)
  have f2: "frame_ok n ?f2" by (intro frame_ok_hover frame_ok_summarise) (fact assms(1))
  have fr: "fresh_ok ?f3" using assms(5) fresh_ok_pic [OF p(1)] by blast
  have "layout_ok (pixLayoutFor (viewTo ?f3 - viewFrom ?f3) (map_cols w * cw) cw ch r)" if "0 < r" for w r
    using frame_ok_width [OF f2 assms(2)] assms(3,4) that map_cols_pos [of w]
    by (intro pixLayoutFor_ok [THEN conjunct1]) auto
  then have px: "fresh_ok (pixelBlockMap due w r cw ch ?f3)" if "0 < r" for w r
    using pixelBlockMap_fresh [OF fr] that by blast
  have r: "0 < map_height b (viewTo ?f2 - viewFrom ?f2) w a leftLen" for b w a
    using map_height_pos [OF frame_ok_width [OF f2 assms(2)]] by (metis zero_less_one_class.zero_le_one int_one_le_iff_zero_less)
  show "fresh_ok (render mv due cw ch leftLen k reserve rows cols f)"
    using px [OF r] assms(5) fresh_ok_pic [OF p(2)] fresh_ok_pic [OF p(3)]
    by (simp add: render_def Let_def del: resolveHover_window)
  show "m (render mv due cw ch leftLen k reserve rows cols f) = m f"
    using p by (simp add: render_def Let_def pixelBlockMap_map same_pic_def)
qed

lemma View_Inr:
  assumes "View w due swp r c P = Inr (ls, P')"
  shows "P' = P \<or> (\<exists>leftLen k reserve rows cols. P' = P\<lparr>mdl := (mdl P)\<lparr>frm :=
    render (abdMovable (globals P)) due (wcellW w) (wcellH w) leftLen k reserve rows cols (frm (mdl P))\<rparr>\<rparr>)"
proof (cases "ready (mdl P)")
  case False
  then show ?thesis using assms by (simp add: View_def case_prod_beta)
next
  case True
  obtain rows cols where "view_size (wenv w) r c = (rows, cols)" by fastforce
  with True assms obtain fr where
    fr: "frame_lines (pane_input_of w swp P) due (wcellW w) (wcellH w) rows cols (frm (mdl P)) = Inr (ls, fr)"
    and P': "P' = P\<lparr>mdl := (mdl P)\<lparr>frm := fr\<rparr>\<rparr>"
    by (auto simp: View_def draw_frame_def and_then_Inr_iff)
  obtain leftLen k where "fr = render (abdMovable (pkg (pane_input_of w swp P))) due (wcellW w) (wcellH w) leftLen k
      (legend_reserve (pane_input_of w swp P)) rows cols (frm (mdl P))"
    using frame_lines_render [OF fr] by blast
  moreover have "pkg (pane_input_of w swp P) = globals P" by (simp add: pane_input_of_def)
  ultimately show ?thesis unfolding P' by metis
qed

lemma scan_publish_ok:
  assumes "session_ok n M" and "inflight M = Some job"
  shows "session_ok n (scan_publish rd job M)"
proof -
  have c: "1 \<le> c" if "job = Slice c" for c using session_okD(5) [OF assms(1)] assms(2) that by simp
  then have cur: "job = Slice c \<Longrightarrow> 0 \<le> next_cursor (int n) c (cursor M) \<and> next_cursor (int n) c (cursor M) < int n" for c
    using session_okD(2,6) [OF assms(1)] by (auto simp: next_cursor_def)
  show ?thesis
    using assms(1) cur scanRange_ok [OF assms(1), of 0 rd "int n"]
      scanRange_ok [OF assms(1) session_okD(2) [OF assms(1)], of rd] session_okD(6,7) [OF assms(1)]
    by (cases job) (simp_all add: scan_publish_def Let_def session_ok_def)
qed

lemma scanRange_pic:
  "layout (frm (scanRange rd lo hi M)) = layout (frm M)" "pxKey (frm (scanRange rd lo hi M)) = pxKey (frm M)"
  by (simp_all add: scanRange_def publish_def Let_def case_prod_beta)

lemma scan_publish_fresh: "fresh_ok (frm (scan_publish rd job M)) = fresh_ok (frm M)"
  by (cases job) (simp_all add: scan_publish_def fresh_ok_def scanRange_pic Let_def)

text \<open>The messages as steps of a session, and what they keep of the map.\<close>

lemma message_keeps:
  assumes "g = mouse_wheel down ctrl \<or> g = mouse_move x y \<or> g = hover_settle sq \<or> g = update_keys kitty ks"
  shows "session_ok n M \<Longrightarrow> session_ok n (g M)" and "same_pic (frm (g M)) (frm M)" and "inflight (g M) = inflight M"
proof -
  have "session_step False kitty M (g M)"
    using assms by (auto intro: session_step.intros)
  then show "session_ok n M \<Longrightarrow> session_ok n (g M)" by (rule session_step_ok)
  show "same_pic (frm (g M)) (frm M)"
    using assms wheel_pic keys_pic
    by (auto simp: mouse_wheel_def mouse_move_def hover_settle_def update_keys_def case_prod_beta)
       (simp_all add: same_pic_def move_pointer_def settle_box_def)
  show "inflight (g M) = inflight M"
    using assms by (auto simp: mouse_wheel_def mouse_move_def hover_settle_def update_keys_def case_prod_beta)
qed

lemma repaint_keeps:
  assumes "View w due swp r c P = Inr (ls, P')" and "1 \<le> wcellW w" and "1 \<le> wcellH w"
    and "session_ok n (mdl P)" and "fresh_ok (frm (mdl P))"
  shows "session_ok n (mdl P') \<and> fresh_ok (frm (mdl P')) \<and> rep P' = rep P \<and> globals P' = globals P \<and>
    m (frm (mdl P')) = m (frm (mdl P)) \<and> inflight (mdl P') = inflight (mdl P)"
proof -
  note ok = session_okD [OF assms(4)]
  from View_Inr [OF assms(1)] show ?thesis
    using assms(4,5) session_ok_frame [OF assms(4) frame_ok_draw [OF ok(1,6) assms(2,3)]]
      render_keeps [OF ok(1,6) assms(2,3,5)]
    by auto
qed

lemma readers_ok: "types_ok (rf_types (rep (collect_publish asked w P)))"
  by (simp add: collect_publish_def Let_def case_prod_beta readPagetypeinfo_ok)

lemma message_ok:
  assumes "running_ok n R" and "g = mouse_wheel down ctrl \<or> g = mouse_move x y \<or> g = hover_settle sq \<or> g = update_keys kitty ks"
  shows "running_ok n (with_model g R)"
  using assms(1) message_keeps [OF assms(2)] fresh_ok_pic [OF message_keeps(2) [OF assms(2)]]
  by (simp add: running_ok_def phase_ok_def with_model_def)

lemma run_step_ok:
  assumes "run_step R R'" and "running_ok n R"
  shows "running_ok n R'"
  using assms(1)
proof cases
  case (begins M)
  have "frm M = frm (mdl (prog R)) \<and> inflight M \<noteq> None"
    using begins(3) by (auto simp: scan_begin_def Let_def split: if_splits)
  then show ?thesis
    using assms(2) scan_begin_ok [OF _ begins(3)]
    by (simp add: begins(1) running_ok_def phase_ok_def with_model_def)
next
  case (publishes job rd)
  then show ?thesis
    using assms(2) scan_publish_ok [of n "mdl (prog R)" job rd] scan_publish_fresh
    by (simp add: running_ok_def phase_ok_def with_model_def)
next
  case (repaint w due swp ls P)
  have "session_ok n (mdl (prog R))" "fresh_ok (frm (mdl (prog R)))"
    using assms(2) by (simp_all add: running_ok_def)
  from repaint_keeps [OF repaint(2-4) this] show ?thesis
    using assms(2) by (simp add: repaint(1) running_ok_def phase_ok_def)
next
  case (collects job asked w)
  then show ?thesis
    using assms(2) readers_ok by (simp add: running_ok_def phase_ok_def collect_publish_def Let_def case_prod_beta)
next
  case (wheel down ctrl)
  then show ?thesis using message_ok [OF assms(2)] by blast
next
  case (move x y)
  then show ?thesis using message_ok [OF assms(2)] by blast
next
  case (settle sq)
  then show ?thesis using message_ok [OF assms(2)] by blast
next
  case (keys w ks)
  then show ?thesis using message_ok [OF assms(2)] by blast
qed (use assms(2) in \<open>auto simp: running_ok_def phase_ok_def with_model_def scan_finish_def session_ok_def collect_aliases_def\<close>)

interpretation running: step_system run_step "running_ok n" for n
  by unfold_locales (fact run_step_ok)

lemma runs_ok: "runs R R' \<Longrightarrow> running_ok n R \<Longrightarrow> running_ok n R'"
  unfolding runs_def by (rule running.steps_keep)

text \<open>What \<^verbatim>\<open>main\<close> starts satisfies it.\<close>

lemma main_running_ok:
  assumes "main_run w vars0 files creates order opt = Inr (Runs P go)" and "1 \<le> oShare opt" and "0 \<le> oSort opt"
    and "oLoad opt = [] \<or> 0 < nblocks (m (frm (mdl P))) \<and> types_ok (rf_types (rep P))"
  shows "running_ok (nblocks (m (frm (mdl P)))) (started P go)"
proof -
  note f = main_starts_frame [OF assms(1-3)]
  have "0 < nblocks (m (frm (mdl P))) \<and> types_ok (rf_types (rep P))"
    using assms(4) main_starts_live [OF assms(1)] by blast
  moreover have "cursor (mdl P) = 0 \<and> unknownFlags (mdl P) = [] \<and> kwidth (pxKey (frm (mdl P))) = 0"
    using assms(1)
  proof (cases rule: main_runs)
    case (snap s f vars')
    then show ?thesis by (auto simp: Init_def loaded_def Let_def start_model_def start_frame_def split: if_splits)
  next
    case (live bm rd)
    then show ?thesis by (auto simp: Init_def live_program_def Let_def start_model_def start_frame_def split: if_splits)
  qed
  ultimately show ?thesis
    using f by (simp add: running_ok_def session_ok_def started_def phase_ok_def fresh_ok_def)
qed

lemma view_drawn:
  assumes "running_ok n R" and "1 \<le> wcellW w" and "1 \<le> wcellH w"
    and "layout (frm (mdl (prog R))) = no_layout \<longrightarrow> due"
  shows "\<exists>ls P. View w due swp r c (prog R) = Inr (ls, P)"
proof -
  let ?f = "frm (mdl (prog R))"
  have ok: "frame_ok n ?f" "0 < n" "fresh_ok ?f" "types_ok (rf_types (rep (prog R)))"
    using assms(1) session_okD by (auto simp: running_ok_def)
  then have "ever_painted due ?f"
    using assms(4) by (auto simp: ever_painted_def fresh_ok_def frame_ok_def rest_ok_def)
  moreover have "types_ok (rf_types (reporting (pane_input_of w swp (prog R))))"
    using ok(4) by (simp add: pane_input_of_def report_of_def)
  ultimately have "\<exists>ls f'. frame_lines (pane_input_of w swp (prog R)) due (wcellW w) (wcellH w) rows cols ?f = Inr (ls, f')" for rows cols
    using frame_drawn [OF ok(1,2) _ assms(2,3)] by blast
  then have "\<exists>ls P. draw_frame w due swp rows cols (prog R) = Inr (ls, P)" for rows cols
    unfolding draw_frame_def by (metis (mono_tags, lifting) and_then.simps(2) case_prod_conv)
  then show ?thesis by (simp add: View_def case_prod_beta)
qed

section \<open>Properties\<close>


text \<open>The opening sweep comes to its end, and then the program is ready to draw.\<close>

lemma opening_sweep:
  assumes "phase R = Waiting" and "wantFull (mdl (prog R))"
  shows "\<exists>R'. runs R R' \<and> phase R' = Waiting \<and> ready (mdl (prog R'))"
proof -
  let ?M = "(mdl (prog R))\<lparr>wantFull := False, inflight := Some FullSweep\<rparr>"
  let ?R1 = "with_model (\<lambda>_. ?M) (R\<lparr>phase := Working\<rparr>)"
  let ?R2 = "with_model (scan_publish (bytes_read_at []) FullSweep) (?R1\<lparr>phase := Published FullSweep\<rparr>)"
  let ?R3 = "?R2\<lparr>prog := collect_aliases sample_world (prog ?R2), phase := Aliased FullSweep\<rparr>"
  let ?R4 = "?R3\<lparr>prog := collect_publish False sample_world (prog ?R3), phase := Collected FullSweep\<rparr>"
  let ?R5 = "with_model (scan_finish FullSweep) (?R4\<lparr>phase := Waiting\<rparr>)"
  have "run_step R ?R1" using assms by (intro begins) (simp_all add: scan_begin_def Let_def)
  moreover have "run_step ?R1 ?R2" by (intro publishes) (simp_all add: with_model_def)
  moreover have "run_step ?R2 ?R3" by (intro aliases) (simp_all add: with_model_def)
  moreover have "run_step ?R3 ?R4" by (intro collects) simp
  moreover have "run_step ?R4 ?R5" by (intro ends) simp
  ultimately have "runs R ?R5" unfolding runs_def by (meson converse_rtranclp_into_rtranclp rtranclp.rtrancl_refl)
  moreover have "phase ?R5 = Waiting \<and> ready (mdl (prog ?R5))" by (simp add: with_model_def scan_finish_def)
  ultimately show ?thesis by blast
qed


text \<open>Without the chain of scans the program only looks.\<close>

definition only_looked :: "running \<Rightarrow> running \<Rightarrow> bool" where
  "only_looked R R' \<longleftrightarrow> phase R' = phase R \<and> m (frm (mdl (prog R'))) = m (frm (mdl (prog R))) \<and>
     rep (prog R') = rep (prog R) \<and> globals (prog R') = globals (prog R)"

lemma message_looks:
  assumes "g = mouse_wheel down ctrl \<or> g = mouse_move x y \<or> g = hover_settle sq \<or> g = update_keys kitty ks"
  shows "only_looked R (with_model g R)"
  using message_keeps(2) [OF assms] by (simp add: with_model_def only_looked_def same_pic_def)

lemma run_step_looks:
  assumes "run_step R R'" and "phase R = Still" and "running_ok n R"
  shows "only_looked R R'"
  using assms(1)
proof cases
  case (repaint w due swp ls P)
  have "session_ok n (mdl (prog R))" "fresh_ok (frm (mdl (prog R)))"
    using assms(3) by (simp_all add: running_ok_def)
  from repaint_keeps [OF repaint(2-4) this] show ?thesis by (simp add: repaint(1) only_looked_def)
next
  case (wheel down ctrl)
  then show ?thesis using message_looks by blast
next
  case (move x y)
  then show ?thesis using message_looks by blast
next
  case (settle sq)
  then show ?thesis using message_looks by blast
next
  case (keys w ks)
  then show ?thesis using message_looks by blast
qed (use assms(2) in \<open>simp_all add: only_looked_def\<close>)

lemma runs_looks:
  assumes "runs R R'" and "phase R = Still" and "running_ok n R"
  shows "only_looked R R'"
  using assms(1) unfolding runs_def
proof (rule running.steps_relate [where rel = "only_looked R"])
  show "only_looked R R2" if "run_step R1 R2" "running_ok n R1" "only_looked R R1" for R1 R2
    using run_step_looks [OF that(1) _ that(2)] that(3) assms(2) by (simp add: only_looked_def)
qed (use assms(3) in \<open>simp_all add: only_looked_def\<close>)


lemma kitty_world: "\<exists>w :: world. kittyAvailable (wenv w)"
proof -
  have "kittyAvailable (wenv (sample_world\<lparr>wenv := \<lambda>v. if v = ''KITTY_WINDOW_ID'' then ''1'' else []\<rparr>))"
    by (simp add: kittyAvailable_def)
  then show ?thesis by blast
qed


end
