(* ===== verification/Pool.thy ===== *)
theory Pool
  imports Prelude
begin

text \<open>
  Workers on a shared ticket counter, the loop that \<^verbatim>\<open>packages/fragload/main.go\<close>,
  \<^verbatim>\<open>packages/fragcheck/main.go\<close> and \<^verbatim>\<open>packages/fragspike/main.go\<close> share: every goroutine takes
  the next ticket of an atomic counter, returns when it is past the last item, works on the
  item and comes back, or returns when the work failed. A schedule is the list of the workers
  that move; every interleaving of the goroutines is one.
\<close>

section \<open>The pool\<close>

datatype 'w worker = Idle 'w | Busy nat 'w | Done

text \<open>
  \<open>finished\<close> and \<open>refused\<close> list the items in the order they were completed; the second is the
  content of the error channel, which has room for one error of every worker.
\<close>

record ('w, 's) pool =
  ticket :: nat
  workers :: "'w worker list"
  shared :: 's
  finished :: "nat list"
  refused :: "nat list"

type_synonym ('w, 's) body = "nat \<Rightarrow> 'w \<Rightarrow> 's \<Rightarrow> 'w \<times> 's \<times> bool"

definition pool_start :: "nat \<Rightarrow> 'w \<Rightarrow> 's \<Rightarrow> ('w, 's) pool" where
  "pool_start jobs w s =
     \<lparr>ticket = 0, workers = replicate jobs (Idle w), shared = s, finished = [], refused = []\<rparr>"

definition pool_step :: "nat \<Rightarrow> ('w, 's) body \<Rightarrow> nat \<Rightarrow> ('w, 's) pool \<Rightarrow> ('w, 's) pool" where
  "pool_step items work j p =
     (if j < length (workers p)
      then (case workers p ! j of
              Idle w \<Rightarrow>
                p\<lparr>ticket := ticket p + 1,
                  workers := (workers p)[j := (if items \<le> ticket p then Done else Busy (ticket p) w)]\<rparr>
            | Busy i w \<Rightarrow>
                (let (w', s', ok) = work i w (shared p)
                 in if ok
                    then p\<lparr>workers := (workers p)[j := Idle w'], shared := s',
                           finished := finished p @ [i]\<rparr>
                    else p\<lparr>workers := (workers p)[j := Done], shared := s',
                           refused := refused p @ [i]\<rparr>)
            | Done \<Rightarrow> p)
      else p)"

definition pool_run ::
  "nat \<Rightarrow> ('w, 's) body \<Rightarrow> nat list \<Rightarrow> ('w, 's) pool \<Rightarrow> ('w, 's) pool" where
  "pool_run items work sched p = fold (pool_step items work) sched p"

text \<open>\<^verbatim>\<open>wg.Wait\<close> comes back when every goroutine has returned.\<close>

definition all_done :: "('w, 's) pool \<Rightarrow> bool" where
  "all_done p \<longleftrightarrow> (\<forall>w \<in> set (workers p). w = Done)"

section \<open>Every worker comes to its end\<close>

text \<open>The turns a worker can still take before it returns.\<close>

definition turns_left :: "nat \<Rightarrow> nat \<Rightarrow> ('w, 's) pool \<Rightarrow> nat" where
  "turns_left items j p =
     (case workers p ! j of
        Idle _ \<Rightarrow> 2 * (items - ticket p) + 1
      | Busy _ _ \<Rightarrow> 2 * (items - ticket p) + 2
      | Done \<Rightarrow> 0)"

lemma length_workers [simp]: "length (workers (pool_step items work j p)) = length (workers p)"
  by (simp add: pool_step_def Let_def split: worker.splits prod.splits)

lemma ticket_grows: "ticket p \<le> ticket (pool_step items work j p)"
  by (simp add: pool_step_def Let_def split: worker.splits prod.splits)

lemma other_worker: "k \<noteq> j \<Longrightarrow> workers (pool_step items work j p) ! k = workers p ! k"
  by (simp add: pool_step_def Let_def split: worker.splits prod.splits)

lemma turns_left_other:
  assumes "k \<noteq> j"
  shows "turns_left items k (pool_step items work j p) \<le> turns_left items k p"
  using ticket_grows [of p items work j]
  by (simp add: turns_left_def other_worker [OF assms] diff_le_mono2 split: worker.splits)

lemma turns_left_own:
  assumes "j < length (workers p)"
  shows "turns_left items j (pool_step items work j p) \<le> turns_left items j p - 1"
  using assms
  by (auto simp: turns_left_def pool_step_def Let_def split: worker.splits prod.splits)

lemma turns_left_run:
  "k < length (workers p) \<Longrightarrow>
   turns_left items k (pool_run items work sched p) \<le> turns_left items k p - count_list sched k"
proof (induction sched arbitrary: p)
  case (Cons j sched)
  have "turns_left items k (pool_run items work (j # sched) p)
      \<le> turns_left items k (pool_step items work j p) - count_list sched k"
    using Cons.IH [of "pool_step items work j p"] Cons.prems by (simp add: pool_run_def)
  moreover have "turns_left items k (pool_step items work j p)
      \<le> turns_left items k p - (if j = k then 1 else 0)"
    using turns_left_own [OF Cons.prems] turns_left_other [of k j] by auto
  ultimately show ?case by (auto split: if_splits)
qed (simp add: pool_run_def)

lemma pool_run_length [simp]: "length (workers (pool_run items work sched p)) = length (workers p)"
  by (induction sched arbitrary: p) (simp_all add: pool_run_def)

lemma pool_all_done:
  assumes "\<And>j. j < jobs \<Longrightarrow> 2 * items + 1 \<le> count_list sched j"
  shows "all_done (pool_run items work sched (pool_start jobs w s))"
proof -
  let ?p = "pool_run items work sched (pool_start jobs w s)"
  have "workers ?p ! j = Done" if "j < jobs" for j
  proof -
    have "turns_left items j (pool_start jobs w s) = 2 * items + 1"
      using that by (simp add: turns_left_def pool_start_def)
    then have "turns_left items j ?p = 0"
      using turns_left_run [of j "pool_start jobs w s" items work sched] assms [OF that] that
      by (simp add: pool_start_def)
    then show ?thesis by (cases "workers ?p ! j") (simp_all add: turns_left_def)
  qed
  then show ?thesis by (simp add: all_done_def all_set_conv_all_nth pool_start_def)
qed

text \<open>
  C35. The pool always comes to its end: whatever the work does and however the goroutines are
  interleaved, a schedule that gives every worker two turns per item and one more has
  all of them returned, and no further turn changes anything.
\<close>

theorem pool_finishes:
  assumes "\<And>j. j < jobs \<Longrightarrow> 2 * items + 1 \<le> count_list sched j"
  shows "all_done (pool_run items work sched (pool_start jobs w s)) \<and>
    pool_run items work (sched @ more_turns) (pool_start jobs w s) =
      pool_run items work sched (pool_start jobs w s)"
proof -
  have "pool_step items work j p = p" if "all_done p" for j and p :: "('a, 'b) pool"
    using that by (simp add: pool_step_def all_done_def all_set_conv_all_nth)
  then have "pool_run items work js p = p" if "all_done p" for js and p :: "('a, 'b) pool"
    using that by (induction js) (simp_all add: pool_run_def)
  moreover have "all_done (pool_run items work sched (pool_start jobs w s))"
    using assms by (rule pool_all_done)
  ultimately show ?thesis by (simp add: pool_run_def)
qed

lemma pool_finishes_witness:
  "all_done (pool_run 2 (\<lambda>i w n. (w, n + i, True)) [0, 0, 1, 1, 0, 1, 0, 1, 0, 1] (pool_start 2 () (0::nat)))"
  by (rule conjunct1, rule pool_finishes) (auto simp: less_2_cases_iff)

section \<open>Every item is worked on once\<close>

fun busy_with :: "'w worker \<Rightarrow> nat multiset" where
  "busy_with (Busy i _) = {#i#}"
| "busy_with _ = {#}"

definition held :: "'w worker list \<Rightarrow> nat multiset" where
  "held ws = sum_list (map busy_with ws)"

lemma held_update:
  assumes "j < length ws"
  shows "held (ws[j := b]) + busy_with (ws ! j) = held ws + busy_with b"
proof -
  have "held ws = held (take j ws) + busy_with (ws ! j) + held (drop (Suc j) ws)"
    using arg_cong [OF id_take_nth_drop [OF assms], of held] by (simp add: held_def)
  then show ?thesis using assms by (simp add: upd_conv_take_nth_drop held_def)
qed

fun buffer_ok :: "('w \<Rightarrow> bool) \<Rightarrow> 'w worker \<Rightarrow> bool" where
  "buffer_ok Q (Idle w) = Q w"
| "buffer_ok Q (Busy _ w) = Q w"
| "buffer_ok Q Done = True"

text \<open>
  The invariant: the items below the counter are finished, refused or in work, each once; a
  worker has returned only past the last item or on an error; without an error the shared
  state is what the finished items made of it.
\<close>

definition pool_inv ::
  "nat \<Rightarrow> ('w \<Rightarrow> bool) \<Rightarrow> (nat \<Rightarrow> 's \<Rightarrow> 's) \<Rightarrow> 's \<Rightarrow> ('w, 's) pool \<Rightarrow> bool" where
  "pool_inv items Q item s0 p \<longleftrightarrow>
     mset (finished p) + mset (refused p) + held (workers p) = mset [0 ..< min (ticket p) items] \<and>
     list_all (buffer_ok Q) (workers p) \<and>
     (Done \<in> set (workers p) \<and> refused p = [] \<longrightarrow> items \<le> ticket p) \<and>
     (refused p = [] \<longrightarrow> shared p = fold item (finished p) s0)"

lemma held_idle: "held (replicate n (Idle w)) = {#}"
  by (induction n) (simp_all add: held_def)

lemma held_step:
  assumes "j < length (workers p)" and "workers p ! j = a"
  shows "held ((workers p)[j := b]) + busy_with a = held (workers p) + busy_with b"
  using held_update assms by blast

lemma done_update: "b \<noteq> Done \<Longrightarrow> Done \<in> set (ws[j := b]) \<Longrightarrow> Done \<in> set ws"
  using set_update_subset_insert [of ws j b] by auto

lemma buffers_update: "list_all P ws \<Longrightarrow> P b \<Longrightarrow> list_all P (ws[j := b])"
  using set_update_subset_insert [of ws j b] by (auto simp: list_all_iff)

locale worker_pool =
  fixes items :: nat
    and work :: "nat \<Rightarrow> 'w \<Rightarrow> 's \<Rightarrow> 'w \<times> 's \<times> bool"
    and Q :: "'w \<Rightarrow> bool"
    and item :: "nat \<Rightarrow> 's \<Rightarrow> 's"
  assumes work_buffer: "Q w \<Longrightarrow> i < items \<Longrightarrow> work i w s = (w', s', ok) \<Longrightarrow> Q w'"
    and work_item: "Q w \<Longrightarrow> i < items \<Longrightarrow> work i w s = (w', s', True) \<Longrightarrow> s' = item i s"
begin

lemma start_inv: "Q w \<Longrightarrow> pool_inv items Q item s0 (pool_start jobs w s0)"
  by (simp add: pool_inv_def pool_start_def held_idle list_all_iff)

lemma take_inv:
  assumes "pool_inv items Q item s0 p" and "j < length (workers p)" and "workers p ! j = Idle w"
  shows "pool_inv items Q item s0 (pool_step items work j p)"
proof (cases "items \<le> ticket p")
  case True
  then have "held ((workers p)[j := Done]) = held (workers p)"
    using held_step [OF assms(2,3), of Done] by simp
  then show ?thesis
    using assms True by (simp add: pool_inv_def pool_step_def buffers_update min_absorb2)
next
  case False
  have "Q w" using assms by (auto simp: pool_inv_def list_all_length)
  moreover have "held ((workers p)[j := Busy (ticket p) w]) = held (workers p) + {#ticket p#}"
    using held_step [OF assms(2,3), of "Busy (ticket p) w"] by simp
  moreover have "mset [0 ..< min (ticket p + 1) items] = mset [0 ..< min (ticket p) items] + {#ticket p#}"
    using False by (simp add: min_absorb1)
  ultimately show ?thesis
    using assms False done_update [of "Busy (ticket p) w" "workers p" j]
    by (auto simp: pool_inv_def pool_step_def buffers_update add.assoc [symmetric])
qed

lemma work_range:
  assumes "pool_inv items Q item s0 p" and "j < length (workers p)" and "workers p ! j = Busy i w"
  shows "Q w \<and> i < items"
proof -
  have "held (workers p) = {#i#} + held ((workers p)[j := Done])"
    using held_step [OF assms(2,3), of Done] by simp
  then have "i \<in># mset (finished p) + mset (refused p) + held (workers p)" by simp
  moreover have "mset (finished p) + mset (refused p) + held (workers p) = mset [0 ..< min (ticket p) items]"
    using assms(1) unfolding pool_inv_def by blast
  ultimately have "i \<in># mset [0 ..< min (ticket p) items]" by (simp only:)
  then show ?thesis using assms by (auto simp: pool_inv_def list_all_length)
qed

lemma work_inv:
  assumes "pool_inv items Q item s0 p" and "j < length (workers p)" and "workers p ! j = Busy i w"
  shows "pool_inv items Q item s0 (pool_step items work j p)"
proof -
  obtain w' s' ok where r: "work i w (shared p) = (w', s', ok)" by (cases "work i w (shared p)")
  have q: "Q w" and i: "i < items" using work_range [OF assms] by simp_all
  have all: "held (workers p) = {#i#} + held ((workers p)[j := b])" if "busy_with b = {#}" for b
    using held_step [OF assms(2,3), of b] that by simp
  show ?thesis
  proof (cases ok)
    case True
    then show ?thesis
      using assms r all [of "Idle w'"] work_buffer [OF q i r] work_item [OF q i] 
        done_update [of "Idle w'" "workers p" j]
      by (auto simp: pool_inv_def pool_step_def buffers_update)
  next
    case False
    then show ?thesis
      using assms r all [of Done] by (simp add: pool_inv_def pool_step_def buffers_update)
  qed
qed

lemma step_inv: "pool_inv items Q item s0 p \<Longrightarrow> pool_inv items Q item s0 (pool_step items work j p)"
proof (cases "j < length (workers p)")
  case True
  assume inv: "pool_inv items Q item s0 p"
  show ?thesis
    using take_inv [OF inv True] work_inv [OF inv True] inv
    by (cases "workers p ! j") (simp_all add: pool_step_def)
qed (simp add: pool_step_def)

lemma run_inv: "pool_inv items Q item s0 p \<Longrightarrow> pool_inv items Q item s0 (pool_run items work sched p)"
  unfolding pool_run_def by (induction sched arbitrary: p) (simp_all add: step_inv)

lemma no_refusal:
  assumes "\<And>i w s. Q w \<Longrightarrow> i < items \<Longrightarrow> snd (snd (work i w s))" and "Q w"
  shows "refused (pool_run items work sched (pool_start jobs w s0)) = []"
proof -
  have "refused (pool_run items work sched p) = []"
    if "pool_inv items Q item s0 p" "refused p = []" for p
    using that
  proof (induction sched arbitrary: p)
    case (Cons j sched)
    have "refused (pool_step items work j p) = []"
    proof (cases "j < length (workers p) \<and> (\<exists>i v. workers p ! j = Busy i v)")
      case True
      then obtain i v where b: "j < length (workers p)" "workers p ! j = Busy i v" by blast
      have "snd (snd (work i v (shared p)))"
        using work_range [OF Cons.prems(1) b] assms(1) by simp
      then show ?thesis using b Cons.prems(2) by (simp add: pool_step_def case_prod_beta' Let_def)
    next
      case False
      then show ?thesis
        using Cons.prems(2) by (cases "workers p ! j") (auto simp: pool_step_def)
    qed
    then show ?case using Cons.IH [OF step_inv [OF Cons.prems(1)]] by (simp add: pool_run_def)
  qed (simp add: pool_run_def)
  then show ?thesis using start_inv [OF assms(2)] by (simp add: pool_start_def)
qed

lemma held_done: "list_all (\<lambda>w. w = Done) ws \<Longrightarrow> held ws = {#}"
  by (induction ws) (simp_all add: held_def)

text \<open>
  A pool that has come to its end without an error has worked on every item exactly once, and
  left what its items make of the shared state in the order they were finished.
\<close>

lemma finished_all:
  assumes "Q w" and "0 < jobs"
    and "all_done (pool_run items work sched (pool_start jobs w s0))"
    and "refused (pool_run items work sched (pool_start jobs w s0)) = []"
  shows "\<exists>ord. mset ord = mset [0 ..< items] \<and>
    shared (pool_run items work sched (pool_start jobs w s0)) = fold item ord s0"
proof -
  let ?p = "pool_run items work sched (pool_start jobs w s0)"
  have inv: "pool_inv items Q item s0 ?p" using assms(1) by (intro run_inv start_inv)
  have ws: "workers ?p \<noteq> []" using assms(2) by (auto simp: pool_start_def simp flip: length_0_conv)
  have "list_all (\<lambda>w. w = Done) (workers ?p)" using assms(3) by (simp add: all_done_def list_all_iff)
  then have "held (workers ?p) = {#}" "Done \<in> set (workers ?p)"
    using ws by (simp_all add: held_done) (cases "workers ?p"; simp)
  then have "mset (finished ?p) = mset [0 ..< items]" "shared ?p = fold item (finished ?p) s0"
    using inv assms(4) by (auto simp: pool_inv_def min_absorb2)
  then show ?thesis by blast
qed

end

end
