(* ===== verification/FileSet.thy ===== *)
theory FileSet
  imports Pool GoStr
begin

text \<open>
  The deterministic file set, \<^verbatim>\<open>packages/fragload/main.go\<close> and \<^verbatim>\<open>packages/fragcheck/main.go\<close>:
  contents derived from a seed and an index, the workers that write them, the workers that
  read them back and say how many differ, reading passes in shuffled order, and the cloning
  of one file piece by piece. The file system is a map from names below the directory of the
  set to contents; what a call of the system does is an argument.
\<close>

section \<open>Contents\<close>

text \<open>\<^verbatim>\<open>rand.PCG\<close> of \<^verbatim>\<open>math/rand/v2\<close>: a 128-bit linear congruence and a 64-bit output mix.\<close>

type_synonym pcg = "128 word"

definition pcg_new :: "u64 \<Rightarrow> u64 \<Rightarrow> pcg" where
  "pcg_new s1 s2 = word_cat s1 s2"

definition pcg_mul :: pcg where
  "pcg_mul = word_cat (2549297995355413924 :: u64) (4865540595714422341 :: u64)"

definition pcg_inc :: pcg where
  "pcg_inc = word_cat (6364136223846793005 :: u64) (1442695040888963407 :: u64)"

definition pcg_uint64 :: "pcg \<Rightarrow> u64 \<times> pcg" where
  "pcg_uint64 r =
     (let r' = r * pcg_mul + pcg_inc;
          hi = ucast (drop_bit 64 r') :: u64; lo = ucast r' :: u64;
          h1 = (hi XOR drop_bit 32 hi) * 0xda942042e4dd58b5;
          h2 = (h1 XOR drop_bit 48 h1) * (lo OR 1)
      in (h2, r'))"

text \<open>The loop of \<^verbatim>\<open>fill\<close>: whole words only, so that a tail of up to seven bytes stays.\<close>

fun fill_from :: "pcg \<Rightarrow> u8 list \<Rightarrow> u8 list" where
  "fill_from r buf =
     (if length buf < 8 then buf
      else (let (x, r') = pcg_uint64 r in put_u64 x @ fill_from r' (drop 8 buf)))"

declare fill_from.simps [simp del]

definition fill :: "u8 list \<Rightarrow> u64 \<Rightarrow> nat \<Rightarrow> u8 list" where
  "fill buf seed idx = fill_from (pcg_new seed (of_nat idx + 0x9E3779B97F4A7C15)) buf"

definition zeros :: "nat \<Rightarrow> u8 list" where
  "zeros fsize = replicate fsize 0"

definition contents :: "nat \<Rightarrow> u64 \<Rightarrow> nat \<Rightarrow> u8 list" where
  "contents fsize seed idx = fill (zeros fsize) seed idx"

text \<open>A buffer that has only ever been filled.\<close>

definition clean :: "nat \<Rightarrow> u8 list \<Rightarrow> bool" where
  "clean fsize buf \<longleftrightarrow> (\<forall>r. fill_from r buf = fill_from r (zeros fsize))"

lemma length_fill_from [simp]: "length (fill_from r buf) = length buf"
proof (induction r buf rule: fill_from.induct)
  case (1 r buf)
  then show ?case
    by (cases "pcg_uint64 r") (auto simp: fill_from.simps [of r buf])
qed

lemma fill_again: "fill_from r' (fill_from r buf) = fill_from r' buf"
proof (induction r buf arbitrary: r' rule: fill_from.induct)
  case (1 r buf)
  show ?case
  proof (cases "length buf < 8")
    case True
    then show ?thesis by (simp add: fill_from.simps [of r buf])
  next
    case False
    obtain x r1 where x: "pcg_uint64 r = (x, r1)" by fastforce
    obtain y r2 where y: "pcg_uint64 r' = (y, r2)" by fastforce
    have "fill_from r buf = put_u64 x @ fill_from r1 (drop 8 buf)"
      using False x by (simp add: fill_from.simps [of r buf])
    then have "fill_from r' (fill_from r buf) = put_u64 y @ fill_from r2 (fill_from r1 (drop 8 buf))"
      using y by (simp add: fill_from.simps [of r' "put_u64 x @ _"])
    also have "\<dots> = put_u64 y @ fill_from r2 (drop 8 buf)" using "1.IH" [of "(x, r1)"] False x by simp
    also have "\<dots> = fill_from r' buf" using False y by (simp add: fill_from.simps [of r' buf])
    finally show ?thesis .
  qed
qed

lemma clean_zeros: "clean fsize (zeros fsize)"
  by (simp add: clean_def)

lemma clean_fill: "clean fsize buf \<Longrightarrow> clean fsize (fill buf seed idx)"
  by (simp add: clean_def fill_def fill_again)

lemma fill_clean: "clean fsize buf \<Longrightarrow> fill buf seed idx = contents fsize seed idx"
  by (simp add: clean_def fill_def contents_def)

lemma fill_zeros: "fill (zeros fsize) seed idx = contents fsize seed idx"
  by (simp add: contents_def)

lemma clean_contents: "clean fsize (contents fsize seed idx)"
  unfolding contents_def by (rule clean_fill [OF clean_zeros])

lemma length_contents [simp]: "length (contents fsize seed idx) = fsize"
  by (simp add: contents_def fill_def zeros_def)

section \<open>Names\<close>

definition zero_pad :: "nat \<Rightarrow> nat \<Rightarrow> string" where
  "zero_pad w n = replicate (w - length (decimal n)) CHR ''0'' @ decimal n"

definition dir_name :: "nat \<Rightarrow> string" where
  "dir_name i = ''d'' @ zero_pad 3 i"

text \<open>\<^verbatim>\<open>path\<close>, below the directory of the set.\<close>

definition path :: "nat \<Rightarrow> nat \<Rightarrow> string" where
  "path idx perDir = dir_name (idx div perDir) @ ''/f'' @ zero_pad 6 idx"

definition dec_val :: "string \<Rightarrow> nat" where
  "dec_val s = foldl (\<lambda>a c. a * 10 + (of_char c - 48)) 0 s"

lemma dec_val_snoc: "dec_val (s @ [c]) = dec_val s * 10 + (of_char c - 48)"
  by (simp add: dec_val_def)

lemma dec_val_decimal: "dec_val (decimal n) = n"
proof (induction n rule: decimal.induct)
  case (1 n)
  have "of_char (digit d) - 48 = d" if "d < 10" for d :: nat using that by (simp add: digit_def)
  then show ?case
    using 1 dec_val_snoc [of "[]"] dec_val_snoc by (simp add: decimal.simps [of n] dec_val_def)
qed

lemma dec_val_zero_pad: "dec_val (zero_pad w n) = n"
proof -
  have "dec_val (replicate k CHR ''0'' @ s) = dec_val s" for k s
    by (induction k) (simp_all add: dec_val_def)
  then show ?thesis by (simp add: zero_pad_def dec_val_decimal)
qed

lemma digit_not_slash:
  assumes "d < 10"
  shows "digit d \<noteq> CHR ''/''"
proof
  assume "digit d = CHR ''/''"
  then have "of_char (digit d) = (of_char CHR ''/'' :: nat)" by (rule arg_cong)
  then show False using assms by (simp add: digit_def)
qed

lemma decimal_no_slash: "CHR ''/'' \<notin> set (decimal n)"
proof (induction n rule: decimal.induct)
  case (1 n)
  then show ?case
    using digit_not_slash [of n] digit_not_slash [of "n mod 10"]
    by (cases "n < 10") (auto simp: decimal.simps [of n])
qed

lemma dir_name_no_slash: "CHR ''/'' \<notin> set (dir_name i)"
  by (simp add: dir_name_def zero_pad_def decimal_no_slash)

lemma path_inj: "path i perDir = path j perDir \<Longrightarrow> i = j"
proof -
  assume "path i perDir = path j perDir"
  then have "cut ''/'' (path i perDir) = cut ''/'' (path j perDir)" by simp
  then have "zero_pad 6 i = zero_pad 6 j"
    using cut_char [OF dir_name_no_slash] by (simp add: path_def)
  then show ?thesis using dec_val_zero_pad by metis
qed


section \<open>Writing\<close>

text \<open>
  What \<^verbatim>\<open>os.WriteFile\<close> does with a file: all of it is written, or it fails and leaves what the
  argument says. A file below a directory that is not there fails.
\<close>

datatype outcome = Written | WriteFailed "u8 list option"

type_synonym store = "string \<Rightarrow> u8 list option"

text \<open>
  \<^verbatim>\<open>os.MkdirAll\<close> for every directory of the set, before any worker starts. It succeeds for the
  numbers in \<open>mk\<close>, and the first failure is returned.
\<close>

fun make_dirs :: "(nat \<Rightarrow> bool) \<Rightarrow> nat \<Rightarrow> nat \<Rightarrow> string list \<Rightarrow> string list go_result" where
  "make_dirs mk i 0 dirs = Inr dirs"
| "make_dirs mk i (Suc n) dirs =
     (if mk i then make_dirs mk (i + 1) n (dirs @ [dir_name i]) else Inl (IOError ''mkdir''))"

definition write_file ::
  "string list \<Rightarrow> u64 \<Rightarrow> nat \<Rightarrow> (nat \<Rightarrow> outcome) \<Rightarrow> (u8 list, store) body" where
  "write_file dirs seed perDir disk i buf fs =
     (let buf' = fill buf seed i; name = path i perDir
      in if dir_name (i div perDir) \<notin> set dirs then (buf', fs, False)
         else (case disk i of
                 Written \<Rightarrow> (buf', fs(name \<mapsto> buf'), True)
               | WriteFailed None \<Rightarrow> (buf', fs, False)
               | WriteFailed (Some part) \<Rightarrow> (buf', fs(name \<mapsto> part), False)))"

text \<open>
  \<^verbatim>\<open>write\<close>, with the schedule of its workers: the files it leaves and its result. Dividing by a
  \<^verbatim>\<open>-per-dir\<close> of zero stops the program.
\<close>

definition write_set ::
  "(nat \<Rightarrow> bool) \<Rightarrow> (nat \<Rightarrow> outcome) \<Rightarrow> nat \<Rightarrow> nat \<Rightarrow> u64 \<Rightarrow> nat \<Rightarrow> nat \<Rightarrow> nat list \<Rightarrow> store \<Rightarrow>
   (u8 list, store) pool go_result" where
  "write_set mk disk files fsize seed perDir jobs sched fs =
     (if perDir = 0 then Inl DivideByZero
      else and_then (make_dirs mk 0 ((files + perDir - 1) div perDir) []) (\<lambda>dirs.
        Inr (pool_run files (write_file dirs seed perDir disk) sched
               (pool_start jobs (zeros fsize) fs))))"

definition write_result :: "(u8 list, store) pool \<Rightarrow> nat option" where
  "write_result p = (case refused p of [] \<Rightarrow> None | i # _ \<Rightarrow> Some i)"

lemma make_dirs_names:
  "make_dirs mk i n dirs = Inr ds \<Longrightarrow> set ds = set dirs \<union> dir_name ` {i ..< i + n}"
proof (induction n arbitrary: i dirs)
  case (Suc n)
  have "{i ..< i + Suc n} = insert i {i + 1 ..< i + 1 + n}" by auto
  then show ?case using Suc by (auto split: if_splits)
qed simp

lemma dir_covered:
  fixes i files perDir :: nat
  assumes "i < files" and "0 < perDir"
  shows "i div perDir < (files + perDir - 1) div perDir"
proof -
  have "i div perDir + 1 = (i + perDir) div perDir" using assms(2) by (subst div_add_self2) simp_all
  also have "\<dots> \<le> (files + perDir - 1) div perDir" using assms by (intro div_le_mono) linarith
  finally show ?thesis by simp
qed

definition put_contents :: "nat \<Rightarrow> u64 \<Rightarrow> nat \<Rightarrow> nat \<Rightarrow> store \<Rightarrow> store" where
  "put_contents fsize seed perDir i fs = fs(path i perDir \<mapsto> contents fsize seed i)"

lemma put_all:
  "i \<in> set ord \<Longrightarrow> fold (put_contents fsize seed perDir) ord fs (path i perDir) = Some (contents fsize seed i)"
  by (induction ord rule: rev_induct) (auto simp: put_contents_def dest: path_inj)

interpretation writers: worker_pool files "write_file dirs seed perDir disk" "clean fsize"
    "put_contents fsize seed perDir"
  for files dirs seed perDir disk fsize
proof
  fix buf i s buf' s' ok
  assume q: "clean fsize buf"
  show "clean fsize buf'" if "write_file dirs seed perDir disk i buf s = (buf', s', ok)"
    using that clean_fill [OF q]
    by (auto simp: write_file_def Let_def split: if_splits outcome.splits option.splits)
  show "s' = put_contents fsize seed perDir i s"
    if "write_file dirs seed perDir disk i buf s = (buf', s', True)"
    using that fill_clean [OF q]
    by (auto simp: write_file_def put_contents_def Let_def split: if_splits outcome.splits option.splits)
qed

lemma written_all:
  assumes "write_set mk disk files fsize seed perDir jobs sched fs = Inr p"
    and "0 < jobs" and "all_done p" and "write_result p = None" and "i < files"
  shows "shared p (path i perDir) = Some (contents fsize seed i)"
proof -
  obtain dirs where p: "p = pool_run files (write_file dirs seed perDir disk) sched
      (pool_start jobs (zeros fsize) fs)"
    using assms(1) by (auto simp: write_set_def and_then_Inr_iff split: if_splits)
  have "refused p = []" using assms(4) by (simp add: write_result_def split: list.splits)
  then obtain ord where "mset ord = mset [0 ..< files]"
    "shared p = fold (put_contents fsize seed perDir) ord fs"
    using writers.finished_all [OF clean_zeros assms(2)] assms(3) p by blast
  moreover have "i \<in> set ord"
    using calculation(1) assms(5) by (metis atLeastLessThan_iff less_eq_nat.simps(1) set_mset_mset set_upt)
  ultimately show ?thesis using put_all by simp
qed

section \<open>Reading back\<close>

datatype fault =
    Unreadable
  | WrongLength nat
  | WrongByte nat u8 u8

fun first_diff :: "nat \<Rightarrow> u8 list \<Rightarrow> u8 list \<Rightarrow> fault option" where
  "first_diff off (g # gs) (w # ws) =
     (if g \<noteq> w then Some (WrongByte off g w) else first_diff (off + 1) gs ws)"
| "first_diff off _ _ = None"

record audit =
  aTotal :: u64
  aBad :: nat
  aFirst :: "(nat \<times> fault) option"
  aPanic :: bool

definition audit_start :: audit where
  "audit_start = \<lparr>aTotal = 0, aBad = 0, aFirst = None, aPanic = False\<rparr>"

text \<open>
  \<^verbatim>\<open>bad.Add\<close> and \<^verbatim>\<open>first.CompareAndSwap\<close>. An \<^verbatim>\<open>atomic.Value\<close> holds values of one concrete type and
  panics when it is offered another, whatever it is compared with. The error of a file that
  cannot be read wraps the one of the system, the others wrap nothing: two types.
\<close>

definition wrapped :: "fault \<Rightarrow> bool" where
  "wrapped flt \<longleftrightarrow> flt = Unreadable"

definition blame :: "nat \<Rightarrow> fault \<Rightarrow> audit \<Rightarrow> audit" where
  "blame i flt a =
     (let a' = a\<lparr>aBad := aBad a + 1\<rparr>
      in case aFirst a of
           None \<Rightarrow> a'\<lparr>aFirst := Some (i, flt)\<rparr>
         | Some (_, flt0) \<Rightarrow> if wrapped flt = wrapped flt0 then a' else a'\<lparr>aPanic := True\<rparr>)"

definition verify_file :: "store \<Rightarrow> nat \<Rightarrow> u64 \<Rightarrow> nat \<Rightarrow> (u8 list, audit) body" where
  "verify_file fs fsize seed perDir i want a =
     (case fs (path i perDir) of
        None \<Rightarrow> (want, blame i Unreadable a, True)
      | Some got \<Rightarrow>
          (let a' = a\<lparr>aTotal := aTotal a + of_nat (length got)\<rparr>
           in if length got \<noteq> fsize then (want, blame i (WrongLength (length got)) a', True)
              else (let want' = fill want seed i
                    in case first_diff 0 got want' of
                         None \<Rightarrow> (want', a', True)
                       | Some flt \<Rightarrow> (want', blame i flt a', True))))"

definition verify :: "store \<Rightarrow> nat \<Rightarrow> nat \<Rightarrow> u64 \<Rightarrow> nat \<Rightarrow> nat \<Rightarrow> nat list \<Rightarrow> (u8 list, audit) pool go_result" where
  "verify fs files fsize seed perDir jobs sched =
     (if perDir = 0 \<and> 0 < files \<and> 0 < jobs then Inl DivideByZero
      else Inr (pool_run files (verify_file fs fsize seed perDir) sched
                  (pool_start jobs (zeros fsize) audit_start)))"

text \<open>
  The bytes read, and the number of files that differ with the first of them, if any do. A panic
  of one worker is the end of the program: nothing else is reported.
\<close>

datatype verdict_of_set = Panicked | Ended u64 "(nat \<times> (nat \<times> fault) option) option"

definition verify_result :: "(u8 list, audit) pool \<Rightarrow> verdict_of_set" where
  "verify_result p =
     (let a = shared p
      in if aPanic a then Panicked
         else Ended (aTotal a) (if aBad a > 0 then Some (aBad a, aFirst a) else None))"


section \<open>What reading back finds\<close>

text \<open>A file that does not hold what its index and the seed say.\<close>

definition damaged :: "store \<Rightarrow> nat \<Rightarrow> u64 \<Rightarrow> nat \<Rightarrow> nat \<Rightarrow> bool" where
  "damaged fs fsize seed perDir i \<longleftrightarrow> fs (path i perDir) \<noteq> Some (contents fsize seed i)"

definition bytes_at :: "store \<Rightarrow> nat \<Rightarrow> nat \<Rightarrow> nat" where
  "bytes_at fs perDir i = (case fs (path i perDir) of None \<Rightarrow> 0 | Some got \<Rightarrow> length got)"

definition audit_file :: "store \<Rightarrow> nat \<Rightarrow> u64 \<Rightarrow> nat \<Rightarrow> nat \<Rightarrow> audit \<Rightarrow> audit" where
  "audit_file fs fsize seed perDir i a = fst (snd (verify_file fs fsize seed perDir i (zeros fsize) a))"

lemma first_diff_None: "length gs = length ws \<Longrightarrow> first_diff off gs ws = None \<longleftrightarrow> gs = ws"
  by (induction off gs ws rule: first_diff.induct) auto

definition unreadable :: "store \<Rightarrow> nat \<Rightarrow> nat \<Rightarrow> bool" where
  "unreadable fs perDir i \<longleftrightarrow> fs (path i perDir) = None"

lemma unreadable_damaged: "unreadable fs perDir i \<Longrightarrow> damaged fs fsize seed perDir i"
  by (simp add: unreadable_def damaged_def)

lemma first_diff_not_wrapped: "first_diff off gs ws = Some flt \<Longrightarrow> \<not> wrapped flt"
  by (induction off gs ws rule: first_diff.induct) (auto simp: wrapped_def split: if_splits)

lemma audit_file_cases:
  "\<exists>flt. wrapped flt = unreadable fs perDir i \<and> audit_file fs fsize seed perDir i a =
     (let a' = a\<lparr>aTotal := aTotal a + of_nat (bytes_at fs perDir i)\<rparr>
      in if damaged fs fsize seed perDir i then blame i flt a' else a')"
proof (cases "fs (path i perDir)")
  case None
  then show ?thesis
    by (intro exI [of _ Unreadable])
      (simp add: audit_file_def verify_file_def damaged_def bytes_at_def unreadable_def wrapped_def)
next
  case (Some got)
  have r: "\<not> unreadable fs perDir i" using Some by (simp add: unreadable_def)
  show ?thesis
  proof (cases "length got = fsize")
    case True
    then have d: "first_diff 0 got (contents fsize seed i) = None \<longleftrightarrow> \<not> damaged fs fsize seed perDir i"
      using Some by (simp add: first_diff_None damaged_def)
    show ?thesis
    proof (cases "first_diff 0 got (contents fsize seed i)")
      case None
      then show ?thesis
        using d True Some r fill_clean [OF clean_zeros]
        by (intro exI [of _ "WrongLength 0"])
          (simp add: audit_file_def verify_file_def bytes_at_def Let_def wrapped_def)
    next
      case f: (Some flt)
      then show ?thesis
        using d True Some r fill_clean [OF clean_zeros] first_diff_not_wrapped [OF f]
        by (intro exI [of _ flt]) (simp add: audit_file_def verify_file_def bytes_at_def Let_def)
    qed
  next
    case False
    then have "damaged fs fsize seed perDir i" using Some by (auto simp: damaged_def)
    then show ?thesis
      using Some False r
      by (intro exI [of _ "WrongLength (length got)"])
        (auto simp: audit_file_def verify_file_def bytes_at_def Let_def wrapped_def)
  qed
qed

lemma blame_total [simp]: "aTotal (blame i flt a) = aTotal a" "aBad (blame i flt a) = aBad a + 1"
  by (auto simp: blame_def Let_def split: option.split)

lemma audit_all:
  "(\<Sum>i\<leftarrow>ord. bytes_at fs perDir i) = n \<Longrightarrow>
   let a = fold (audit_file fs fsize seed perDir) ord audit_start
   in aTotal a = of_nat n \<and> aBad a = length (filter (damaged fs fsize seed perDir) ord) \<and>
      (case aFirst a of
         None \<Rightarrow> \<not> aPanic a \<and> (\<forall>j \<in> set ord. \<not> damaged fs fsize seed perDir j)
       | Some (i, flt) \<Rightarrow> i \<in> set ord \<and> damaged fs fsize seed perDir i \<and> wrapped flt = unreadable fs perDir i \<and>
           (aPanic a \<longleftrightarrow> (\<exists>j \<in> set ord. damaged fs fsize seed perDir j \<and> unreadable fs perDir j \<noteq> unreadable fs perDir i)))"
proof (induction ord arbitrary: n rule: rev_induct)
  case (snoc i ord)
  let ?a = "fold (audit_file fs fsize seed perDir) ord audit_start"
  obtain flt where flt: "wrapped flt = unreadable fs perDir i"
    and step: "audit_file fs fsize seed perDir i ?a =
     (let a' = ?a\<lparr>aTotal := aTotal ?a + of_nat (bytes_at fs perDir i)\<rparr>
      in if damaged fs fsize seed perDir i then blame i flt a' else a')"
    using audit_file_cases by blast
  note IH = snoc.IH [OF refl, unfolded Let_def]
  have run: "fold (audit_file fs fsize seed perDir) (ord @ [i]) audit_start = audit_file fs fsize seed perDir i ?a"
    by simp
  show ?case
  proof (cases "damaged fs fsize seed perDir i")
    case False
    then show ?thesis
      unfolding run step using IH snoc.prems by (cases "aFirst ?a") (auto simp: Let_def)
  next
    case True
    show ?thesis
    proof (cases "aFirst ?a")
      case None
      then show ?thesis
        unfolding run step using IH snoc.prems True flt by (simp add: Let_def blame_def) auto
    next
      case (Some p)
      then show ?thesis
        unfolding run step using IH snoc.prems True flt by (cases p) (auto simp: Let_def blame_def)
    qed
  qed
qed (simp add: audit_start_def)

lemma verify_file_clean:
  "clean fsize buf \<Longrightarrow>
   clean fsize (fst (verify_file fs fsize seed perDir i buf a)) \<and>
   fst (snd (verify_file fs fsize seed perDir i buf a)) = audit_file fs fsize seed perDir i a \<and>
   snd (snd (verify_file fs fsize seed perDir i buf a))"
  by (auto simp: verify_file_def audit_file_def Let_def fill_clean fill_zeros clean_contents
      split: option.splits)

interpretation readers: worker_pool files "verify_file fs fsize seed perDir" "clean fsize"
    "audit_file fs fsize seed perDir"
  for files fs fsize seed perDir
  by unfold_locales (use verify_file_clean in \<open>metis fst_conv snd_conv\<close>)+

lemma verify_finished:
  assumes "verify fs files fsize seed perDir jobs sched = Inr q" and "0 < jobs" and "all_done q"
  shows "\<exists>ord. mset ord = mset [0 ..< files] \<and>
    shared q = fold (audit_file fs fsize seed perDir) ord audit_start"
proof -
  have q: "q = pool_run files (verify_file fs fsize seed perDir) sched
      (pool_start jobs (zeros fsize) audit_start)"
    using assms(1) by (simp add: verify_def split: if_splits)
  have "refused q = []" unfolding q using verify_file_clean by (intro readers.no_refusal clean_zeros) blast
  then show ?thesis
    using readers.finished_all [OF clean_zeros assms(2)] assms(3) unfolding q by blast
qed

lemma ord_facts:
  assumes "mset ord = mset [0 ..< files]"
  shows "(\<Sum>i\<leftarrow>ord. f i) = (\<Sum>i < files. f i :: nat)"
    and "length (filter P ord) = card {i. i < files \<and> P i}"
    and "set ord = {..< files}"
proof -
  show "set ord = {..< files}" using assms by (metis lessThan_atLeast0 atLeast_upt mset_eq_setD)
  have "(\<Sum>i\<leftarrow>ord. f i) = sum_mset (image_mset f (mset ord))" by (simp add: sum_mset_sum_list flip: mset_map)
  also have "\<dots> = (\<Sum>i\<leftarrow>[0 ..< files]. f i)" unfolding assms by (metis mset_map sum_mset_sum_list)
  finally show "(\<Sum>i\<leftarrow>ord. f i) = (\<Sum>i < files. f i)"
    by (simp add: interv_sum_list_conv_sum_set_nat lessThan_atLeast0)
  have "distinct ord" using assms by (metis distinct_upt mset_eq_imp_distinct_iff)
  then have "length (filter P ord) = card (set (filter P ord))" by (metis distinct_card distinct_filter)
  then show "length (filter P ord) = card {i. i < files \<and> P i}"
    using \<open>set ord = {..< files}\<close> by (simp add: conj_commute)
qed

text \<open>
  C34. What reading the set back reports: however the workers are interleaved, if some files cannot
  be read and others hold the wrong bytes the program panics instead of reporting; otherwise the
  number of files reported is the number that do not hold the contents their index and the seed
  give, the file named is one of those, no damage is reported if there is none, and the bytes
  are those of all files that could be read.
\<close>

theorem verify_counts_damage:
  assumes "verify fs files fsize seed perDir jobs sched = Inr q" and "0 < jobs" and "all_done q"
  shows "let bad = {i. i < files \<and> damaged fs fsize seed perDir i};
             missing = {i. i < files \<and> unreadable fs perDir i};
             tot = of_nat (\<Sum>i < files. bytes_at fs perDir i)
    in if missing \<noteq> {} \<and> missing \<noteq> bad then verify_result q = Panicked
       else if bad = {} then verify_result q = Ended tot None
       else \<exists>i \<in> bad. \<exists>flt. verify_result q = Ended tot (Some (card bad, Some (i, flt)))"
proof -
  let ?bad = "{i. i < files \<and> damaged fs fsize seed perDir i}"
  let ?missing = "{i. i < files \<and> unreadable fs perDir i}"
  obtain ord where ord: "mset ord = mset [0 ..< files]"
      "shared q = fold (audit_file fs fsize seed perDir) ord audit_start"
    using verify_finished [OF assms] by blast
  note a = audit_all [OF refl, where ord = ord and fs = fs and perDir = perDir and fsize = fsize and seed = seed, folded ord(2), unfolded Let_def]
  have total: "aTotal (shared q) = of_nat (\<Sum>i < files. bytes_at fs perDir i)"
    using a ord_facts(1) [OF ord(1)] by simp
  have bad: "aBad (shared q) = card ?bad" using a ord_facts(2) [OF ord(1)] by simp
  have sub: "?missing \<subseteq> ?bad" using unreadable_damaged by blast
  show ?thesis
  proof (cases "aFirst (shared q)")
    case None
    then have none: "?bad = {}" using a ord_facts(3) [OF ord(1)] by auto
    then have "?missing = {}" using sub by blast
    moreover have "verify_result q = Ended (of_nat (\<Sum>i < files. bytes_at fs perDir i)) None"
      using None a total bad none by (simp add: verify_result_def Let_def)
    ultimately show ?thesis unfolding Let_def none by simp
  next
    case (Some p)
    obtain i flt where p: "p = (i, flt)" by fastforce
    have i: "i \<in> ?bad" using Some p a ord_facts(3) [OF ord(1)] by simp
    have panic: "aPanic (shared q) \<longleftrightarrow> (\<exists>j \<in> ?bad. unreadable fs perDir j \<noteq> unreadable fs perDir i)"
      using Some p a ord_facts(3) [OF ord(1)] by auto
    also have "\<dots> \<longleftrightarrow> ?missing \<noteq> {} \<and> ?missing \<noteq> ?bad" using i sub by blast
    finally have pan: "aPanic (shared q) \<longleftrightarrow> ?missing \<noteq> {} \<and> ?missing \<noteq> ?bad" .
    have "finite ?bad" by simp
    then have pos: "0 < card ?bad" using i by (metis card_gt_0_iff empty_iff)
    show ?thesis
    proof (cases "aPanic (shared q)")
      case True
      then show ?thesis using pan by (simp add: verify_result_def Let_def)
    next
      case False
      then have "verify_result q = Ended (of_nat (\<Sum>i < files. bytes_at fs perDir i)) (Some (card ?bad, Some (i, flt)))"
        using total bad pos Some p by (simp add: verify_result_def Let_def)
      moreover have "\<not> (?missing \<noteq> {} \<and> ?missing \<noteq> ?bad)" using False pan by blast
      moreover have "?bad \<noteq> {}" using i by blast
      ultimately show ?thesis unfolding Let_def using i by (simp only: if_False simp_thms) blast
    qed
  qed
qed

text \<open>One file is gone, the other empty: the first report and the second are of different types.\<close>

definition half_gone :: store where
  "half_gone = Map.empty(path 1 1000 \<mapsto> [])"

lemma verify_counts_damage_witness:
  "\<exists>q. verify half_gone 2 8 1 1000 1 [0, 0, 0, 0, 0] = Inr q \<and> verify_result q = Panicked"
proof -
  obtain q where q: "verify half_gone 2 8 1 1000 1 [0, 0, 0, 0, 0] = Inr q" by (simp add: verify_def)
  have "2 * 2 + 1 \<le> count_list [0, 0, 0, 0, 0] j" if "j < 1" for j :: nat using that by simp
  then have "all_done q"
    using q pool_all_done [of 1 2 "[0, 0, 0, 0, 0]"] by (auto simp: verify_def)
  note V = verify_counts_damage [OF q _ this, unfolded Let_def]
  have p: "path 0 1000 \<noteq> path 1 1000" using path_inj by fastforce
  then have "0 \<in> {i. i < 2 \<and> unreadable half_gone 1000 i}" "1 \<notin> {i. i < 2 \<and> unreadable half_gone 1000 i}"
    by (simp_all add: unreadable_def half_gone_def)
  moreover have "contents 8 1 1 \<noteq> []"
    by (metis length_contents list.size(3) zero_neq_numeral)
  then have "1 \<in> {i. i < 2 \<and> damaged half_gone 8 1 1000 i}" by (simp add: damaged_def half_gone_def)
  ultimately have "verify_result q = Panicked" using V by (metis (no_types, lifting) empty_iff zero_less_one)
  then show ?thesis using q by blast
qed

text \<open>
  C33. What is written reads back: on a disk that takes every directory and every file, the
  workers of \<^verbatim>\<open>fragload\<close> under any schedule that lets each of them come to its end leave a
  set that \<^verbatim>\<open>fragcheck\<close>, with any number of workers in any order, reads in full and finds
  undamaged. One buffer serves many files of a worker without leaking from one to the next.
\<close>

theorem write_then_verify:
  assumes "0 < perDir" and "0 < jobs" and "0 < readers"
    and "\<And>j. j < jobs \<Longrightarrow> 2 * files + 1 \<le> count_list sched j"
    and "\<And>j. j < readers \<Longrightarrow> 2 * files + 1 \<le> count_list sched' j"
  shows "\<exists>p q. write_set (\<lambda>_. True) (\<lambda>_. Written) files fsize seed perDir jobs sched fs = Inr p \<and>
    all_done p \<and> write_result p = None \<and>
    verify (shared p) files fsize seed perDir readers sched' = Inr q \<and>
    all_done q \<and> verify_result q = Ended (of_nat (files * fsize)) None"
proof -
  have "make_dirs (\<lambda>_. True) i n ds \<noteq> Inl e" for i n ds e by (induction n arbitrary: i ds) auto
  then obtain dirs where dirs: "make_dirs (\<lambda>_. True) 0 ((files + perDir - 1) div perDir) [] = Inr dirs"
    by (metis sum.exhaust_sel)
  define p where "p = pool_run files (write_file dirs seed perDir (\<lambda>_. Written)) sched
    (pool_start jobs (zeros fsize) fs)"
  define q where "q = pool_run files (verify_file (shared p) fsize seed perDir) sched'
    (pool_start readers (zeros fsize) audit_start)"
  have p: "write_set (\<lambda>_. True) (\<lambda>_. Written) files fsize seed perDir jobs sched fs = Inr p"
    using assms(1) dirs by (simp add: write_set_def p_def)
  have q: "verify (shared p) files fsize seed perDir readers sched' = Inr q"
    using assms(1) by (simp add: verify_def q_def)
  have done_p: "all_done p" and done_q: "all_done q"
    unfolding p_def q_def by (rule pool_all_done, erule assms)+
  have "snd (snd (write_file dirs seed perDir (\<lambda>_. Written) i buf s))" if "i < files" for i buf s
    using make_dirs_names [OF dirs] dir_covered [OF that assms(1)] by (simp add: write_file_def Let_def)
  then have "refused p = []"
    unfolding p_def by (intro writers.no_refusal [where fsize = fsize] clean_zeros) blast
  then have none: "write_result p = None" by (simp add: write_result_def)
  have stored: "shared p (path i perDir) = Some (contents fsize seed i)" if "i < files" for i
    using written_all [OF p assms(2) done_p none that] .
  then have "\<not> damaged (shared p) fsize seed perDir i" if "i < files" for i
    using that by (simp add: damaged_def)
  moreover have "(\<Sum>i < files. bytes_at (shared p) perDir i) = files * fsize"
    using stored by (simp add: bytes_at_def)
  moreover obtain ord where ord: "mset ord = mset [0 ..< files]"
      "shared q = fold (audit_file (shared p) fsize seed perDir) ord audit_start"
    using verify_finished [OF q assms(3) done_q] by blast
  moreover note a = audit_all [OF refl, where ord = ord and fs = "shared p" and perDir = perDir
      and fsize = fsize and seed = seed, folded ord(2), unfolded Let_def]
  ultimately have "aBad (shared q) = 0" "aTotal (shared q) = of_nat (files * fsize)" "\<not> aPanic (shared q)"
    using ord_facts(1,3) [OF ord(1)] a by (auto simp: filter_empty_conv split: option.splits prod.splits)
  then have "verify_result q = Ended (of_nat (files * fsize)) None" by (simp add: verify_result_def Let_def)
  then show ?thesis using p q done_p done_q none by blast
qed

lemma write_then_verify_witness:
  "\<exists>p q. write_set (\<lambda>_. True) (\<lambda>_. Written) 2 12 7 1 2 [0, 1, 0, 1, 0, 1, 0, 1, 0, 1] Map.empty = Inr p \<and>
    verify (shared p) 2 12 7 1 1 [0, 0, 0, 0, 0] = Inr q \<and> verify_result q = Ended 24 None"
proof -
  have "2 * 2 + 1 \<le> count_list [0, 1, 0, 1, 0, 1, 0, 1, 0, 1] j" if "j < 2" for j :: nat
    using that by (auto simp: less_2_cases_iff)
  moreover have "2 * 2 + 1 \<le> count_list [0, 0, 0, 0, 0] j" if "j < 1" for j :: nat
    using that by simp
  ultimately show ?thesis
    using write_then_verify [of 1 2 1 2 "[0, 1, 0, 1, 0, 1, 0, 1, 0, 1]" "[0, 0, 0, 0, 0]" 12 7 Map.empty]
    by auto
qed

end
