(* ===== verification/FileOps.thy ===== *)
theory FileOps
  imports FileSet
begin

text \<open>
  The other modes on the file set: reading passes in shuffled order, the hot slice and cloning of
  \<^verbatim>\<open>packages/fragload/main.go\<close>, and the memory hog of \<^verbatim>\<open>packages/fragcheck/main.go\<close>. Deadlines are
  arguments: how many rounds fit, or which checks of the clock find it passed.
\<close>

section \<open>Reading passes\<close>

definition swap_at :: "nat \<Rightarrow> nat \<Rightarrow> nat list \<Rightarrow> nat list" where
  "swap_at a b xs = xs[a := xs ! b, b := xs ! a]"

text \<open>
  \<^verbatim>\<open>rand.Shuffle\<close>: from the last index down to one, each element changes places with one at a
  drawn index that is not above it. The draws are an argument.
\<close>

fun shuffle :: "(nat \<Rightarrow> nat) \<Rightarrow> nat \<Rightarrow> nat list \<Rightarrow> nat list" where
  "shuffle draw 0 order = order"
| "shuffle draw (Suc i) order = shuffle draw i (swap_at (Suc i) (draw (Suc i)) order)"

definition read_file :: "store \<Rightarrow> nat list \<Rightarrow> nat \<Rightarrow> nat \<Rightarrow> (unit, u64) body" where
  "read_file fs order fsize perDir k _ tot =
     (case fs (path (order ! k) perDir) of
        None \<Rightarrow> ((), tot, False)
      | Some got \<Rightarrow> ((), tot + of_nat (min fsize (length got)), True))"

text \<open>
  \<^verbatim>\<open>read\<close>: one pass for every pair of draws and schedule. The order is shuffled on from pass to
  pass; the first error ends the passes.
\<close>

fun read_passes ::
  "store \<Rightarrow> nat \<Rightarrow> nat \<Rightarrow> nat \<Rightarrow> nat \<Rightarrow> ((nat \<Rightarrow> nat) \<times> nat list) list \<Rightarrow> nat list \<Rightarrow> u64 \<Rightarrow>
   u64 \<times> nat option"
where
  "read_passes fs files fsize perDir jobs [] order tot = (tot, None)"
| "read_passes fs files fsize perDir jobs ((draw, sched) # ps) order tot =
     (let order' = shuffle draw (files - 1) order;
          p = pool_run files (read_file fs order' fsize perDir) sched (pool_start jobs () tot)
      in case refused p of
           [] \<Rightarrow> read_passes fs files fsize perDir jobs ps order' (shared p)
         | k # _ \<Rightarrow> (shared p, Some (order' ! k)))"

definition read_set ::
  "store \<Rightarrow> nat \<Rightarrow> nat \<Rightarrow> nat \<Rightarrow> nat \<Rightarrow> ((nat \<Rightarrow> nat) \<times> nat list) list \<Rightarrow> u64 \<times> nat option" where
  "read_set fs files fsize perDir jobs ps = read_passes fs files fsize perDir jobs ps [0 ..< files] 0"

lemma mset_swap_at: "a < length xs \<Longrightarrow> b < length xs \<Longrightarrow> mset (swap_at a b xs) = mset xs"
  by (simp add: swap_at_def mset_swap)

lemma shuffle_permutes:
  assumes "\<And>i. draw i \<le> i" and "i < length order \<or> i = 0"
  shows "mset (shuffle draw i order) = mset order"
  using assms(2)
proof (induction i arbitrary: order)
  case (Suc i)
  have "draw (Suc i) < length order" using assms(1) [of "Suc i"] Suc.prems by simp
  then have "mset (swap_at (Suc i) (draw (Suc i)) order) = mset order"
    using Suc.prems by (intro mset_swap_at) simp_all
  moreover have "length (swap_at (Suc i) (draw (Suc i)) order) = length order" by (simp add: swap_at_def)
  ultimately show ?case using Suc.IH Suc.prems by simp
qed simp

definition add_read :: "store \<Rightarrow> nat list \<Rightarrow> nat \<Rightarrow> nat \<Rightarrow> nat \<Rightarrow> u64 \<Rightarrow> u64" where
  "add_read fs order fsize perDir k tot = tot + of_nat (min fsize (bytes_at fs perDir (order ! k)))"

interpretation passes: worker_pool files "read_file fs order fsize perDir" "\<lambda>_. True"
    "add_read fs order fsize perDir"
  for files fs order fsize perDir
  by unfold_locales (auto simp: read_file_def add_read_def bytes_at_def split: option.splits)

lemma fold_add_read:
  "fold (add_read fs order fsize perDir) ks tot =
     tot + of_nat (\<Sum>k\<leftarrow>ks. min fsize (bytes_at fs perDir (order ! k)))"
  by (induction ks arbitrary: tot) (simp_all add: add_read_def)

text \<open>
  The passes read every file once each, whatever the draws and the schedules: with all files
  there the number of bytes is the same every time and no error is reported.
\<close>

theorem read_set_reads_all:
  assumes "\<And>i. i < files \<Longrightarrow> fs (path i perDir) \<noteq> None" and "0 < jobs"
    and "\<forall>(draw, sched) \<in> set ps. (\<forall>i. draw i \<le> i) \<and> (\<forall>j < jobs. 2 * files + 1 \<le> count_list sched j)"
  shows "read_set fs files fsize perDir jobs ps =
    (of_nat (length ps * (\<Sum>i < files. min fsize (bytes_at fs perDir i))), None)"
proof -
  let ?n = "\<Sum>i < files. min fsize (bytes_at fs perDir i)"
  have "read_passes fs files fsize perDir jobs ps order tot = (tot + of_nat (length ps * ?n), None)"
    if "mset order = mset [0 ..< files]" for order tot
    using that assms(3)
  proof (induction ps arbitrary: order tot)
    case (Cons d ps)
    obtain draw sched where d: "d = (draw, sched)" by fastforce
    have draw: "draw i \<le> i" and sched: "j < jobs \<Longrightarrow> 2 * files + 1 \<le> count_list sched j" for i j
      using Cons.prems(2) d by auto
    define ord where "ord = shuffle draw (files - 1) order"
    have len: "length order = files" using Cons.prems(1) by (metis mset_eq_length length_upt diff_zero)
    have "files - 1 < length order \<or> files - 1 = 0" using len by linarith
    then have ord: "mset ord = mset [0 ..< files]"
      unfolding ord_def using shuffle_permutes [OF draw, of "files - 1" order] Cons.prems(1) by simp
    have mem: "ord ! k < files" if "k < files" for k
      using ord_facts(3) [OF ord] that ord by (metis lessThan_iff nth_mem mset_eq_length length_upt diff_zero)
    let ?p = "pool_run files (read_file fs ord fsize perDir) sched (pool_start jobs () tot)"
    have "snd (snd (read_file fs ord fsize perDir k u t))" if "k < files" for k u t
      using assms(1) [OF mem [OF that]] by (auto simp: read_file_def split: option.splits)
    then have none: "refused ?p = []" by (intro passes.no_refusal TrueI)
    then obtain ks where ks: "mset ks = mset [0 ..< files]" "shared ?p = fold (add_read fs ord fsize perDir) ks tot"
      using passes.finished_all [OF TrueI assms(2) pool_all_done [OF sched]] by blast
    have "(\<Sum>k\<leftarrow>ks. min fsize (bytes_at fs perDir (ord ! k))) = (\<Sum>k < length ord. min fsize (bytes_at fs perDir (ord ! k)))"
      using ord_facts(1) [OF ks(1)] ord by (metis mset_eq_length length_upt diff_zero)
    also have "\<dots> = (\<Sum>i\<leftarrow>ord. min fsize (bytes_at fs perDir i))"
      by (simp add: sum_list_sum_nth lessThan_atLeast0)
    also have "\<dots> = ?n" by (rule ord_facts(1) [OF ord])
    finally have sh: "shared ?p = tot + of_nat ?n" unfolding ks(2) fold_add_read by simp
    have "read_passes fs files fsize perDir jobs (d # ps) order tot =
        read_passes fs files fsize perDir jobs ps ord (tot + of_nat ?n)"
      unfolding d read_passes.simps Let_def ord_def [symmetric] none list.case sh by (rule refl)
    also have "\<dots> = (tot + of_nat ?n + of_nat (length ps * ?n), None)"
      using Cons.prems(2) by (intro Cons.IH [OF ord]) auto
    finally show ?case by (simp add: algebra_simps)
  qed simp
  then show ?thesis by (simp add: read_set_def)
qed

section \<open>The hot slice\<close>

text \<open>One pass over the first files; a file that does not open is left out.\<close>

fun hot_pass :: "store \<Rightarrow> nat \<Rightarrow> nat \<Rightarrow> nat list \<Rightarrow> u64 \<Rightarrow> u64" where
  "hot_pass fs fsize perDir [] tot = tot"
| "hot_pass fs fsize perDir (k # ks) tot =
     (case fs (path k perDir) of
        None \<Rightarrow> hot_pass fs fsize perDir ks tot
      | Some got \<Rightarrow> hot_pass fs fsize perDir ks (tot + of_nat (min fsize (length got))))"

fun hot :: "store \<Rightarrow> nat \<Rightarrow> nat \<Rightarrow> nat \<Rightarrow> nat \<Rightarrow> nat \<Rightarrow> u64 \<Rightarrow> u64" where
  "hot fs files fsize perDir hslice 0 tot = tot"
| "hot fs files fsize perDir hslice (Suc n) tot =
     hot fs files fsize perDir hslice n (hot_pass fs fsize perDir [0 ..< min hslice files] tot)"

lemma hot_pass_adds:
  "hot_pass fs fsize perDir ks tot = tot + of_nat (\<Sum>k\<leftarrow>ks. min fsize (bytes_at fs perDir k))"
  by (induction ks arbitrary: tot) (simp_all add: bytes_at_def add.assoc split: option.split)

lemma hot_adds:
  "hot fs files fsize perDir hslice n tot =
     tot + of_nat (n * (\<Sum>k\<leftarrow>[0 ..< min hslice files]. min fsize (bytes_at fs perDir k)))"
  by (induction n arbitrary: tot) (simp_all add: hot_pass_adds algebra_simps)

section \<open>Cloning\<close>

text \<open>
  \<^verbatim>\<open>copy_file_range\<close> at an offset: an error or the number of bytes it has copied there.
\<close>

type_synonym copy_call = "nat \<Rightarrow> string + nat"

definition paste :: "nat \<Rightarrow> u8 list \<Rightarrow> u8 list \<Rightarrow> u8 list" where
  "paste off bs dst = take off dst @ bs @ drop (off + length bs) dst"

function clone_range ::
  "copy_call \<Rightarrow> nat \<Rightarrow> nat \<Rightarrow> u8 list \<Rightarrow> u8 list \<Rightarrow> u8 list \<times> go_error option"
where
  "clone_range sys off fsize src dst =
     (if fsize \<le> off then (dst, None)
      else (case sys off of
              Inl e \<Rightarrow> (dst, Some (IOError e))
            | Inr n \<Rightarrow>
                if n = 0 then (dst, Some (IOError ''returned 0''))
                else clone_range sys (off + n) fsize src (paste off (take n (drop off src)) dst)))"
  by pat_completeness auto
termination by (relation "measure (\<lambda>(sys, off, fsize, src, dst). fsize - off)") auto

declare clone_range.simps [simp del]

text \<open>What the call does: it copies no more than was asked for and nothing past the end of the source.\<close>

definition copies :: "copy_call \<Rightarrow> nat \<Rightarrow> u8 list \<Rightarrow> bool" where
  "copies sys fsize src \<longleftrightarrow> (\<forall>off n. sys off = Inr n \<longrightarrow> n = 0 \<or> off + n \<le> min fsize (length src))"

lemma clone_range_prefix:
  assumes "copies sys fsize src" and "dst = take off src" and "off \<le> min fsize (length src)"
  shows "case clone_range sys off fsize src dst of
      (dst', None) \<Rightarrow> dst' = take fsize src \<and> fsize \<le> length src
    | (dst', Some _) \<Rightarrow> \<exists>k \<ge> off. k < fsize \<and> dst' = take k src"
  using assms
proof (induction sys off fsize src dst rule: clone_range.induct)
  case (1 sys off fsize src dst)
  show ?case
  proof (cases "fsize \<le> off")
    case True
    then have "clone_range sys off fsize src dst = (dst, None)" by (simp add: clone_range.simps [of sys off])
    then show ?thesis using "1.prems" True by (simp add: min_def split: if_splits)
  next
    case False
    show ?thesis
    proof (cases "\<exists>n. sys off = Inr n \<and> n \<noteq> 0")
      case True
      then obtain n where n: "sys off = Inr n" "n \<noteq> 0" by blast
      have le: "off + n \<le> min fsize (length src)" using "1.prems"(1) n by (auto simp: copies_def)
      have "paste off (take n (drop off src)) dst = take (off + n) src"
        using "1.prems" le by (simp add: paste_def take_add)
      moreover have "clone_range sys off fsize src dst =
          clone_range sys (off + n) fsize src (paste off (take n (drop off src)) dst)"
        using False n by (simp add: clone_range.simps [of sys off])
      ultimately show ?thesis
        using "1.IH" [OF False n] "1.prems"(1) le
        by (auto split: prod.splits option.splits intro: add_leD1)
    next
      case stop: False
      then have "clone_range sys off fsize src dst = (dst, Some (IOError ''returned 0'')) \<or>
          (\<exists>e. clone_range sys off fsize src dst = (dst, Some (IOError e)))"
        using False by (cases "sys off") (auto simp: clone_range.simps [of sys off])
      then show ?thesis using "1.prems" False by (auto intro!: exI [of _ off])
    qed
  qed
qed



text \<open>
  \<^verbatim>\<open>cloneOne\<close>: the source has to be there; the directory of the worker is made and the old clone
  removed, which may fail; then the file is made anew and filled. The files of a worker are
  named below its own directory.
\<close>

definition clone_name :: "nat \<Rightarrow> nat \<Rightarrow> string" where
  "clone_name worker idx = ''w'' @ zero_pad 2 worker @ ''/f'' @ zero_pad 6 idx"

record disk_calls =
  mkdirs :: "nat \<Rightarrow> bool"
  unlinks :: "string \<Rightarrow> bool"
  creates :: "string \<Rightarrow> bool"
  copy_at :: "nat \<Rightarrow> copy_call"

definition cloneOne ::
  "disk_calls \<Rightarrow> store \<Rightarrow> nat \<Rightarrow> nat \<Rightarrow> nat \<Rightarrow> nat \<Rightarrow> store \<Rightarrow> store \<times> go_error option"
where
  "cloneOne sys fs perDir fsize worker idx dest =
     (case fs (path idx perDir) of
        None \<Rightarrow> (dest, Some (IOError ''open''))
      | Some src \<Rightarrow>
          (let name = clone_name worker idx
           in if \<not> mkdirs sys worker then (dest, Some (IOError ''mkdir''))
              else if dest name \<noteq> None \<and> \<not> unlinks sys name then (dest, Some (IOError ''remove''))
              else if \<not> creates sys name then (dest(name := None), Some (IOError ''create''))
              else (let (dst, err) = clone_range (copy_at sys idx) 0 fsize src []
                    in (dest(name \<mapsto> dst), err))))"

text \<open>
  One round of a worker over its files, every \<open>jobs\<close>-th of the set: it stops where another worker
  has failed or the deadline has passed, and at its own first error.
\<close>

function stride :: "nat \<Rightarrow> nat \<Rightarrow> nat \<Rightarrow> nat list" where
  "stride i jobs files = (if i < files \<and> 0 < jobs then i # stride (i + jobs) jobs files else [])"
  by pat_completeness auto
termination by (relation "measure (\<lambda>(i, jobs, files). files - i)") auto

declare stride.simps [simp del]

fun clone_round ::
  "disk_calls \<Rightarrow> store \<Rightarrow> nat \<Rightarrow> nat \<Rightarrow> nat \<Rightarrow> (nat \<Rightarrow> bool) \<Rightarrow> nat list \<Rightarrow> store \<Rightarrow> u64 \<Rightarrow>
   store \<times> u64 \<times> go_error option"
where
  "clone_round sys fs perDir fsize worker halt [] dest tot = (dest, tot, None)"
| "clone_round sys fs perDir fsize worker halt (i # is) dest tot =
     (if halt i then (dest, tot, None)
      else (case cloneOne sys fs perDir fsize worker i dest of
              (dest', Some e) \<Rightarrow> (dest', tot, Some e)
            | (dest', None) \<Rightarrow>
                clone_round sys fs perDir fsize worker halt is dest' (tot + of_nat fsize)))"

lemma stride_set: "0 < jobs \<Longrightarrow> set (stride i jobs files) = {k. k < files \<and> (\<exists>n. k = i + n * jobs)}"
proof (induction i jobs files rule: stride.induct)
  case (1 i jobs files)
  show ?case
  proof (cases "i < files")
    case True
    have "(\<exists>n. k = i + n * jobs) \<longleftrightarrow> k = i \<or> (\<exists>n. k = i + jobs + n * jobs)" for k
    proof
      assume "\<exists>n. k = i + n * jobs"
      then obtain n where "k = i + n * jobs" by blast
      then show "k = i \<or> (\<exists>n. k = i + jobs + n * jobs)" by (cases n) auto
    next
      assume "k = i \<or> (\<exists>n. k = i + jobs + n * jobs)"
      then show "\<exists>n. k = i + n * jobs"
      proof
        assume "k = i"
        then show ?thesis by (intro exI [of _ 0]) simp
      next
        assume "\<exists>n. k = i + jobs + n * jobs"
        then obtain n where "k = i + jobs + n * jobs" by blast
        then show ?thesis by (intro exI [of _ "Suc n"]) simp
      qed
    qed
    then show ?thesis using 1 True by (auto simp: stride.simps [of i])
  next
    case False
    then show ?thesis by (auto simp: stride.simps [of i])
  qed
qed

text \<open>Every file of the set is the business of exactly one worker.\<close>

theorem strides_partition:
  assumes "k < files" and "0 < jobs"
  shows "w < jobs \<and> k \<in> set (stride w jobs files) \<longleftrightarrow> w = k mod jobs"
proof
  assume w: "w < jobs \<and> k \<in> set (stride w jobs files)"
  then obtain n where "k = w + n * jobs" using stride_set [OF assms(2)] by blast
  then show "w = k mod jobs" using w by simp
next
  assume w: "w = k mod jobs"
  have "\<exists>n. k = k mod jobs + n * jobs" by (rule exI [of _ "k div jobs"]) simp
  then show "w < jobs \<and> k \<in> set (stride w jobs files)"
    using w assms by (auto simp: stride_set)
qed

section \<open>The memory hog\<close>

text \<open>
  One pass writes the number of the pass, a byte that wraps, into the first byte of every page;
  \<open>mem\<close> are those bytes. The pass after the deadline is the last.
\<close>

fun hog_pass :: "u8 \<Rightarrow> nat \<Rightarrow> u8 list \<Rightarrow> u64 \<Rightarrow> u8 list \<times> u64" where
  "hog_pass p off [] tot = ([], tot)"
| "hog_pass p off (b # bs) tot =
     (let (bs', tot') = hog_pass p (off + 4096) bs (tot + 4096) in (p # bs', tot'))"

fun hog :: "nat \<Rightarrow> u8 \<Rightarrow> u8 list \<Rightarrow> u64 \<Rightarrow> u8 list \<times> u64" where
  "hog 0 p mem tot = (mem, tot)"
| "hog (Suc n) p mem tot = (let (mem', tot') = hog_pass p 0 mem tot in hog n (p + 1) mem' tot')"

lemma hog_pass_touches: "hog_pass p off mem tot = (map (\<lambda>_. p) mem, tot + of_nat (4096 * length mem))"
  by (induction mem arbitrary: off tot) (simp_all add: algebra_simps)

lemma hog_touches:
  "snd (hog n p mem tot) = tot + of_nat (n * 4096 * length mem) \<and>
   length (fst (hog n p mem tot)) = length mem \<and>
   (0 < n \<longrightarrow> fst (hog n p mem tot) = map (\<lambda>_. p + of_nat (n - 1)) mem)"
proof (induction n arbitrary: p mem tot)
  case (Suc n)
  have step: "hog (Suc n) p mem tot = hog n (p + 1) (map (\<lambda>_. p) mem) (tot + of_nat (4096 * length mem))"
    by (simp add: hog_pass_touches)
  have "p + 1 + of_nat (n - 1) = p + of_nat n" if "0 < n" using that by (cases n) simp_all
  then show ?case
    unfolding step
    using Suc.IH [of "p + 1" "map (\<lambda>_. p) mem" "tot + of_nat (4096 * length mem)"]
    by (cases "n = 0") (auto simp: distrib_right comp_def)
qed simp

end
