(* ===== verification/Spike.thy ===== *)
theory Spike
  imports FileSet Float64
begin

text \<open>
  The spike load, \<^verbatim>\<open>packages/fragspike/main.go\<close>: files written in chunks, mapped files copied out
  span by span, shared memory touched by many workers, and files read straight into an arena.
  Workers take their items from the pool of \<open>Pool\<close>. Mappings, pins and sleeps are calls of the
  system without a result the program looks at.
\<close>

definition chunk :: nat where "chunk = 1048576"
definition span_size :: nat where "span_size = 67108864"
definition page_bytes :: nat where "page_bytes = 4096"

section \<open>Writing in chunks\<close>

definition fill_chunk :: "u8 list \<Rightarrow> u64 \<Rightarrow> nat \<Rightarrow> nat \<Rightarrow> u8 list" where
  "fill_chunk buf seed file c = fill_from (pcg_new seed (push_bit 32 (of_nat file) OR of_nat c)) buf"

definition spike_name :: "nat \<Rightarrow> string" where
  "spike_name file = ''f'' @ zero_pad 3 file"

text \<open>What the system does to a file: it may refuse to create it, a write or the close.\<close>

datatype spike_disk = TakesAll | NoCreate | NoWrite nat | NoClose

text \<open>
  The chunks of one file: the bytes written so far, the buffer and the total of all workers; a
  refused write ends it.
\<close>

function write_chunks ::
  "spike_disk \<Rightarrow> nat \<Rightarrow> nat \<Rightarrow> u64 \<Rightarrow> nat \<Rightarrow> nat \<Rightarrow> u8 list \<Rightarrow> u8 list \<Rightarrow> u64 \<Rightarrow> u8 list \<times> u8 list \<times> u64 \<times> bool"
where
  "write_chunks disk ch fsize seed i c buf out tot =
     (if 0 < ch \<and> c * ch < fsize
      then (let buf' = fill_chunk buf seed i c
            in if disk = NoWrite c then (buf', out, tot, False)
               else write_chunks disk ch fsize seed i (c + 1) buf' (out @ buf') (tot + of_nat ch))
      else (buf, out, tot, True))"
  by pat_completeness auto
termination
proof (relation "measure (\<lambda>(disk, ch, fsize, seed, i, c, buf, out, tot). fsize - c)")
  fix disk ch fsize seed i c buf out tot x
  assume "0 < ch \<and> c * ch < (fsize :: nat)"
  then have "c < fsize" by (metis le_less_trans mult.right_neutral mult_le_mono2 Suc_leI One_nat_def)
  then show "((disk, ch, fsize, seed, i, c + 1, x, out @ x, tot + of_nat ch),
      (disk, ch, fsize, seed, i, c, buf, out, tot))
      \<in> measure (\<lambda>(disk, ch, fsize, seed, i, c, buf, out, tot). fsize - c)" by simp
qed simp

declare write_chunks.simps [simp del]

definition write_spike_file ::
  "nat \<Rightarrow> u64 \<Rightarrow> (nat \<Rightarrow> spike_disk) \<Rightarrow> (u8 list, store \<times> u64) body"
where
  "write_spike_file fsize seed disk i buf s =
     (let (fs, tot) = s; name = spike_name i
      in if disk i = NoCreate then (buf, s, False)
         else (let (buf', out, tot', ok) = write_chunks (disk i) chunk fsize seed i 0 buf [] tot
               in (buf', (fs(name \<mapsto> out), tot'), ok \<and> disk i \<noteq> NoClose)))"

definition write_spike ::
  "nat \<Rightarrow> nat \<Rightarrow> u64 \<Rightarrow> nat \<Rightarrow> (nat \<Rightarrow> spike_disk) \<Rightarrow> nat list \<Rightarrow> store \<Rightarrow> (u8 list, store \<times> u64) pool"
where
  "write_spike files fsize seed jobs disk sched fs =
     pool_run files (write_spike_file fsize seed disk) sched (pool_start jobs (zeros chunk) (fs, 0))"

section \<open>Mapped files\<close>

text \<open>\<^verbatim>\<open>int(float64(len(m))*frac)\<close>, for a share that is not negative.\<close>

definition share_of :: "rat \<Rightarrow> nat \<Rightarrow> nat" where
  "share_of shr len = nat \<lfloor>fl (fl (of_nat len) * shr)\<rfloor>"

definition round_spans :: "(nat \<Rightarrow> nat) \<Rightarrow> nat list \<Rightarrow> nat \<Rightarrow> (nat \<times> nat) list" where
  "round_spans share lens off =
     map (\<lambda>i. (i, off)) (filter (\<lambda>i. off < share (lens ! i)) [0 ..< length lens])"

lemma round_spans_bound:
  assumes "round_spans share lens off \<noteq> []"
  shows "off < Max (insert 0 (set (map share lens)))"
proof -
  obtain i where "i < length lens" "off < share (lens ! i)"
    using assms by (auto simp: round_spans_def filter_empty_conv)
  moreover have "share (lens ! i) \<le> Max (insert 0 (set (map share lens)))"
    using calculation(1) by (intro Max_ge) auto
  ultimately show ?thesis by (meson less_le_trans)
qed

text \<open>The rounds over all files, one span each, until no file has anything left.\<close>

function spans_from :: "nat \<Rightarrow> (nat \<Rightarrow> nat) \<Rightarrow> nat list \<Rightarrow> nat \<Rightarrow> (nat \<times> nat) list" where
  "spans_from sp share lens off =
     (if sp = 0 \<or> round_spans share lens off = [] then []
      else round_spans share lens off @ spans_from sp share lens (off + sp))"
  by pat_completeness auto
termination
proof (relation "measure (\<lambda>(sp, share, lens, off). Max (insert 0 (set (map share lens))) - off)")
  fix sp off :: nat and share lens
  assume "\<not> (sp = 0 \<or> round_spans share lens off = [])"
  then show "((sp, share, lens, off + sp), (sp, share, lens, off))
      \<in> measure (\<lambda>(sp, share, lens, off). Max (insert 0 (set (map share lens))) - off)"
    using round_spans_bound [of share lens off] by (simp only: in_measure prod.case) linarith
qed simp

declare spans_from.simps [simp del]

text \<open>The copies of one span, chunk by chunk: the bytes added to the total.\<close>

function copy_span :: "nat \<Rightarrow> nat \<Rightarrow> nat \<Rightarrow> nat" where
  "copy_span ch off stop =
     (if ch = 0 \<or> stop \<le> off then 0 else min ch (min (off + ch) stop - off) + copy_span ch (off + ch) stop)"
  by pat_completeness auto
termination by (relation "measure (\<lambda>(ch, off, stop). stop - off)") auto

declare copy_span.simps [simp del]

definition read_span :: "nat list \<Rightarrow> (nat \<times> nat) list \<Rightarrow> (unit, u64) body" where
  "read_span lens spans k _ tot =
     (let (i, off) = spans ! k; len = lens ! i
      in ((), tot + of_nat (copy_span chunk off (min (off + span_size) len)), True))"

definition mapRead :: "nat list \<Rightarrow> rat \<Rightarrow> nat \<Rightarrow> nat list \<Rightarrow> (unit, u64) pool" where
  "mapRead lens shr jobs sched =
     (let spans = spans_from span_size (share_of shr) lens 0
      in pool_run (length spans) (read_span lens spans) sched (pool_start jobs () 0))"

section \<open>Shared memory\<close>

text \<open>The offsets one worker of \<^verbatim>\<open>touch\<close> writes to.\<close>

definition touch_per :: "nat \<Rightarrow> nat \<Rightarrow> nat" where
  "touch_per len jobs = (len div jobs + page_bytes - 1) div page_bytes * page_bytes"

function touch_from :: "nat \<Rightarrow> nat \<Rightarrow> nat list" where
  "touch_from off stop = (if stop \<le> off then [] else off # touch_from (off + page_bytes) stop)"
  by pat_completeness auto
termination by (relation "measure (\<lambda>(off, stop). stop - off)") (auto simp: page_bytes_def)

declare touch_from.simps [simp del]

definition touch :: "nat \<Rightarrow> nat \<Rightarrow> nat list list go_result" where
  "touch len jobs =
     (if jobs = 0 then Inl DivideByZero
      else Inr (map (\<lambda>j. touch_from (j * touch_per len jobs) (min (j * touch_per len jobs + touch_per len jobs) len))
                  [0 ..< jobs]))"

text \<open>The buffers \<^verbatim>\<open>pin\<close> registers, at most a gibibyte each.\<close>

function pin_bufs :: "nat \<Rightarrow> nat \<Rightarrow> (nat \<times> nat) list" where
  "pin_bufs off len =
     (if len \<le> off then [] else (off, min 1073741824 (len - off)) # pin_bufs (off + 1073741824) len)"
  by pat_completeness auto
termination by (relation "measure (\<lambda>(off, len). len - off)") auto

declare pin_bufs.simps [simp del]

section \<open>Loading\<close>

record load_span =
  lfile :: nat
  loff :: nat
  ldst :: nat

text \<open>The spans of one file from an offset on, and the place in the arena after them.\<close>

function file_spans :: "nat \<Rightarrow> nat \<Rightarrow> nat \<Rightarrow> nat \<Rightarrow> nat \<Rightarrow> nat \<Rightarrow> load_span list \<times> nat" where
  "file_spans stp mlen i fsize off dst =
     (if stp = 0 \<or> fsize \<le> off then ([], dst)
      else (let (ss, d) = file_spans stp mlen i fsize (off + stp) (dst + stp)
            in (\<lparr>lfile = i, loff = off, ldst = dst mod mlen\<rparr> # ss, d)))"
  by pat_completeness auto
termination by (relation "measure (\<lambda>(stp, mlen, i, fsize, off, dst). fsize - off)") auto

declare file_spans.simps [simp del]

fun load_spans :: "nat \<Rightarrow> nat \<Rightarrow> nat \<Rightarrow> nat list \<Rightarrow> nat \<Rightarrow> load_span list" where
  "load_spans stp mlen i [] dst = []"
| "load_spans stp mlen i (fsize # sizes) dst =
     (let (ss, d) = file_spans stp mlen i fsize 0 dst in ss @ load_spans stp mlen (i + 1) sizes d)"

definition load_step :: "bool \<Rightarrow> nat" where
  "load_step direct = (if direct then 8388608 else span_size)"

text \<open>
  \<^verbatim>\<open>ReadAt\<close> into what the arena has left after the place of the span: as many bytes as fit and
  the file has. A read that the system refuses gives nothing and is an error.
\<close>

definition load_one ::
  "(nat \<Rightarrow> bool) \<Rightarrow> nat \<Rightarrow> nat \<Rightarrow> nat list \<Rightarrow> load_span list \<Rightarrow> (unit, u64) body"
where
  "load_one readable stp mlen sizes spans k _ tot =
     (let w = spans ! k; room = min (ldst w + stp) mlen - ldst w;
          n = min room (sizes ! lfile w - loff w)
      in if readable k then ((), tot + of_nat n, True) else ((), tot, False))"

definition load ::
  "(nat \<Rightarrow> bool) \<Rightarrow> bool \<Rightarrow> nat \<Rightarrow> nat list \<Rightarrow> nat \<Rightarrow> nat list \<Rightarrow> (unit, u64) pool go_result"
where
  "load readable direct mlen sizes jobs sched =
     (let stp = load_step direct
      in if mlen = 0 \<and> list_ex (\<lambda>s. 0 < s) sizes then Inl DivideByZero
         else (let spans = load_spans stp mlen 0 sizes 0
               in Inr (pool_run (length spans) (load_one readable stp mlen sizes spans) sched
                        (pool_start jobs () 0))))"


section \<open>Touching every page\<close>

lemma touch_from_pages: "touch_from (a * page_bytes) (b * page_bytes) = map (\<lambda>k. k * page_bytes) [a ..< b]"
proof (induction "b - a" arbitrary: a)
  case 0
  then show ?case by (subst touch_from.simps) (simp add: page_bytes_def)
next
  case (Suc d)
  then have "a < b" "d = b - (a + 1)" by linarith+
  moreover have "a * page_bytes + page_bytes = (a + 1) * page_bytes" by simp
  ultimately show ?case
    using Suc.hyps(1) [of "a + 1"]
    by (subst touch_from.simps) (simp add: upt_conv_Cons page_bytes_def add.commute)
qed

lemma concat_strips:
  "concat (map (\<lambda>j. [j * q ..< min (j * q + q) n]) [0 ..< jobs]) = [0 ..< min (jobs * q) n]"
proof (induction jobs)
  case (Suc jobs)
  have "[0 ..< min (jobs * q) n] @ [jobs * q ..< min (jobs * q + q) n] = [0 ..< min (jobs * q + q) n]"
  proof (cases "jobs * q \<le> n")
    case True
    then have "jobs * q \<le> min (jobs * q + q) n" by simp
    then obtain k where "min (jobs * q + q) n = jobs * q + k" using le_Suc_ex by blast
    then show ?thesis using True upt_add_eq_append [of 0 "jobs * q" k] by simp
  qed simp
  then show ?case using Suc by (simp add: add.commute)
qed simp

lemma strips_reach:
  fixes len jobs :: nat
  assumes "0 < jobs" and "jobs \<le> page_bytes" and "len = n * page_bytes"
  shows "n \<le> jobs * ((len div jobs + page_bytes - 1) div page_bytes)"
proof -
  let ?q = "(len div jobs + page_bytes - 1) div page_bytes"
  have p: "0 < page_bytes" by (simp add: page_bytes_def)
  have "len div jobs + page_bytes - 1 = ?q * page_bytes + (len div jobs + page_bytes - 1) mod page_bytes"
    by simp
  moreover have "(len div jobs + page_bytes - 1) mod page_bytes < page_bytes" using p by simp
  ultimately have "len div jobs \<le> ?q * page_bytes" by linarith
  then have "jobs * (len div jobs) \<le> jobs * ?q * page_bytes"
    by (metis mult.assoc mult_le_mono2)
  moreover have "len < jobs * (len div jobs) + jobs"
    using assms(1) by (metis add.commute add_less_cancel_left mod_less_divisor mult_div_mod_eq)
  ultimately have "n * page_bytes < jobs * ?q * page_bytes + page_bytes" using assms(2,3) by linarith
  also have "\<dots> = (jobs * ?q + 1) * page_bytes" by (simp only: add_mult_distrib mult_1)
  finally have "n < jobs * ?q + 1" by (metis mult_less_cancel2)
  then show ?thesis by simp
qed

text \<open>
  The workers of \<^verbatim>\<open>touch\<close> write to every page of the memory and to none twice, with at most as
  many workers as a page has bytes: the strips are rounded up to whole pages, and the last
  ones end at the end of the memory.
\<close>

theorem touch_every_page_once:
  assumes "0 < jobs" and "jobs \<le> 4096"
  shows "\<exists>strips. touch (n * page_bytes) jobs = Inr strips \<and>
    concat strips = map (\<lambda>k. k * page_bytes) [0 ..< n]"
proof -
  let ?q = "(n * page_bytes div jobs + page_bytes - 1) div page_bytes"
  let ?strips = "map (\<lambda>j. map (\<lambda>k. k * page_bytes) [j * ?q ..< min (j * ?q + ?q) n]) [0 ..< jobs]"
  have strip: "touch_from (j * touch_per (n * page_bytes) jobs)
      (min (j * touch_per (n * page_bytes) jobs + touch_per (n * page_bytes) jobs) (n * page_bytes)) =
      map (\<lambda>k. k * page_bytes) [j * ?q ..< min (j * ?q + ?q) n]" for j
  proof -
    have e: "j * touch_per (n * page_bytes) jobs = j * ?q * page_bytes"
      "min (j * touch_per (n * page_bytes) jobs + touch_per (n * page_bytes) jobs) (n * page_bytes) =
        min (j * ?q + ?q) n * page_bytes"
      by (simp_all only: touch_per_def nat_mult_min_left add_mult_distrib mult.assoc)
    show ?thesis unfolding e(2) by (simp only: e(1) touch_from_pages)
  qed
  have "touch (n * page_bytes) jobs = Inr ?strips"
    unfolding touch_def strip using assms(1) by simp
  moreover have "concat ?strips = map (\<lambda>k. k * page_bytes)
      (concat (map (\<lambda>j. [j * ?q ..< min (j * ?q + ?q) n]) [0 ..< jobs]))"
    by (simp add: map_concat comp_def)
  moreover have "min (jobs * ?q) n = n"
    using strips_reach [OF assms(1) _ refl, of n] assms(2) by (simp add: page_bytes_def min_absorb2)
  ultimately show ?thesis by (simp only: concat_strips) blast
qed

lemma touch_every_page_once_witness:
  "\<exists>strips. touch (5 * page_bytes) 3 = Inr strips \<and>
     concat strips = map (\<lambda>k. k * page_bytes) [0 ..< 5]"
  by (rule touch_every_page_once) simp_all


section \<open>What the mapped reads add up to\<close>

lemma copy_span_all: "0 < ch \<Longrightarrow> copy_span ch off stop = stop - off"
proof (induction ch off stop rule: copy_span.induct)
  case (1 ch off stop)
  then show ?case by (auto simp: copy_span.simps [of ch off stop] min_def)
qed

text \<open>The end of the last span that starts below \<open>x\<close>.\<close>

definition spans_end :: "nat \<Rightarrow> nat \<Rightarrow> nat" where
  "spans_end sp x = (x + sp - 1) div sp * sp"

lemma spans_end_ge: "0 < sp \<Longrightarrow> x \<le> spans_end sp x"
proof -
  assume sp: "0 < sp"
  have "x + sp - 1 = spans_end sp x + (x + sp - 1) mod sp" by (simp add: spans_end_def)
  moreover have "(x + sp - 1) mod sp < sp" using sp by simp
  ultimately show ?thesis by linarith
qed

lemma spans_end_below: "0 < sp \<Longrightarrow> x \<le> k * sp \<Longrightarrow> spans_end sp x \<le> k * sp"
proof -
  assume sp: "0 < sp" and x: "x \<le> k * sp"
  have "(x + sp - 1) div sp \<le> (k * sp + (sp - 1)) div sp" using x sp by (intro div_le_mono) linarith
  also have "\<dots> = k + (sp - 1) div sp" using sp by (intro div_mult_self3) simp
  also have "\<dots> = k" using sp by simp
  finally show ?thesis by (simp add: spans_end_def)
qed

lemma spans_end_above: "0 < sp \<Longrightarrow> k * sp < x \<Longrightarrow> (k + 1) * sp \<le> spans_end sp x"
proof -
  assume sp: "0 < sp" and x: "k * sp < x"
  have "k + 1 = ((k + 1) * sp) div sp" using sp by simp
  also have "\<dots> \<le> (x + sp - 1) div sp" using x sp by (intro div_le_mono) (simp add: distrib_right)
  finally have "(k + 1) * sp \<le> (x + sp - 1) div sp * sp" by (rule mult_le_mono1)
  then show ?thesis by (simp add: spans_end_def)
qed

definition span_bytes :: "nat \<Rightarrow> nat list \<Rightarrow> nat \<times> nat \<Rightarrow> nat" where
  "span_bytes sp lens s = min (snd s + sp) (lens ! fst s) - snd s"

lemma round_bytes:
  "(\<Sum>s\<leftarrow>round_spans share lens off. span_bytes sp lens s) =
     (\<Sum>i < length lens. if off < share (lens ! i) then min (off + sp) (lens ! i) - off else 0)"
proof -
  have "(\<Sum>s\<leftarrow>map (\<lambda>i. (i, off)) (filter P xs). span_bytes sp lens s) =
      (\<Sum>i\<leftarrow>xs. if P i then min (off + sp) (lens ! i) - off else 0)" for P xs
    by (induction xs) (simp_all add: span_bytes_def)
  then show ?thesis
    by (simp add: round_spans_def interv_sum_list_conv_sum_set_nat lessThan_atLeast0)
qed

lemma spans_bytes:
  assumes "0 < sp"
  shows "(\<Sum>s\<leftarrow>spans_from sp share lens (k * sp). span_bytes sp lens s) =
    (\<Sum>i < length lens. min (spans_end sp (share (lens ! i))) (lens ! i) - k * sp)"
  using assms
proof (induction sp share lens "k * sp" arbitrary: k rule: spans_from.induct)
  case (1 sp share lens k)
  let ?e = "\<lambda>i. spans_end sp (share (lens ! i))"
  show ?case
  proof (cases "round_spans share lens (k * sp) = []")
    case True
    then have "share (lens ! i) \<le> k * sp" if "i < length lens" for i
      using that by (auto simp: round_spans_def filter_empty_conv not_less)
    then have "?e i \<le> k * sp" if "i < length lens" for i using that spans_end_below "1.prems" by simp
    then have "(\<Sum>i < length lens. min (?e i) (lens ! i) - k * sp) = 0"
      by (intro sum.neutral ballI) (simp add: min.coboundedI1)
    then show ?thesis using True by (simp add: spans_from.simps [of sp share lens "k * sp"])
  next
    case False
    have part: "(if k * sp < share (lens ! i) then min (k * sp + sp) (lens ! i) - k * sp else 0) +
        (min (?e i) (lens ! i) - (k + 1) * sp) = min (?e i) (lens ! i) - k * sp" for i
    proof (cases "k * sp < share (lens ! i)")
      case True
      then have "k * sp + sp \<le> ?e i" using spans_end_above "1.prems" by (simp add: distrib_right add.commute)
      then show ?thesis using True by (auto simp: min_def distrib_right)
    next
      case False
      then have "?e i \<le> k * sp" using spans_end_below "1.prems" by simp
      then show ?thesis using False by (auto simp: min_def)
    qed
    have next_off: "k * sp + sp = (k + 1) * sp" by simp
    have "(\<Sum>s\<leftarrow>spans_from sp share lens (k * sp). span_bytes sp lens s) =
        (\<Sum>s\<leftarrow>round_spans share lens (k * sp). span_bytes sp lens s) +
        (\<Sum>s\<leftarrow>spans_from sp share lens ((k + 1) * sp). span_bytes sp lens s)"
      using False "1.prems" by (simp add: spans_from.simps [of sp share lens "k * sp"] add.commute)
    also have "(\<Sum>s\<leftarrow>spans_from sp share lens ((k + 1) * sp). span_bytes sp lens s) =
        (\<Sum>i < length lens. min (?e i) (lens ! i) - (k + 1) * sp)"
      using "1.hyps" [OF _ next_off] False "1.prems" by simp
    finally show ?thesis
      by (simp only: round_bytes flip: sum.distrib) (simp only: part)
  qed
qed

definition add_span :: "nat list \<Rightarrow> (nat \<times> nat) list \<Rightarrow> nat \<Rightarrow> u64 \<Rightarrow> u64" where
  "add_span lens spans k tot = tot + of_nat (span_bytes span_size lens (spans ! k))"

interpretation mapped: worker_pool items "read_span lens spans" "\<lambda>_. True" "add_span lens spans"
  for items lens spans
  by unfold_locales
    (auto simp: read_span_def add_span_def span_bytes_def chunk_def copy_span_all split: prod.splits)

lemma fold_adds:
  fixes f :: "nat \<Rightarrow> nat"
  shows "fold (\<lambda>k tot. tot + of_nat (f k)) ks tot = (tot + of_nat (\<Sum>k\<leftarrow>ks. f k) :: u64)"
  by (induction ks arbitrary: tot) simp_all

text \<open>
  Reading the mapped files copies every file from its start up to the end of the last span
  that begins inside the share asked for, each byte once, whatever the schedule: at least
  the share, which the comment promises as the limit, and up to a whole span more.
\<close>

theorem mapRead_total:
  assumes "0 < jobs" and "all_done (mapRead lens shr jobs sched)"
  shows "shared (mapRead lens shr jobs sched) =
    of_nat (\<Sum>i < length lens. min (spans_end span_size (share_of shr (lens ! i))) (lens ! i))"
proof -
  let ?spans = "spans_from span_size (share_of shr) lens 0"
  have p: "mapRead lens shr jobs sched =
      pool_run (length ?spans) (read_span lens ?spans) sched (pool_start jobs () 0)"
    by (simp add: mapRead_def Let_def)
  have "snd (snd (read_span lens ?spans k u t))" for k u t by (simp add: read_span_def split: prod.splits)
  then have "refused (mapRead lens shr jobs sched) = []" unfolding p by (intro mapped.no_refusal TrueI)
  then obtain ks where ks: "mset ks = mset [0 ..< length ?spans]"
      "shared (mapRead lens shr jobs sched) = fold (add_span lens ?spans) ks 0"
    using mapped.finished_all [OF TrueI assms(1)] assms(2) unfolding p by blast
  have "(\<Sum>k\<leftarrow>ks. span_bytes span_size lens (?spans ! k)) = (\<Sum>s\<leftarrow>?spans. span_bytes span_size lens s)"
    using ord_facts(1) [OF ks(1), of "\<lambda>k. span_bytes span_size lens (?spans ! k)"]
    by (simp add: sum_list_sum_nth lessThan_atLeast0)
  also have "\<dots> = (\<Sum>i < length lens. min (spans_end span_size (share_of shr (lens ! i))) (lens ! i))"
    using spans_bytes [where sp = span_size and share = "share_of shr" and lens = lens and k = 0] by (simp add: span_size_def)
  finally show ?thesis
    unfolding ks(2) add_span_def [abs_def] fold_adds by simp
qed


lemma count_list_replicate: "count_list (replicate n x) y = (if x = y then n else 0)"
  by (induction n) auto

lemma mapRead_total_witness: "\<exists>sched. shared (mapRead [4096] 1 1 sched) = 4096"
proof -
  let ?n = "length (spans_from span_size (share_of 1) [4096] 0)"
  have "all_done (mapRead [4096] 1 1 (replicate (2 * ?n + 1) 0))"
    unfolding mapRead_def Let_def by (rule pool_all_done) (simp add: count_list_replicate)
  note mapRead_total [OF _ this]
  moreover have "share_of 1 4096 = 4096" using fl_of_int [of 4096] by (simp add: share_of_def)
  ultimately show ?thesis by (intro exI) (simp add: spans_end_def span_size_def)
qed

section \<open>What a load reads\<close>

definition load_bytes :: "nat \<Rightarrow> nat \<Rightarrow> nat list \<Rightarrow> load_span \<Rightarrow> nat" where
  "load_bytes stp mlen sizes w = min (min (ldst w + stp) mlen - ldst w) (sizes ! lfile w - loff w)"

lemma room_left:
  fixes stp mlen d :: nat
  assumes "stp dvd mlen" and "stp dvd d" and "0 < mlen"
  shows "min (d mod mlen + stp) mlen - d mod mlen = stp"
proof -
  obtain a where a: "mlen = stp * a" using assms(1) by blast
  obtain b where "d mod mlen = stp * b" using dvd_mod [OF assms(2,1)] by blast
  moreover have "d mod mlen < mlen" using assms(3) by simp
  ultimately have "stp * b < stp * a" by (simp add: a)
  then have "b + 1 \<le> a" by simp
  then have "stp * (b + 1) \<le> stp * a" by (rule mult_le_mono2)
  then show ?thesis using \<open>d mod mlen = stp * b\<close> a by (simp add: min_def)
qed

lemma file_spans_bytes:
  assumes "0 < stp" and "stp dvd mlen" and "stp dvd dst" and "0 < mlen" and "i < length sizes"
    and "fsize = sizes ! i"
  shows "(\<Sum>w\<leftarrow>fst (file_spans stp mlen i fsize off dst). load_bytes stp mlen sizes w) = fsize - off \<and>
    stp dvd snd (file_spans stp mlen i fsize off dst)"
  using assms
proof (induction stp mlen i fsize off dst rule: file_spans.induct)
  case (1 stp mlen i fsize off dst)
  show ?case
  proof (cases "fsize \<le> off")
    case False
    have "load_bytes stp mlen sizes \<lparr>lfile = i, loff = off, ldst = dst mod mlen\<rparr> = min stp (fsize - off)"
      using room_left "1.prems" by (simp add: load_bytes_def)
    moreover have "file_spans stp mlen i fsize off dst =
        (\<lparr>lfile = i, loff = off, ldst = dst mod mlen\<rparr> #
           fst (file_spans stp mlen i fsize (off + stp) (dst + stp)),
         snd (file_spans stp mlen i fsize (off + stp) (dst + stp)))"
      using False "1.prems"(1) by (simp add: file_spans.simps [of stp mlen i fsize off] case_prod_beta' Let_def)
    moreover have "(\<Sum>w\<leftarrow>fst (file_spans stp mlen i fsize (off + stp) (dst + stp)). load_bytes stp mlen sizes w)
        = fsize - (off + stp) \<and> stp dvd snd (file_spans stp mlen i fsize (off + stp) (dst + stp))"
      using 1 False by simp
    ultimately show ?thesis by simp
  next
    case True
    then have "file_spans stp mlen i fsize off dst = ([], dst)" by (subst file_spans.simps) simp
    then show ?thesis using "1.prems" True by simp
  qed
qed

lemma load_spans_bytes:
  assumes "0 < stp" and "stp dvd mlen" and "stp dvd dst" and "0 < mlen"
  shows "(\<Sum>w\<leftarrow>load_spans stp mlen (length done_sizes) sizes dst.
    load_bytes stp mlen (done_sizes @ sizes) w) = sum_list sizes"
  using assms(3)
proof (induction sizes arbitrary: done_sizes dst)
  case (Cons fsize sizes)
  obtain ss d where r: "file_spans stp mlen (length done_sizes) fsize 0 dst = (ss, d)" by fastforce
  have "(\<Sum>w\<leftarrow>ss. load_bytes stp mlen (done_sizes @ fsize # sizes) w) = fsize" "stp dvd d"
    using file_spans_bytes [OF assms(1,2) Cons.prems assms(4), of "length done_sizes"
        "done_sizes @ fsize # sizes" fsize 0] r by simp_all
  then show ?case using Cons.IH [of d "done_sizes @ [fsize]"] r by (simp add: Let_def)
qed simp

definition add_load :: "nat \<Rightarrow> nat \<Rightarrow> nat list \<Rightarrow> load_span list \<Rightarrow> nat \<Rightarrow> u64 \<Rightarrow> u64" where
  "add_load stp mlen sizes spans k tot = tot + of_nat (load_bytes stp mlen sizes (spans ! k))"

interpretation loaders: worker_pool items "load_one readable stp mlen sizes spans" "\<lambda>_. True"
    "add_load stp mlen sizes spans"
  for items readable stp mlen sizes spans
  by unfold_locales (auto simp: load_one_def add_load_def load_bytes_def Let_def split: if_splits)

lemma load_total:
  assumes "load (\<lambda>_. True) direct mlen sizes jobs sched = Inr p" and "0 < jobs" and "all_done p"
  shows "shared p = of_nat (\<Sum>w\<leftarrow>load_spans (load_step direct) mlen 0 sizes 0.
    load_bytes (load_step direct) mlen sizes w)"
proof -
  let ?s = "load_step direct"
  let ?spans = "load_spans ?s mlen 0 sizes 0"
  have p: "p = pool_run (length ?spans) (load_one (\<lambda>_. True) ?s mlen sizes ?spans) sched (pool_start jobs () 0)"
    using assms(1) by (simp add: load_def Let_def split: if_splits)
  have "snd (snd (load_one (\<lambda>_. True) ?s mlen sizes ?spans k u t))" for k u t
    by (simp add: load_one_def Let_def)
  then have "refused p = []" unfolding p by (intro loaders.no_refusal TrueI)
  then obtain ks where ks: "mset ks = mset [0 ..< length ?spans]"
      "shared p = fold (add_load ?s mlen sizes ?spans) ks 0"
    using loaders.finished_all [OF TrueI assms(2)] assms(3) unfolding p by blast
  have "(\<Sum>k\<leftarrow>ks. load_bytes ?s mlen sizes (?spans ! k)) = (\<Sum>w\<leftarrow>?spans. load_bytes ?s mlen sizes w)"
    using ord_facts(1) [OF ks(1), of "\<lambda>k. load_bytes ?s mlen sizes (?spans ! k)"]
    by (simp add: sum_list_sum_nth lessThan_atLeast0)
  then show ?thesis unfolding ks(2) add_load_def [abs_def] fold_adds by simp
qed

text \<open>
  C37. A load reads every byte of every file when the arena is a whole number of steps, 64 MiB, or
  8 MiB for direct reads. Otherwise the span that reaches the end of the arena is cut short
  there and the rest of its bytes is never read, without an error.
\<close>

theorem load_reads_all:
  assumes "load (\<lambda>_. True) direct mlen sizes jobs sched = Inr p" and "0 < jobs" and "all_done p"
    and "load_step direct dvd mlen" and "0 < mlen"
  shows "shared p = of_nat (sum_list sizes)"
  using load_total [OF assms(1-3)] load_spans_bytes [of "load_step direct" mlen 0 "[]" sizes] assms(4,5)
  by (simp add: load_step_def span_size_def split: if_splits)

lemma load_reads_all_witness:
  "\<exists>p sched. load (\<lambda>_. True) True 16777216 [9000000, 5] 1 sched = Inr p \<and> shared p = 9000005"
proof -
  define spans where "spans = load_spans (load_step True) 16777216 0 [9000000, 5] 0"
  let ?sched = "replicate (2 * length spans + 1) 0"
  define p where "p = pool_run (length spans) (load_one (\<lambda>_. True) (load_step True) 16777216 [9000000, 5] spans)
    ?sched (pool_start 1 () (0 :: u64))"
  have p: "load (\<lambda>_. True) True 16777216 [9000000, 5] 1 ?sched = Inr p"
    by (simp only: load_def p_def spans_def Let_def) simp
  have "all_done p" unfolding p_def by (rule pool_all_done) (simp add: count_list_replicate)
  then have "shared p = of_nat (sum_list [9000000, 5])"
    by (intro load_reads_all [OF p]) (simp_all add: load_step_def)
  then show ?thesis using p by (intro exI [of _ p] exI [of _ ?sched]) simp
qed

text \<open>Two files of 100 MiB into an arena of 100 MiB: 28 MiB are not read.\<close>

theorem load_cuts_short:
  "(\<Sum>w\<leftarrow>load_spans span_size (100 * 1048576) 0 [100 * 1048576, 100 * 1048576] 0.
     load_bytes span_size (100 * 1048576) [100 * 1048576, 100 * 1048576] w) = 172 * 1048576"
  by (simp add: file_spans.simps load_bytes_def span_size_def)

end
