(* ===== verification/Programs.thy ===== *)
theory Programs
  imports FileOps Spike
begin

text \<open>
  The load programs as a whole: \<^verbatim>\<open>clone\<close> and \<^verbatim>\<open>main\<close> of \<^verbatim>\<open>packages/fragload/main.go\<close>, \<^verbatim>\<open>hog\<close> and \<^verbatim>\<open>main\<close> of
  \<^verbatim>\<open>packages/fragcheck/main.go\<close>, and the modes of \<^verbatim>\<open>packages/fragspike/main.go\<close> with the system calls
  that take and return memory and descriptors.
\<close>

section \<open>Cloning the set\<close>

text \<open>
  A worker goes round its files until the deadline. Between the look at \<^verbatim>\<open>failed\<close> and the end of
  the copy other workers run, so these are two steps. \<open>expired\<close> is what the clock says at a step.
\<close>

datatype clone_at = Round | Considering nat | Copying nat | Returned

record clone_state =
  cWorkers :: "clone_at list"
  cDest :: store
  cTotal :: u64
  cFailed :: "(go_error \<times> bool) option"
  cPanic :: bool

text \<open>
  An error of the copy itself is wrapped by \<^verbatim>\<open>cloneOne\<close>, the ones before it are path errors as they
  come. \<^verbatim>\<open>failed.Store\<close> replaces an error of the same type and panics on the other.
\<close>

definition reaches_copy :: "disk_calls \<Rightarrow> store \<Rightarrow> nat \<Rightarrow> nat \<Rightarrow> nat \<Rightarrow> store \<Rightarrow> bool" where
  "reaches_copy sys fs perDir worker idx dest \<longleftrightarrow>
     fs (path idx perDir) \<noteq> None \<and> mkdirs sys worker \<and>
     \<not> (dest (clone_name worker idx) \<noteq> None \<and> \<not> unlinks sys (clone_name worker idx)) \<and>
     creates sys (clone_name worker idx)"

definition store_error :: "go_error \<Rightarrow> bool \<Rightarrow> clone_state \<Rightarrow> clone_state" where
  "store_error e kind c =
     (case cFailed c of
        None \<Rightarrow> c\<lparr>cFailed := Some (e, kind)\<rparr>
      | Some (_, kind0) \<Rightarrow> if kind = kind0 then c\<lparr>cFailed := Some (e, kind)\<rparr> else c\<lparr>cPanic := True\<rparr>)"

definition move_to :: "nat \<Rightarrow> clone_at \<Rightarrow> clone_state \<Rightarrow> clone_state" where
  "move_to w at' c = c\<lparr>cWorkers := (cWorkers c)[w := at']\<rparr>"

definition clone_copy ::
  "disk_calls \<Rightarrow> store \<Rightarrow> nat \<Rightarrow> nat \<Rightarrow> nat \<Rightarrow> nat \<Rightarrow> nat \<Rightarrow> clone_state \<Rightarrow> clone_state" where
  "clone_copy sys fs perDir fsize jobs w i c =
     (case cloneOne sys fs perDir fsize w i (cDest c) of
        (d, Some e) \<Rightarrow> move_to w Returned (store_error e (reaches_copy sys fs perDir w i (cDest c)) (c\<lparr>cDest := d\<rparr>))
      | (d, None) \<Rightarrow> move_to w (Considering (i + jobs)) (c\<lparr>cDest := d, cTotal := cTotal c + of_nat fsize\<rparr>))"

definition clone_step ::
  "disk_calls \<Rightarrow> store \<Rightarrow> nat \<Rightarrow> nat \<Rightarrow> nat \<Rightarrow> nat \<Rightarrow> nat \<times> bool \<Rightarrow> clone_state \<Rightarrow> clone_state" where
  "clone_step sys fs perDir fsize jobs files turn c =
     (let (w, expired) = turn
      in if length (cWorkers c) \<le> w then c
         else (case cWorkers c ! w of
                 Round \<Rightarrow> move_to w (if expired then Returned else Considering w) c
               | Considering i \<Rightarrow>
                   move_to w (if files \<le> i then Round
                              else if cFailed c \<noteq> None \<or> expired then Returned else Copying i) c
               | Copying i \<Rightarrow> clone_copy sys fs perDir fsize jobs w i c
               | Returned \<Rightarrow> c))"

definition clone ::
  "disk_calls \<Rightarrow> store \<Rightarrow> nat \<Rightarrow> nat \<Rightarrow> nat \<Rightarrow> nat \<Rightarrow> (nat \<times> bool) list \<Rightarrow> store \<Rightarrow> clone_state" where
  "clone sys fs perDir fsize jobs files sched dest =
     fold (clone_step sys fs perDir fsize jobs files) sched
       \<lparr>cWorkers = replicate jobs Round, cDest = dest, cTotal = 0, cFailed = None, cPanic = False\<rparr>"

section \<open>What a program ends with\<close>

datatype ending = ExitStatus int | Moved u64 | Crashed

definition ending_of :: "u64 \<times> go_error option \<Rightarrow> ending" where
  "ending_of r = (case r of (n, None) \<Rightarrow> Moved n | (_, Some _) \<Rightarrow> ExitStatus 1)"

definition clone_ending :: "clone_state \<Rightarrow> ending" where
  "clone_ending c = (if cPanic c then Crashed else ending_of (cTotal c, map_option fst (cFailed c)))"

text \<open>
  \<^verbatim>\<open>main\<close> of \<^verbatim>\<open>fragload\<close> for a mode and the directories, with the results of the four modes. What
  \<^verbatim>\<open>write\<close> has moved is worked out from the flags.
\<close>

definition fragload_main ::
  "string \<Rightarrow> string \<Rightarrow> string \<Rightarrow> nat \<Rightarrow> nat \<Rightarrow> go_error option \<Rightarrow> u64 \<times> go_error option \<Rightarrow> u64 \<Rightarrow> clone_state \<Rightarrow> ending" where
  "fragload_main mode dir dest files fsize written rd ht cl =
     (if dir = [] then ExitStatus 1
      else if mode = ''write'' then ending_of (of_nat files * of_nat fsize, written)
      else if mode = ''read'' then ending_of rd
      else if mode = ''hot'' then Moved ht
      else if mode = ''clone'' then (if dest = [] then ExitStatus 1 else clone_ending cl)
      else ExitStatus 1)"

text \<open>\<^verbatim>\<open>hog\<close> from the call that maps the memory on, and \<^verbatim>\<open>main\<close> of \<^verbatim>\<open>fragcheck\<close>.\<close>

definition hog_run :: "bool \<Rightarrow> nat \<Rightarrow> nat \<Rightarrow> u64 \<times> go_error option" where
  "hog_run mapped mb passes =
     (if \<not> mapped then (0, Some (IOError ''mmap''))
      else (snd (hog passes 1 (replicate (mb * 1048576 div 4096) 0) 0), None))"

definition verify_ending :: "verdict_of_set \<Rightarrow> ending" where
  "verify_ending v =
     (case v of Panicked \<Rightarrow> Crashed | Ended n None \<Rightarrow> Moved n | Ended _ (Some _) \<Rightarrow> ExitStatus 1)"

definition fragcheck_main :: "string \<Rightarrow> string \<Rightarrow> verdict_of_set \<Rightarrow> u64 \<times> go_error option \<Rightarrow> ending" where
  "fragcheck_main mode dir v hg =
     (if mode = ''verify'' then (if dir = [] then ExitStatus 1 else verify_ending v)
      else if mode = ''hog'' then ending_of hg
      else ExitStatus 1)"

section \<open>Memory and descriptors of fragspike\<close>

text \<open>
  The system calls that take something or give it back, in the order they are made and with
  whether they worked. The system is asked with all calls so far.
\<close>

datatype os_call =
    MapAnon bool nat
  | MapFile nat
  | Unmap
  | Advise
  | RingSetup
  | Register "(nat \<times> nat) list"
  | OpenFile nat
  | StatFile nat
  | CloseFd
  | Hold

type_synonym trace = "(os_call \<times> bool) list"
type_synonym os = "trace \<Rightarrow> os_call \<Rightarrow> bool"

definition done_call :: "os_call \<Rightarrow> trace \<Rightarrow> trace" where
  "done_call c h = h @ [(c, True)]"

definition ask :: "os \<Rightarrow> os_call \<Rightarrow> trace \<Rightarrow> bool \<times> trace" where
  "ask os c h = (os h c, h @ [(c, os h c)])"

definition mib :: nat where "mib = 1048576"

text \<open>\<^verbatim>\<open>arena\<close> and \<^verbatim>\<open>bank\<close>.\<close>

definition arena :: "os \<Rightarrow> nat \<Rightarrow> trace \<Rightarrow> bool \<times> trace" where
  "arena os mb h = ask os (MapAnon True (mb * mib)) h"

definition bank :: "os \<Rightarrow> nat \<Rightarrow> trace \<Rightarrow> bool \<times> trace" where
  "bank os mb h =
     (let (ok, h1) = ask os (MapAnon False (mb * mib)) h
      in if ok then (True, done_call Advise h1) else (False, h1))"

text \<open>\<^verbatim>\<open>pin\<close>: the ring stays open when the buffers are registered, and is closed when they are not.\<close>

definition pin :: "os \<Rightarrow> nat \<Rightarrow> trace \<Rightarrow> go_error option \<times> trace" where
  "pin os len h =
     (let (ok, h1) = ask os RingSetup h; bufs = pin_bufs 0 len
      in if \<not> ok then (Some (IOError ''io_uring_setup''), h1)
         else if bufs = [] then (Some SliceOutOfRange, h1)
         else (let (ok2, h2) = ask os (Register bufs) h1
               in if ok2 then (None, h2) else (Some (IOError ''io_uring_register''), done_call CloseFd h2)))"

text \<open>The end of \<^verbatim>\<open>shm\<close> and \<^verbatim>\<open>load\<close>: pin if asked to, hold, and close the ring.\<close>

definition hold_pinned :: "os \<Rightarrow> bool \<Rightarrow> nat \<Rightarrow> trace \<Rightarrow> go_error option \<times> trace" where
  "hold_pinned os pinned len h =
     (if pinned
      then (case pin os len h of
              (Some e, h1) \<Rightarrow> (Some e, h1)
            | (None, h1) \<Rightarrow> (None, done_call CloseFd (done_call Hold h1)))
      else (None, done_call Hold h))"

definition shm :: "os \<Rightarrow> nat \<Rightarrow> nat \<Rightarrow> bool \<Rightarrow> trace \<Rightarrow> (u64 \<times> go_error option) \<times> trace" where
  "shm os mb jobs pinned h =
     (let (ok, h1) = arena os mb h
      in if \<not> ok then ((0, Some (IOError ''mmap'')), h1)
         else (case touch (mb * mib) jobs of
                 Inl e \<Rightarrow> ((0, Some e), done_call Unmap h1)
               | Inr _ \<Rightarrow>
                   (let (err, h2) = hold_pinned os pinned (mb * mib) h1
                    in ((if err = None then of_nat (mb * mib) else 0, err), done_call Unmap h2))))"

text \<open>
  \<^verbatim>\<open>load\<close>: the files are opened and measured before anything is read; all that were opened are
  closed and the memory is unmapped on every way out. \<open>reads\<close> is what the workers bring: the
  bytes, and an error if one of them met one.
\<close>

fun open_files :: "os \<Rightarrow> nat \<Rightarrow> nat \<Rightarrow> nat \<Rightarrow> trace \<Rightarrow> bool \<times> nat \<times> trace" where
  "open_files os i 0 opened h = (True, opened, h)"
| "open_files os i (Suc n) opened h =
     (let (ok, h1) = ask os (OpenFile i) h
      in if \<not> ok then (False, opened, h1)
         else (let (ok2, h2) = ask os (StatFile i) h1
               in if \<not> ok2 then (False, opened + 1, h2) else open_files os (i + 1) n (opened + 1) h2))"

definition close_all :: "nat \<Rightarrow> trace \<Rightarrow> trace" where
  "close_all n h = (done_call CloseFd ^^ n) h"

definition load_run ::
  "os \<Rightarrow> nat \<Rightarrow> nat \<Rightarrow> bool \<Rightarrow> bool \<Rightarrow> u64 \<times> go_error option \<Rightarrow> trace \<Rightarrow> (u64 \<times> go_error option) \<times> trace" where
  "load_run os files mb direct pinned reads h =
     (let (ok, h1) = (if direct then bank os mb h else arena os mb h)
      in if \<not> ok then ((0, Some (IOError ''mmap'')), h1)
         else
           (let (all_open, opened, h2) = open_files os 0 files 0 h1;
                out = (\<lambda>r h3. (r, done_call Unmap (close_all opened h3)))
            in if \<not> all_open then out (0, Some (IOError ''open'')) h2
               else if snd reads \<noteq> None then out reads h2
               else (let (err, h3) = hold_pinned os pinned (mb * mib) h2 in out (fst reads, err) h3)))"

text \<open>
  \<^verbatim>\<open>mapRead\<close>: the deferred unmapping is registered only when every file is mapped.
\<close>

fun map_files :: "os \<Rightarrow> nat \<Rightarrow> nat \<Rightarrow> trace \<Rightarrow> bool \<times> trace" where
  "map_files os i 0 h = (True, h)"
| "map_files os i (Suc n) h =
     (let (ok, h1) = ask os (OpenFile i) h
      in if \<not> ok then (False, h1)
         else
           (let (ok2, h2) = ask os (StatFile i) h1
            in if \<not> ok2 then (False, done_call CloseFd h2)
               else (let (ok3, h3) = ask os (MapFile i) h2; h4 = done_call CloseFd h3
                     in if ok3 then map_files os (i + 1) n h4 else (False, h4))))"

definition mapRead_run :: "os \<Rightarrow> nat \<Rightarrow> u64 \<Rightarrow> trace \<Rightarrow> (u64 \<times> go_error option) \<times> trace" where
  "mapRead_run os files tot h =
     (let (ok, h1) = map_files os 0 files h
      in if \<not> ok then ((0, Some (IOError ''open'')), h1)
         else ((tot, None), (done_call Unmap ^^ files) (done_call Hold h1)))"

definition fragspike_main ::
  "string \<Rightarrow> u64 \<times> go_error option \<Rightarrow> u64 \<times> go_error option \<Rightarrow> u64 \<times> go_error option \<Rightarrow> u64 \<times> go_error option \<Rightarrow> ending"
where
  "fragspike_main mode wr mp sh ld =
     (if mode = ''write'' then ending_of wr
      else if mode = ''map'' then ending_of mp
      else if mode = ''shm'' then ending_of sh
      else if mode = ''load'' then ending_of ld
      else ExitStatus 1)"

section \<open>Everything is given back\<close>

text \<open>What is mapped and what is open after a trace.\<close>

fun maps_after :: "os_call \<times> bool \<Rightarrow> int" where
  "maps_after (MapAnon _ _, True) = 1"
| "maps_after (MapFile _, True) = 1"
| "maps_after (Unmap, _) = -1"
| "maps_after _ = 0"

fun fds_after :: "os_call \<times> bool \<Rightarrow> int" where
  "fds_after (RingSetup, True) = 1"
| "fds_after (OpenFile _, True) = 1"
| "fds_after (CloseFd, _) = -1"
| "fds_after _ = 0"

definition holding :: "trace \<Rightarrow> int \<times> int" where
  "holding h = ((\<Sum>c\<leftarrow>h. maps_after c), (\<Sum>c\<leftarrow>h. fds_after c))"

lemma holding_Nil [simp]: "holding [] = (0, 0)"
  by (simp add: holding_def)

lemma holding_snoc [simp]:
  "holding (h @ [c]) = (fst (holding h) + maps_after c, snd (holding h) + fds_after c)"
  by (simp add: holding_def)

lemma holding_done [simp]:
  "holding (done_call c h) = (fst (holding h) + maps_after (c, True), snd (holding h) + fds_after (c, True))"
  by (simp add: done_call_def)

lemma holding_close_all [simp]: "holding (close_all n h) = (fst (holding h), snd (holding h) - int n)"
  by (induction n) (simp_all add: close_all_def)

lemma holding_unmaps [simp]: "holding ((done_call Unmap ^^ n) h) = (fst (holding h) - int n, snd (holding h))"
  by (induction n) simp_all

lemma ask_holds:
  "ask os c h = (ok, h1) \<Longrightarrow>
   holding h1 = (fst (holding h) + maps_after (c, ok), snd (holding h) + fds_after (c, ok))"
  by (auto simp: ask_def)

lemma pin_bufs_nonempty: "0 < len \<Longrightarrow> pin_bufs 0 len \<noteq> []"
  by (subst pin_bufs.simps) simp

lemma pin_holds:
  assumes "pin os len h = (err, h1)" and "0 < len"
  shows "holding h1 = (fst (holding h), snd (holding h) + (if err = None then 1 else 0))"
  using assms pin_bufs_nonempty [OF assms(2)]
  by (auto simp: pin_def Let_def split: prod.splits if_splits dest!: ask_holds)

lemma hold_pinned_holds:
  assumes "hold_pinned os pinned len h = (err, h1)" and "0 < len"
  shows "holding h1 = holding h"
  using assms
  by (auto simp: hold_pinned_def split: prod.splits if_splits option.splits dest!: pin_holds)

lemma open_files_hold:
  "open_files os i n k h = (ok, opened, h1) \<Longrightarrow>
   k \<le> opened \<and> holding h1 = (fst (holding h), snd (holding h) + int (opened - k))"
proof (induction os i n k h rule: open_files.induct)
  case (2 os i n k h)
  obtain ok1 g1 where a: "ask os (OpenFile i) h = (ok1, g1)" by fastforce
  obtain ok2 g2 where b: "ask os (StatFile i) g1 = (ok2, g2)" by fastforce
  show ?case
  proof (cases "ok1 \<and> ok2")
    case True
    then have "open_files os (i + 1) n (k + 1) g2 = (ok, opened, h1)"
      using "2.prems" a b by simp
    then have "k + 1 \<le> opened \<and> holding h1 = (fst (holding g2), snd (holding g2) + int (opened - (k + 1)))"
      using "2.IH" a b True by auto
    then show ?thesis using True ask_holds [OF a] ask_holds [OF b] by auto
  next
    case False
    then show ?thesis using "2.prems" a b ask_holds [OF a] ask_holds [OF b] by (auto split: if_splits)
  qed
qed simp

text \<open>
  C38. The modes that take memory give it back on every way out: whatever the system refuses, at
  whichever call, \<^verbatim>\<open>shm\<close> and \<^verbatim>\<open>load\<close> leave no mapping and no descriptor behind, the ring that pins
  the pages included, and so does \<^verbatim>\<open>mapRead\<close> when all files could be mapped.
\<close>

theorem spike_gives_back:
  assumes "0 < mb"
  shows "holding (snd (shm os mb jobs pinned h)) = holding h \<and>
    holding (snd (load_run os files mb direct pinned reads h)) = holding h \<and>
    (snd (fst (mapRead_run os files tot h)) = None \<longrightarrow> holding (snd (mapRead_run os files tot h)) = holding h)"
proof (intro conjI impI)
  have len: "0 < mb * mib" using assms by (simp add: mib_def)
  obtain ok h1 where a: "arena os mb h = (ok, h1)" by fastforce
  have h1: "holding h1 = (fst (holding h) + (if ok then 1 else 0), snd (holding h))"
    using ask_holds [OF a [unfolded arena_def]] by (cases ok) auto
  obtain err h2 where p: "hold_pinned os pinned (mb * mib) h1 = (err, h2)" by fastforce
  show "holding (snd (shm os mb jobs pinned h)) = holding h"
    using a h1 p hold_pinned_holds [OF p len] by (auto simp: shm_def split: sum.split)
  obtain okb hb where b: "(if direct then bank os mb h else arena os mb h) = (okb, hb)" by fastforce
  have hb: "holding hb = (fst (holding h) + (if okb then 1 else 0), snd (holding h))"
    using b by (auto simp: arena_def bank_def split: if_splits prod.splits dest!: ask_holds)
  obtain all_open opened ho where o: "open_files os 0 files 0 hb = (all_open, opened, ho)"
    by (cases "open_files os 0 files 0 hb") auto
  obtain err' hp where q: "hold_pinned os pinned (mb * mib) ho = (err', hp)" by fastforce
  show "holding (snd (load_run os files mb direct pinned reads h)) = holding h"
    using b hb o open_files_hold [OF o] q hold_pinned_holds [OF q len] by (auto simp: load_run_def Let_def)
next
  have map_all: "ok \<Longrightarrow> map_files os i n h = (ok, h1) \<Longrightarrow>
      holding h1 = (fst (holding h) + int n, snd (holding h))" for i n h h1 ok
  proof (induction os i n h rule: map_files.induct)
    case (2 os i n h)
    obtain ok1 g1 where a: "ask os (OpenFile i) h = (ok1, g1)" by fastforce
    obtain ok2 g2 where b: "ask os (StatFile i) g1 = (ok2, g2)" by fastforce
    obtain ok3 g3 where c: "ask os (MapFile i) g2 = (ok3, g3)" by fastforce
    have "ok1" "ok2" "ok3" "map_files os (i + 1) n (done_call CloseFd g3) = (ok, h1)"
      using "2.prems" a b c by (auto simp: Let_def split: if_splits)
    then show ?case
      using "2.IH" [OF a [symmetric] _ _ b [symmetric] _ _ c [symmetric]] "2.prems"(1) 
        ask_holds [OF a] ask_holds [OF b] ask_holds [OF c] by auto
  qed simp
  assume none: "snd (fst (mapRead_run os files tot h)) = None"
  obtain ok h1 where "map_files os 0 files h = (ok, h1)" by fastforce
  with none map_all [of ok 0 files h h1] show "holding (snd (mapRead_run os files tot h)) = holding h"
    by (auto simp: mapRead_run_def split: if_splits)
qed

text \<open>A file that cannot be opened leaves the mappings of the ones before it.\<close>

lemma mapRead_leaves_mapping:
  "holding (snd (mapRead_run (\<lambda>h c. c \<noteq> OpenFile 1) 2 tot [])) = (1, 0)"
  by (simp add: mapRead_run_def ask_def done_call_def eval_nat_numeral holding_def)

lemma spike_gives_back_witness:
  "holding (snd (load_run (\<lambda>h c. c \<noteq> RingSetup) 3 64 True True (5, None) [])) = (0, 0)"
  using spike_gives_back [of 64 "\<lambda>h c. c \<noteq> RingSetup" 1 True "[]" 3 True "(5, None)" 0] by simp

section \<open>How clone ends\<close>

lemma store_error_fails: "cFailed (store_error e kind c) \<noteq> None" "cWorkers (store_error e kind c) = cWorkers c"
  by (auto simp: store_error_def split: option.split)

text \<open>As long as the deadline has not passed, a worker stops only when an error is on record.\<close>

lemma clone_step_reports:
  assumes "Returned \<in> set (cWorkers c) \<Longrightarrow> cFailed c \<noteq> None"
  shows "Returned \<in> set (cWorkers (clone_step sys fs perDir fsize jobs files (w, False) c)) \<Longrightarrow>
    cFailed (clone_step sys fs perDir fsize jobs files (w, False) c) \<noteq> None"
proof -
  have upd: "Returned \<in> set ((cWorkers c)[w := b]) \<Longrightarrow> b \<noteq> Returned \<Longrightarrow> cFailed c \<noteq> None" for b
    using assms set_update_subset_insert [of "cWorkers c" w b] by auto
  assume r: "Returned \<in> set (cWorkers (clone_step sys fs perDir fsize jobs files (w, False) c))"
  show ?thesis
  proof (cases "length (cWorkers c) \<le> w")
    case True
    then show ?thesis using r assms by (simp add: clone_step_def)
  next
    case False
    show ?thesis
    proof (cases "cWorkers c ! w")
      case Round
      then show ?thesis using r False upd [of "Considering w"] by (simp add: clone_step_def move_to_def)
    next
      case (Considering i)
      then show ?thesis
        using r False upd [of Round] upd [of "Copying i"]
        by (auto simp: clone_step_def move_to_def split: if_splits)
    next
      case (Copying i)
      then show ?thesis
        using r False upd [of "Considering (i + jobs)"]
          store_error_fails(1)
        by (auto simp: clone_step_def clone_copy_def move_to_def simp del: not_None_eq split: prod.splits option.splits)
    next
      case Returned
      then show ?thesis using r False assms by (simp add: clone_step_def)
    qed
  qed
qed

theorem clone_stops_only_on_error:
  assumes "list_all (\<lambda>t. \<not> snd t) sched" and "Returned \<in> set (cWorkers (clone sys fs perDir fsize jobs files sched dest))"
  shows "cFailed (clone sys fs perDir fsize jobs files sched dest) \<noteq> None"
proof -
  have keep: "Returned \<in> set (cWorkers (fold (clone_step sys fs perDir fsize jobs files) sched c)) \<Longrightarrow>
      cFailed (fold (clone_step sys fs perDir fsize jobs files) sched c) \<noteq> None"
    if "Returned \<in> set (cWorkers c) \<Longrightarrow> cFailed c \<noteq> None" for c
    using assms(1) that
  proof (induction sched arbitrary: c)
    case (Cons t sched)
    obtain w where t: "t = (w, False)" using Cons.prems(2) by (cases t) simp
    show ?case
      using Cons.IH [of "clone_step sys fs perDir fsize jobs files t c"] Cons.prems clone_step_reports [of c sys fs perDir fsize jobs files w]
      unfolding t by auto
  qed simp
  show ?thesis using assms(2) unfolding clone_def by (rule keep [rotated]) simp
qed

text \<open>
  Two workers whose copies fail in different ways, one for want of its source and one in the copy
  itself, bring the program down instead of an error message.
\<close>

lemma clone_two_kinds_panic:
  "cPanic (clone \<lparr>mkdirs = \<lambda>_. True, unlinks = \<lambda>_. True, creates = \<lambda>_. True, copy_at = \<lambda>_ _. Inl ''EIO''\<rparr>
     (Map.empty(path 1 1000 \<mapsto> [7])) 1000 1 2 2
     [(0, False), (1, False), (0, False), (1, False), (0, False), (1, False)] Map.empty)"
proof -
  have "path 0 1000 \<noteq> path (Suc 0) 1000" using path_inj by fastforce
  then show ?thesis
    by (simp add: clone_def clone_step_def move_to_def clone_copy_def cloneOne_def clone_range.simps store_error_def
      reaches_copy_def eval_nat_numeral)
qed

end
