(* ===== verification/Verdicts.thy ===== *)
theory Verdicts
  imports Tables
begin

text \<open>
  What a comparison prints of its assertions: \<^verbatim>\<open>verdictText\<close>, \<^verbatim>\<open>verdictMarkdown\<close> and the page that
  \<^verbatim>\<open>-md\<close> writes, \<^verbatim>\<open>packages/fragview/compare.go\<close>, with the verb \<^verbatim>\<open>%g\<close> that shows a bound.
\<close>

section \<open>The shortest decimal\<close>

text \<open>
  \<^verbatim>\<open>%g\<close> takes the fewest digits that read back as the same number, of which seventeen are always
  enough. A positive number is \<open>n * 10 ^ (e - k + 1)\<close> with the \<open>k\<close> digits \<open>n\<close>.
\<close>

definition dec_expo :: "rat \<Rightarrow> int" where
  "dec_expo x =
     (if x \<ge> 1 then int (length (decimal (nat \<lfloor>x\<rfloor>))) - 1
      else - int (length (decimal (nat (\<lceil>1 / x\<rceil> - 1)))))"

definition dec_digits :: "nat \<Rightarrow> rat \<Rightarrow> nat \<times> int" where
  "dec_digits k x =
     (let e = dec_expo x; n = nat (rne (x * 10 powi (int k - 1 - e)))
      in if n = 10 ^ k then (10 ^ (k - 1), e + 1) else (n, e))"

definition dec_value :: "nat \<Rightarrow> nat \<times> int \<Rightarrow> rat" where
  "dec_value k d = of_nat (fst d) * 10 powi (snd d - int k + 1)"

primrec shortest_from :: "nat \<Rightarrow> nat \<Rightarrow> rat \<Rightarrow> nat \<times> nat \<times> int" where
  "shortest_from 0 k x = (k, dec_digits k x)"
| "shortest_from (Suc j) k x =
     (if fl (dec_value k (dec_digits k x)) = x then (k, dec_digits k x) else shortest_from j (Suc k) x)"

text \<open>An exponent below \<open>-4\<close>, or of six and more, is written out; there are no trailing zeros then.\<close>

definition expo_text :: "int \<Rightarrow> string" where
  "expo_text e = ''e'' @ (if e < 0 then ''-'' else ''+'') @ pad_zeros 2 (decimal (nat \<bar>e\<bar>))"

definition place_point :: "string \<Rightarrow> int \<Rightarrow> string" where
  "place_point ds e =
     (if e < -4 \<or> 6 \<le> e then take 1 ds @ (if length ds \<le> 1 then [] else CHR ''.'' # drop 1 ds) @ expo_text e
      else if e < 0 then ''0.'' @ replicate (nat (- e - 1)) (CHR ''0'') @ ds
      else if int (length ds) \<le> e + 1 then ds @ replicate (nat (e + 1) - length ds) (CHR ''0'')
      else take (nat (e + 1)) ds @ CHR ''.'' # drop (nat (e + 1)) ds)"

definition g_text :: "rat \<Rightarrow> string" where
  "g_text x =
     (if x = 0 then ''0''
      else (let (k, n, e) = shortest_from 16 1 \<bar>x\<bar>
            in (if x < 0 then ''-'' else []) @ place_point (decimal n) e))"

section \<open>Verdicts as text\<close>

definition dropped_note :: "nat \<Rightarrow> string" where
  "dropped_note n =
     (if 0 < n then ''  ['' @ decimal n @ '' seed(s) dropped: baseline at the cap]'' else [])"

definition verdict_line :: "verdict \<Rightarrow> string" where
  "verdict_line v =
     (let e = vexp v
      in pad_right 12 (emetric e) @ '' '' @ pad_right 12 (efrom e) @ '' '' @ pad_left 10 (showValue (emetric e) (va v)) @
         '' -> '' @ pad_right 12 (eto e) @ '' '' @ pad_left 10 (showValue (emetric e) (vb v)) @ ''  ratio '' @
         fixed 3 (vratio v) @ ''  '' @ verdict_state v @ '' (needs '' @ verdict_op v @ '' '' @ g_text (ebound e) @ '')'' @
         dropped_note (vdropped v))"

definition verdictText :: "verdict list \<Rightarrow> string" where
  "verdictText vs = concat (map (\<lambda>v. verdict_line v @ newline) vs)"

datatype mark = Check | Warning | Cross

fun mark_text :: "mark \<Rightarrow> string" where
  "mark_text Check = [CHR 0xE2, CHR 0x9C, CHR 0x85]"
| "mark_text Warning = [CHR 0xE2, CHR 0x9A, CHR 0xA0, CHR 0xEF, CHR 0xB8, CHR 0x8F]"
| "mark_text Cross = [CHR 0xE2, CHR 0x9D, CHR 0x8C]"

definition verdict_mark :: "verdict \<Rightarrow> mark" where
  "verdict_mark v = (if vnosignal v then Warning else if \<not> vok v then Cross else Check)"

definition verdict_row :: "verdict \<Rightarrow> string" where
  "verdict_row v =
     (let e = vexp v
      in ''| '' @ emetric e @ '' | '' @ efrom e @ '' '' @ showValue (emetric e) (va v) @ '' | '' @ eto e @ '' '' @
         showValue (emetric e) (vb v) @ '' | '' @ fixed 3 (vratio v) @ '' | '' @ verdict_op v @ '' '' @
         g_text (ebound e) @ '' | '' @ mark_text (verdict_mark v) @ '' |'')"

definition verdictMarkdown :: "verdict list \<Rightarrow> string" where
  "verdictMarkdown vs =
     ''| metric | from | to | ratio | needs | |'' @ newline @ ''|---|---|---|---:|---:|---|'' @ newline @
     concat (map (\<lambda>v. verdict_row v @ newline) vs)"

text \<open>What \<^verbatim>\<open>compareSnapshots\<close> prints, and the page for \<^verbatim>\<open>-md\<close>, which looks at the first group.\<close>

definition printed_text :: "build_group list \<Rightarrow> verdict list \<Rightarrow> string" where
  "printed_text gs vs = textTable gs @ (if vs \<noteq> [] then newline @ verdictText vs else [])"

definition text_page :: "build_group list \<Rightarrow> verdict list \<Rightarrow> string" where
  "text_page gs vs = textTable gs @ newline @ verdictText vs"

definition markdown_page :: "string \<Rightarrow> build_group list \<Rightarrow> verdict list \<Rightarrow> string go_result" where
  "markdown_page title gs vs =
     (case gs of
        [] \<Rightarrow> Inl SliceOutOfRange
      | g # _ \<Rightarrow> Inr ((if title \<noteq> [] then ''## '' @ title @ newline @ newline else []) @
          (if vs \<noteq> [] then verdictMarkdown vs @ newline else []) @
          ''<details><summary>every metric, median of '' @ decimal (length (seeds g)) @ '' seeds</summary>'' @
          newline @ newline @ markdownTable gs @ newline @ ''</details>'' @ newline))"

section \<open>Shown bounds\<close>

text \<open>
  With fewer than seventeen digits the text stands for a decimal that rounds back to the bound, and
  no decimal of fewer digits, rounded the same way, does.
\<close>

lemma shortest_from_reads:
  assumes "shortest_from j k x = (k', d)" and "k' < k + j"
  shows "fl (dec_value k' d) = x \<and> k \<le> k' \<and> (\<forall>i. k \<le> i \<and> i < k' \<longrightarrow> fl (dec_value i (dec_digits i x)) \<noteq> x)"
  using assms
proof (induction j arbitrary: k)
  case (Suc j)
  show ?case
  proof (cases "fl (dec_value k (dec_digits k x)) = x")
    case False
    then have "shortest_from j (Suc k) x = (k', d)" "k' < Suc k + j" using Suc.prems by simp_all
    note ih = Suc.IH [OF this]
    have "fl (dec_value i (dec_digits i x)) \<noteq> x" if "k \<le> i" "i < k'" for i
      using ih that False by (cases "i = k") auto
    then show ?thesis using ih by auto
  qed (use Suc.prems in auto)
qed simp

lemma shown_bound: "g_text (fl (4 / 5)) = ''0.8''"
  by code_simp

section \<open>The marks and the exit status\<close>

lemma judged_fields:
  assumes "v \<in> set (judge gs specs)"
  shows "vmissing v \<noteq> [] \<Longrightarrow> \<not> vnosignal v \<and> \<not> vok v" and "vnosignal v \<Longrightarrow> \<not> vok v"
proof -
  obtain e where v: "v = judge_one gs e" using assms by (auto simp: judge_def)
  have "vmissing (judge_pair gf gt e) = []" "vnosignal (judge_pair gf gt e) \<Longrightarrow> \<not> vok (judge_pair gf gt e)" for gf gt
    by (auto simp: judge_pair_def no_verdict_def Let_def split: prod.split)
  then show "vmissing v \<noteq> [] \<Longrightarrow> \<not> vnosignal v \<and> \<not> vok v" and "vnosignal v \<Longrightarrow> \<not> vok v"
    by (auto simp: v judge_one_def no_verdict_def split: option.splits)
qed

text \<open>
  C31. The marks of the printed table tell how the run ends: with all files written, a comparison that
  gets as far as a table exits with zero exactly if every row has the check mark, or the warning
  on an assertion that may go without a signal; and a row has the check mark exactly if the text
  says \<^verbatim>\<open>ok\<close> of it.
\<close>

theorem marks_tell_exit:
  assumes "compareSnapshots vars writes ps o' = (status, gs, vs)" and "gs \<noteq> []" and "\<And>path. writes path"
  shows "(status = 0 \<longleftrightarrow> list_all (\<lambda>v. verdict_mark v = Check \<or>
      verdict_mark v = Warning \<and> skipNoSignal (vexp v)) vs) \<and>
    list_all (\<lambda>v. verdict_mark v = Check \<longleftrightarrow> verdict_state v = ''ok'') vs"
proof -
  obtain specs where vs: "vs = judge gs specs" and st: "status = (if list_ex fatal vs then 1 else 0)"
    using assms by (auto simp: compareSnapshots_def Let_def split: sum.splits)
  have "\<not> fatal v \<longleftrightarrow> verdict_mark v = Check \<or> verdict_mark v = Warning \<and> skipNoSignal (vexp v)"
    if "v \<in> set vs" for v
    using judged_fields [of v gs specs] that by (auto simp: vs fatal_def verdict_mark_def)
  then have "status = 0 \<longleftrightarrow> list_all (\<lambda>v. verdict_mark v = Check \<or>
      verdict_mark v = Warning \<and> skipNoSignal (vexp v)) vs"
    by (auto simp: st list_ex_iff list_all_iff)
  moreover have "verdict_mark v = Check \<longleftrightarrow> verdict_state v = ''ok''" if "v \<in> set vs" for v
    using judged_fields [of v gs specs] that by (auto simp: vs verdict_state_def verdict_mark_def)
  ultimately show ?thesis by (simp add: list_all_iff)
qed

lemma sample_spec: "case parseExpectation ''mixed:stock->patched<=1'' of Inl _ \<Rightarrow> False | Inr _ \<Rightarrow> True"
  by code_simp

lemma marks_tell_exit_witness:
  "\<exists>s status g gs v. compareSnapshots sample_vars (\<lambda>_. True) [Some s, Some s]
       \<lparr>co_order = [], co_expect = [''mixed:stock->patched<=1''], txtOut = [], mdOut = [], jsonOut = []\<rparr> = (status, g # gs, [v]) \<and>
     (status = 0 \<longleftrightarrow> verdict_mark v = Check \<or> verdict_mark v = Warning \<and> skipNoSignal (vexp v))"
proof -
  let ?o = "\<lparr>co_order = [], co_expect = [''mixed:stock->patched<=1''], txtOut = [], mdOut = [], jsonOut = []\<rparr>"
  obtain s where s: "\<And>vars0. \<exists>f vars'. readSnapshot vars0 s = Inr (f, vars')" using sample_reads by meson
  obtain f1 v1 f2 v2 where r: "readSnapshot sample_vars s = Inr (f1, v1)" "readSnapshot v1 s = Inr (f2, v2)"
    using s by metis
  obtain g gs where gs: "groupSnapshots sample_vars [Some s, Some s] [] = Inr (g # gs)"
    using r groups_of_two by blast
  obtain e where "parseExpectation ''mixed:stock->patched<=1'' = Inr e"
    using sample_spec by (auto split: sum.splits)
  then have "parse_all [''mixed:stock->patched<=1''] = Inr [e]" by simp
  then obtain status v where c: "compareSnapshots sample_vars (\<lambda>_. True) [Some s, Some s] ?o = (status, g # gs, [v])"
    using gs by (simp add: compareSnapshots_def judge_def)
  from marks_tell_exit [OF c]
  have "(status = 0) = (verdict_mark v = Check \<or> verdict_mark v = Warning \<and> skipNoSignal (vexp v))" by simp
  then show ?thesis using c by blast
qed

end
