(* ===== verification/Mmapcheck.thy ===== *)
theory Mmapcheck
  imports GoStr
begin

text \<open>
  The readahead checks, \<^verbatim>\<open>packages/mmapcheck/main.go\<close>, as far as they run without the kernel: the
  watcher that calls a run stalled, the offsets of its writers and readers, the digests, and
  the comparison of a page with what the file has to hold. The clock and the digest are
  arguments. The runs of the three modes against a kernel are in \<^verbatim>\<open>Pagecheck\<close>.
\<close>

section \<open>The watcher\<close>

definition deadlock_size :: nat where "deadlock_size = 67108864"
definition deadlock_write :: nat where "deadlock_write = 65536"
definition deadlock_span :: nat where "deadlock_span = 4194304"
definition mpage :: nat where "mpage = 4096"

text \<open>
  The loop over the seconds: the two counters are sampled once a second, and the run is called
  stalled as soon as neither has moved for \<open>stall\<close> seconds. A stalled run never returns; the
  value is the second it stopped at.
\<close>

fun watch :: "int \<Rightarrow> nat \<Rightarrow> nat \<Rightarrow> u64 \<times> u64 \<Rightarrow> (u64 \<times> u64) list \<Rightarrow> nat option" where
  "watch stall t still lst [] = None"
| "watch stall t still lst (s # ss) =
     (let still' = (if s = lst then still + 1 else 0)
      in if stall \<le> int still' then Some t else watch stall (t + 1) still' s ss)"

text \<open>Where a writer puts its 64 KiB and a reader its 4 MiB, from a drawn page number.\<close>

definition write_pages :: nat where
  "write_pages = (deadlock_size - deadlock_write) div mpage"

definition span_pages :: nat where
  "span_pages = (deadlock_size - deadlock_span) div mpage"

definition draw_offset :: "nat \<Rightarrow> nat" where
  "draw_offset r = r * mpage"

section \<open>Digests\<close>

text \<open>\<^verbatim>\<open>sum\<close>: the lines printed, and the first file that does not open or map.\<close>

fun sum_files ::
  "(u8 list \<Rightarrow> string) \<Rightarrow> (string \<Rightarrow> u8 list option) \<Rightarrow> (string \<Rightarrow> nat) \<Rightarrow> string list \<Rightarrow>
   (string \<times> string \<times> nat) list \<times> string option" where
  "sum_files sha fs faults [] = ([], None)"
| "sum_files sha fs faults (p # ps) =
     (case fs p of
        None \<Rightarrow> ([], Some p)
      | Some bs \<Rightarrow> (let (out, err) = sum_files sha fs faults ps in ((sha bs, p, faults p) # out, err)))"

section \<open>Pages against what the file has to hold\<close>

definition put_range :: "nat \<Rightarrow> nat \<Rightarrow> u8 \<Rightarrow> u8 list \<Rightarrow> u8 list go_result" where
  "put_range from n b bs =
     (if length bs < from + n then Inl SliceOutOfRange
      else Inr (take from bs @ replicate n b @ drop (from + n) bs))"

text \<open>\<^verbatim>\<open>diff\<close>: the positions below \<open>n\<close> where two buffers differ; it indexes both.\<close>

definition diff_at :: "nat \<Rightarrow> u8 list \<Rightarrow> u8 list \<Rightarrow> nat go_result" where
  "diff_at n want b =
     (if length want < n \<or> length b < n then Inl SliceOutOfRange
      else Inr (length (filter (\<lambda>i. b ! i \<noteq> want ! i) [0 ..< n])))"

definition zeropage_size_ok :: "nat \<Rightarrow> bool" where
  "zeropage_size_ok n \<longleftrightarrow> \<not> (n < 2 * mpage + 8 + 50 + 1 \<or> n > 3 * mpage)"

text \<open>The dispatch on the arguments: the mode, or the usage with exit status two.\<close>

datatype check_mode = Deadlock string | SumOf "string list" | SubPage string | ZeroPage string | Usage

definition check_dispatch :: "string list \<Rightarrow> string \<Rightarrow> string \<Rightarrow> check_mode" where
  "check_dispatch args orig inject =
     (if length args = 2 \<and> args ! 0 = ''deadlock'' then Deadlock (args ! 1)
      else if length args \<ge> 2 \<and> args ! 0 = ''sum'' then SumOf (tl args)
      else if length args = 2 \<and> args ! 0 = ''subpage'' \<and> orig \<noteq> [] \<and> inject \<noteq> [] then SubPage (args ! 1)
      else if length args = 2 \<and> args ! 0 = ''zeropage'' \<and> orig \<noteq> [] then ZeroPage (args ! 1)
      else Usage)"

section \<open>When a run is stalled\<close>

text \<open>Neither counter has moved in the \<open>k\<close> seconds up to the sample \<open>t\<close>.\<close>

definition quiet :: "(u64 \<times> u64) list \<Rightarrow> nat \<Rightarrow> nat \<Rightarrow> bool" where
  "quiet ss t k \<longleftrightarrow> k \<le> t \<and> (\<forall>i. t - k \<le> i \<and> i < t \<longrightarrow> ss ! i = ss ! (i + 1))"

lemma quiet_0 [simp]: "quiet ss t 0"
  by (auto simp: quiet_def)

lemma quiet_Suc: "quiet ss (Suc t) (Suc k) \<longleftrightarrow> ss ! t = ss ! Suc t \<and> quiet ss t k"
  by (auto simp: quiet_def less_Suc_eq)

lemma quiet_mono: "quiet ss t k \<Longrightarrow> j \<le> k \<Longrightarrow> quiet ss t j"
  by (auto simp: quiet_def)

lemma watch_quiet:
  assumes "0 < stall" and "t < length ss" and "quiet ss t still" and "\<not> quiet ss t (Suc still)"
    and "int still < stall"
  shows "case watch stall (Suc t) still (ss ! t) (drop (Suc t) ss) of
      Some u \<Rightarrow> t < u \<and> u < length ss \<and> quiet ss u (nat stall) \<and>
        (\<forall>v. t < v \<and> v < u \<longrightarrow> \<not> quiet ss v (nat stall))
    | None \<Rightarrow> (\<forall>v. t < v \<and> v < length ss \<longrightarrow> \<not> quiet ss v (nat stall))"
  using assms(2-)
proof (induction "length ss - t" arbitrary: t still rule: less_induct)
  case less
  show ?case
  proof (cases "Suc t < length ss")
    case False
    then have "drop (Suc t) ss = []" by simp
    then show ?thesis using False by auto
  next
    case True
    let ?still = "if ss ! Suc t = ss ! t then still + 1 else 0"
    have d: "drop (Suc t) ss = ss ! Suc t # drop (Suc (Suc t)) ss" using True by (simp add: Cons_nth_drop_Suc)
    have q: "quiet ss (Suc t) ?still" "\<not> quiet ss (Suc t) (Suc ?still)"
      using less.prems(2,3) by (auto simp: quiet_Suc)
    show ?thesis
    proof (cases "stall \<le> int ?still")
      case True
      then have "nat stall \<le> ?still" by linarith
      then have "quiet ss (Suc t) (nat stall)" using q(1) quiet_mono by blast
      then show ?thesis using True \<open>Suc t < length ss\<close> by (simp add: d Let_def)
    next
      case False
      then have "Suc ?still \<le> nat stall" by linarith
      then have n: "\<not> quiet ss (Suc t) (nat stall)" using q(2) quiet_mono by blast
      have step: "watch stall (Suc t) still (ss ! t) (drop (Suc t) ss) =
          watch stall (Suc (Suc t)) ?still (ss ! Suc t) (drop (Suc (Suc t)) ss)"
        unfolding d using False by (simp add: Let_def)
      have "length ss - Suc t < length ss - t" "int ?still < stall" using True False by linarith+
      note ih = less.hyps [OF this(1) True q this(2)]
      have split: "t < v \<longleftrightarrow> v = Suc t \<or> Suc t < v" for v by linarith
      show ?thesis
      proof (cases "watch stall (Suc (Suc t)) ?still (ss ! Suc t) (drop (Suc (Suc t)) ss)")
        case None
        then show ?thesis using ih n unfolding step by (auto simp: split)
      next
        case (Some u)
        then show ?thesis using ih n unfolding step by (auto simp: split)
      qed
    qed
  qed
qed

text \<open>
  The watcher reports a stall exactly at the first second by which neither counter has moved
  for as many seconds as asked for, and not at all if there is no such second: a run that is
  merely slow, or in which only one side is stuck, is never called stalled.
\<close>

theorem watch_reports_stall:
  assumes "0 < stall"
  shows "watch stall 1 0 (0, 0) samples = Some u \<longleftrightarrow>
    u \<le> length samples \<and> quiet ((0, 0) # samples) u (nat stall) \<and>
    (\<forall>v < u. \<not> quiet ((0, 0) # samples) v (nat stall))"
proof -
  let ?ss = "(0, 0) # samples"
  have zero: "\<not> quiet ?ss 0 (nat stall)" using assms by (simp add: quiet_def)
  have w: "case watch stall 1 0 (0, 0) samples of
      Some u \<Rightarrow> 0 < u \<and> u < length ?ss \<and> quiet ?ss u (nat stall) \<and>
        (\<forall>v. 0 < v \<and> v < u \<longrightarrow> \<not> quiet ?ss v (nat stall))
    | None \<Rightarrow> (\<forall>v. 0 < v \<and> v < length ?ss \<longrightarrow> \<not> quiet ?ss v (nat stall))"
    using watch_quiet [OF assms, of 0 ?ss 0] assms by (simp add: quiet_def)
  have pos: "\<not> quiet ?ss v (nat stall)" if "v = 0 \<or> 0 < v \<and> P" "P \<longrightarrow> \<not> quiet ?ss v (nat stall)" for v P
    using that zero by auto
  show ?thesis
  proof (cases "watch stall 1 0 (0, 0) samples")
    case None
    then have "\<not> quiet ?ss v (nat stall)" if "v \<le> length samples" for v
      using w zero that by (cases "v = 0") auto
    then show ?thesis using None by auto
  next
    case (Some x)
    then have x: "0 < x" "x \<le> length samples" "quiet ?ss x (nat stall)"
      "\<And>v. v < x \<Longrightarrow> \<not> quiet ?ss v (nat stall)"
      using w zero by (auto simp: less_Suc_eq_le) (metis gr0I)
    then have "u = x" if "quiet ?ss u (nat stall)" "\<forall>v < u. \<not> quiet ?ss v (nat stall)"
      using that by (metis linorder_neqE_nat)
    then show ?thesis using x Some by auto
  qed
qed

lemma watch_reports_stall_witness:
  "watch 2 1 0 (0, 0) [(3, 1), (3, 1), (4, 1), (4, 1), (4, 1), (5, 2)] = Some 5 \<and>
   quiet [(0, 0), (3, 1), (3, 1), (4, 1), (4, 1), (4, 1), (5, 2)] 5 2"
proof -
  have "watch 2 1 0 (0, 0) [(3, 1), (3, 1), (4, 1), (4, 1), (4, 1), (5, 2)] = Some 5" by simp
  then show ?thesis
    using watch_reports_stall [of 2 "[(3, 1), (3, 1), (4, 1), (4, 1), (4, 1), (5, 2)]" 5] by simp
qed

section \<open>Offsets and comparisons\<close>

text \<open>The writes and the spans stay inside the file, and end on whole pages.\<close>

theorem drawn_ranges_inside:
  "(r < write_pages \<longrightarrow> draw_offset r + deadlock_write \<le> deadlock_size) \<and>
   (r < span_pages \<longrightarrow> draw_offset r + deadlock_span \<le> deadlock_size)"
  by (simp add: draw_offset_def write_pages_def span_pages_def deadlock_size_def deadlock_write_def
      deadlock_span_def mpage_def)

lemma diff_at_zero: "diff_at n want b = Inr 0 \<longleftrightarrow> n \<le> length want \<and> n \<le> length b \<and> take n b = take n want"
proof -
  have "(\<forall>i < n. b ! i = want ! i) \<longleftrightarrow> take n b = take n want" if "n \<le> length want" "n \<le> length b"
    using that by (simp add: list_eq_iff_nth_eq)
  then show ?thesis by (auto simp: diff_at_def filter_empty_conv)
qed

lemma put_range_Inr: "put_range a n b bs = Inr w \<Longrightarrow> length w = length bs"
  by (auto simp: put_range_def split: if_splits)

end
