(* ===== verification/Pagecheck.thy ===== *)
theory Pagecheck
  imports Mmapcheck
begin

text \<open>
  The runs of \<^verbatim>\<open>packages/mmapcheck/main.go\<close> against a kernel: \<^verbatim>\<open>deadlock\<close>, \<^verbatim>\<open>subpage\<close> and \<^verbatim>\<open>zeropage\<close> as
  sequences of system calls. The kernel is an argument: what it answers to a call, and what
  the mapping shows, may depend on all calls before. The second goroutine of a check makes one
  write while the main one asks for readahead; which of the two comes first is an argument.
  Clocks, sleeps and the printed times are left out.
\<close>

section \<open>Programs that call the kernel\<close>

datatype sys_call =
    ReadFile string
  | Create string
  | OpenRW string bool
  | Mmap nat
  | MadviseRandom
  | MadviseDontneed nat nat
  | FadviseDontneed nat nat
  | Willneed nat nat
  | Mincore nat
  | Touch nat
  | Command "string list"
  | WriteAt "u8 list" nat
  | ReadAt nat nat
  | PunchHole nat nat
  | Sync

datatype reply = Done | Data "u8 list" | Flag bool | Failed string

record kernel =
  answer :: "sys_call list \<Rightarrow> sys_call \<Rightarrow> reply"
  mapped :: "sys_call list \<Rightarrow> nat \<Rightarrow> u8"

text \<open>How a run ends early: an error that is returned, an exit of the process, a panic.\<close>

datatype halt = Returns string | Exits string | Panics go_error

type_synonym 'a run = "sys_call list \<Rightarrow> (halt + 'a) \<times> sys_call list"

definition give :: "'a \<Rightarrow> 'a run" where
  "give x h = (Inr x, h)"

definition halt_with :: "halt \<Rightarrow> 'a run" where
  "halt_with e h = (Inl e, h)"

definition andThen :: "'a run \<Rightarrow> ('a \<Rightarrow> 'b run) \<Rightarrow> 'b run" where
  "andThen p f h = (case p h of (Inl e, h') \<Rightarrow> (Inl e, h') | (Inr x, h') \<Rightarrow> f x h')"

definition pure_go :: "'a go_result \<Rightarrow> 'a run" where
  "pure_go r = (case r of Inl e \<Rightarrow> halt_with (Panics e) | Inr x \<Rightarrow> give x)"

definition call :: "kernel \<Rightarrow> sys_call \<Rightarrow> reply run" where
  "call k c h = ((case answer k h c of Failed e \<Rightarrow> Inl (Returns e) | r \<Rightarrow> Inr r), h @ [c])"

definition data_of :: "reply \<Rightarrow> u8 list" where
  "data_of r = (case r of Data bs \<Rightarrow> bs | _ \<Rightarrow> [])"

text \<open>\<^verbatim>\<open>ReadAt\<close> of an \<^verbatim>\<open>os.File\<close> fails unless the buffer is filled.\<close>

definition read_at :: "kernel \<Rightarrow> nat \<Rightarrow> nat \<Rightarrow> u8 list run" where
  "read_at k n off = andThen (call k (ReadAt n off)) (\<lambda>r.
     if length (data_of r) < n then halt_with (Returns ''EOF'') else give (data_of r))"

text \<open>\<^verbatim>\<open>run\<close>; an empty command line has no first word.\<close>

definition run_cmd :: "kernel \<Rightarrow> string \<Rightarrow> reply run" where
  "run_cmd k cmd =
     (let args = str_fields cmd
      in if args = [] then halt_with (Panics SliceOutOfRange) else call k (Command args))"

definition resident :: "kernel \<Rightarrow> nat \<Rightarrow> bool run" where
  "resident k off = andThen (call k (Mincore off)) (\<lambda>r. give (r = Flag True))"

text \<open>The write of the second goroutine, which leaves the process if it fails.\<close>

definition write_back :: "kernel \<Rightarrow> u8 list \<Rightarrow> nat \<Rightarrow> reply run" where
  "write_back k bs off h =
     ((case answer k h (WriteAt bs off) of Failed e \<Rightarrow> Inl (Exits e) | r \<Rightarrow> Inr r), h @ [WriteAt bs off])"

definition around :: "bool \<Rightarrow> reply run \<Rightarrow> reply run \<Rightarrow> reply run" where
  "around early w p = (if early then andThen w (\<lambda>_. p) else andThen p (\<lambda>_. w))"

section \<open>subpage\<close>

definition subpage ::
  "kernel \<Rightarrow> bool \<Rightarrow> string \<Rightarrow> string \<Rightarrow> string \<Rightarrow> (string \<times> bool \<times> nat \<times> nat) run" where
  "subpage k early path orig inject =
     andThen (call k (ReadFile orig)) (\<lambda>r.
     andThen (pure_go (put_range 1000 512 87 (data_of r))) (\<lambda>want.
     andThen (call k (OpenRW path False)) (\<lambda>_.
     andThen (call k (Mmap 262144)) (\<lambda>_.
     andThen (call k MadviseRandom) (\<lambda>_.
     andThen (call k (Touch (262144 - mpage))) (\<lambda>_.
     andThen (resident k (262144 - mpage)) (\<lambda>cached.
     andThen (run_cmd k inject) (\<lambda>_.
     andThen (around early (write_back k (replicate 512 87) 1000) (call k (Willneed 0 262144))) (\<lambda>_.
     andThen (run_cmd k ''zinject -c all'') (\<lambda>_.
     andThen (read_at k mpage 0) (\<lambda>got.
     andThen (pure_go (diff_at mpage want got)) (\<lambda>a h.
       andThen (pure_go (diff_at mpage want (map (mapped k h) [0 ..< mpage])))
         (\<lambda>b. give (List.last (str_fields inject), cached, a, b)) h))))))))))))"

section \<open>zeropage\<close>

definition zeropage_inject :: "kernel \<Rightarrow> bool \<Rightarrow> string \<Rightarrow> u8 list \<Rightarrow> u8 list run" where
  "zeropage_inject k early inject want =
     (if inject = [] then andThen (call k (Willneed 0 0)) (\<lambda>_. give want)
      else
        andThen (run_cmd k inject) (\<lambda>_.
        andThen (pure_go (put_range (mpage + 4) 1 87 want)) (\<lambda>want'.
        andThen (around early (write_back k [87] (mpage + 4)) (call k (Willneed 0 0))) (\<lambda>_.
        andThen (run_cmd k ''zinject -c all'') (\<lambda>_. give want')))))"

definition zeropage ::
  "kernel \<Rightarrow> bool \<Rightarrow> string \<Rightarrow> string \<Rightarrow> string \<Rightarrow> (bool \<times> nat \<times> nat) run" where
  "zeropage k early path orig inject =
     andThen (call k (ReadFile orig)) (\<lambda>r.
     let n = length (data_of r)
     in if \<not> zeropage_size_ok n then halt_with (Returns ''size'')
        else
          andThen (call k (OpenRW path False)) (\<lambda>_.
          andThen (call k (Mmap n)) (\<lambda>_.
          andThen (call k MadviseRandom) (\<lambda>_.
          andThen (call k (Touch 0)) (\<lambda>_.
          andThen (resident k 0) (\<lambda>cached.
          andThen (zeropage_inject k early inject (data_of r)) (\<lambda>want.
          andThen (call k (PunchHole (2 * mpage + 8) 50)) (\<lambda>_.
          andThen (pure_go (put_range (2 * mpage + 8) 50 0 want)) (\<lambda>want'.
          andThen (read_at k n 0) (\<lambda>got.
          andThen (pure_go (diff_at n want' got)) (\<lambda>a h.
            andThen (pure_go (diff_at n want' (map (mapped k h) [0 ..< n])))
              (\<lambda>b. give (cached, a, b)) h)))))))))))"

section \<open>What the file has to hold\<close>

text \<open>The content of the checked file after the calls of a run; a write past the end extends it.\<close>

definition put_bytes :: "nat \<Rightarrow> u8 list \<Rightarrow> u8 list \<Rightarrow> u8 list" where
  "put_bytes off bs f = take off (f @ replicate (off - length f) 0) @ bs @ drop (off + length bs) f"

fun effect :: "sys_call \<Rightarrow> u8 list \<Rightarrow> u8 list" where
  "effect (WriteAt bs off) f = put_bytes off bs f"
| "effect (PunchHole off n) f = take off f @ replicate (min n (length f - off)) 0 @ drop (off + n) f"
| "effect _ f = f"

definition file_after :: "u8 list \<Rightarrow> sys_call list \<Rightarrow> u8 list" where
  "file_after f h = fold effect h f"

lemma file_after_simps [simp]:
  "file_after f [] = f" "file_after f (h @ [c]) = effect c (file_after f h)"
  by (simp_all add: file_after_def)

definition wrong :: "nat \<Rightarrow> u8 list \<Rightarrow> (nat \<Rightarrow> u8) \<Rightarrow> nat" where
  "wrong n f g = length (filter (\<lambda>i. g i \<noteq> f ! i) [0 ..< n])"

lemma wrong_0_iff: "wrong n f g = 0 \<longleftrightarrow> (\<forall>i < n. g i = f ! i)"
  by (auto simp: wrong_def filter_empty_conv)

definition obliging :: "kernel \<Rightarrow> bool" where
  "obliging k \<longleftrightarrow> (\<forall>h c e. answer k h c \<noteq> Failed e) \<and>
     (\<forall>h n off. length (data_of (answer k h (ReadAt n off))) = n)"

lemma call_obliging: "obliging k \<Longrightarrow> call k c h = (Inr (answer k h c), h @ [c])"
  by (auto simp: call_def obliging_def split: reply.split)

lemma write_back_obliging: "obliging k \<Longrightarrow> write_back k bs off h = (Inr (answer k h (WriteAt bs off)), h @ [WriteAt bs off])"
  by (auto simp: write_back_def obliging_def split: reply.split)

lemma read_at_obliging: "obliging k \<Longrightarrow> read_at k n off h = (Inr (data_of (answer k h (ReadAt n off))), h @ [ReadAt n off])"
  by (simp add: read_at_def andThen_def call_obliging give_def) (simp add: obliging_def)

lemma run_cmd_obliging: "obliging k \<Longrightarrow> str_fields cmd \<noteq> [] \<Longrightarrow>
    run_cmd k cmd h = (Inr (answer k h (Command (str_fields cmd))), h @ [Command (str_fields cmd)])"
  by (simp add: run_cmd_def call_obliging)

lemma resident_obliging: "obliging k \<Longrightarrow> resident k off h = (Inr (answer k h (Mincore off) = Flag True), h @ [Mincore off])"
  by (simp add: resident_def andThen_def call_obliging give_def)

lemma clear_fields: "str_fields ''zinject -c all'' \<noteq> []"
  by (simp add: str_fields.simps is_space_def)

lemma around_obliging:
  assumes "obliging k"
  shows "around early (write_back k bs off) (call k c) h =
    (Inr (answer k (h @ [if early then WriteAt bs off else c]) (if early then c else WriteAt bs off)),
     h @ (if early then [WriteAt bs off, c] else [c, WriteAt bs off]))"
  using assms by (simp add: around_def andThen_def call_obliging write_back_obliging)

lemmas obliging = call_obliging write_back_obliging read_at_obliging run_cmd_obliging resident_obliging around_obliging

lemma diff_at_wrong:
  "length f \<ge> n \<Longrightarrow> length b = n \<Longrightarrow> diff_at n f b = Inr (wrong n f (\<lambda>i. b ! i))"
  by (simp add: diff_at_def wrong_def)

lemma diff_at_mapped: "length f \<ge> n \<Longrightarrow> diff_at n f (map g [0 ..< n]) = Inr (wrong n f g)"
  by (auto simp: diff_at_def wrong_def intro!: arg_cong [where f = length] filter_cong)

lemma put_range_bytes:
  "a + n \<le> length f \<Longrightarrow> put_range a n b f = Inr (put_bytes a (replicate n b) f)"
  by (simp add: put_range_def put_bytes_def)

lemma length_put_bytes [simp]: "a + length bs \<le> length f \<Longrightarrow> length (put_bytes a bs f) = length f"
  by (simp add: put_bytes_def)

text \<open>
  The check of \<^verbatim>\<open>subpage\<close> counts what it says: on a kernel that answers every call, whichever of the
  write and the readahead comes first, it prints a report, and the two numbers of the report are
  the bytes of the first page in which \<^verbatim>\<open>pread\<close> and the mapping differ from the file as the
  calls of the run have left it.
\<close>

theorem subpage_counts_wrong_bytes:
  assumes "obliging k" and "answer k [] (ReadFile orig) = Data f" and "mpage \<le> length f"
    and "str_fields inject \<noteq> []"
  shows "\<exists>h cached. subpage k early path orig inject [] =
    (Inr (List.last (str_fields inject), cached,
       wrong mpage (file_after f h) (\<lambda>i. data_of (answer k h (ReadAt mpage 0)) ! i),
       wrong mpage (file_after f h) (mapped k (h @ [ReadAt mpage 0]))), h @ [ReadAt mpage 0]) \<and>
    file_after f h = put_bytes 1000 (replicate 512 87) f"
proof -
  have m: "1000 + 512 \<le> length f" using assms(3) by (simp add: mpage_def)
  define want where "want = put_bytes 1000 (replicate 512 87) f"
  have pr: "put_range 1000 512 87 f = Inr want" using m by (simp add: put_range_bytes want_def)
  have len: "mpage \<le> length want" using assms(3) m by (simp add: want_def)
  define pre where "pre = [ReadFile orig, OpenRW path False, Mmap 262144, MadviseRandom, Touch (262144 - mpage),
    Mincore (262144 - mpage), Command (str_fields inject)]"
  define h where "h = pre @ (if early then [WriteAt (replicate 512 87) 1000, Willneed 0 262144]
    else [Willneed 0 262144, WriteAt (replicate 512 87) 1000]) @ [Command (str_fields ''zinject -c all'')]"
  have fa: "file_after f h = want"
    by (simp add: h_def pre_def file_after_def want_def)
  have dg: "diff_at mpage want (data_of (answer k g (ReadAt mpage 0))) =
      Inr (wrong mpage want ((!) (data_of (answer k g (ReadAt mpage 0)))))" for g
    using assms(1) len by (intro diff_at_wrong) (simp_all add: obliging_def)
  have d: "data_of (Data f) = f" by (simp add: data_of_def)
  let ?cached = "answer k [ReadFile orig, OpenRW path False, Mmap 262144, MadviseRandom, Touch (262144 - mpage)]
      (Mincore (262144 - mpage)) = Flag True"
  have "subpage k early path orig inject [] =
    (Inr (List.last (str_fields inject), ?cached, wrong mpage want ((!) (data_of (answer k h (ReadAt mpage 0)))),
       wrong mpage want (mapped k (h @ [ReadAt mpage 0]))), h @ [ReadAt mpage 0])"
    by (simp add: subpage_def andThen_def obliging [OF assms(1)] clear_fields assms(2,4) d pr pure_go_def give_def
        h_def pre_def dg diff_at_mapped [OF len])
  then show ?thesis
    unfolding want_def [symmetric] by (intro exI [of _ h] exI [of _ ?cached]) (simp add: fa)
qed


text \<open>The same of \<^verbatim>\<open>zeropage\<close>, with the injected write and without.\<close>

theorem zeropage_counts_wrong_bytes:
  assumes "obliging k" and "answer k [] (ReadFile orig) = Data f" and "zeropage_size_ok (length f)"
    and "inject = [] \<or> str_fields inject \<noteq> []"
  shows "\<exists>h cached. zeropage k early path orig inject [] =
    (Inr (cached, wrong (length f) (file_after f h) (\<lambda>i. data_of (answer k h (ReadAt (length f) 0)) ! i),
       wrong (length f) (file_after f h) (mapped k (h @ [ReadAt (length f) 0]))), h @ [ReadAt (length f) 0])"
proof -
  have m: "mpage + 4 + 1 \<le> length f" "2 * mpage + 8 + 50 \<le> length f"
    using assms(3) by (auto simp: zeropage_size_ok_def)
  define mid where "mid = (if inject = [] then f else put_bytes (mpage + 4) (replicate 1 87) f)"
  have len1: "length mid = length f" using m by (simp add: mid_def)
  define want where "want = put_bytes (2 * mpage + 8) (replicate 50 0) mid"
  have pr1: "put_range (mpage + 4) (Suc 0) 87 f = Inr (put_bytes (mpage + 4) [87] f)"
    using put_range_bytes [OF m(1), of 87] by simp
  have pr2: "put_range (2 * mpage + 8) 50 0 mid = Inr want"
    unfolding want_def by (rule put_range_bytes) (use m(2) len1 in simp)
  have len: "length want = length f" using m len1 by (simp add: want_def)
  define pre where "pre = [ReadFile orig, OpenRW path False, Mmap (length f), MadviseRandom, Touch 0, Mincore 0]"
  define inj where "inj = (if inject = [] then [Willneed 0 0]
    else Command (str_fields inject) # (if early then [WriteAt [87] (mpage + 4), Willneed 0 0]
      else [Willneed 0 0, WriteAt [87] (mpage + 4)]) @ [Command (str_fields ''zinject -c all'')])"
  define h where "h = pre @ inj @ [PunchHole (2 * mpage + 8) 50]"
  have inj_run: "zeropage_inject k early inject f g = (Inr mid, g @ inj)" for g
    using assms(4)
    by (auto simp: zeropage_inject_def andThen_def obliging [OF assms(1)] clear_fields pr1 pure_go_def give_def
        inj_def mid_def)
  have "file_after f (pre @ inj) = mid"
    by (auto simp: pre_def inj_def mid_def file_after_def)
  moreover have "min 50 (length mid - (2 * mpage + 8)) = 50" using m(2) len1 by simp
  ultimately have fa: "file_after f h = want"
    using m(2) len1 by (simp add: h_def want_def put_bytes_def flip: append_assoc)
  have dg: "diff_at (length f) want (data_of (answer k g (ReadAt (length f) 0))) =
      Inr (wrong (length f) want ((!) (data_of (answer k g (ReadAt (length f) 0)))))" for g
    using assms(1) len by (intro diff_at_wrong) (simp_all add: obliging_def)
  have d: "data_of (Data f) = f" by (simp add: data_of_def)
  let ?cached = "answer k [ReadFile orig, OpenRW path False, Mmap (length f), MadviseRandom, Touch 0] (Mincore 0) = Flag True"
  have "zeropage k early path orig inject [] =
    (Inr (?cached, wrong (length f) want ((!) (data_of (answer k h (ReadAt (length f) 0)))),
       wrong (length f) want (mapped k (h @ [ReadAt (length f) 0]))), h @ [ReadAt (length f) 0])"
    by (simp add: zeropage_def andThen_def obliging [OF assms(1)] assms(2,3) d Let_def inj_run pr2 pure_go_def give_def
        h_def pre_def dg diff_at_mapped len)
  then show ?thesis using fa by blast
qed

text \<open>A kernel that keeps reads, the mapping and the file together.\<close>

definition coherent :: "kernel \<Rightarrow> u8 list \<Rightarrow> bool" where
  "coherent k f \<longleftrightarrow> obliging k \<and>
     (\<forall>h n. n \<le> length f \<longrightarrow> data_of (answer k h (ReadAt n 0)) = take n (file_after f h)) \<and>
     (\<forall>h i. i < length f \<longrightarrow> mapped k h i = file_after f h ! i)"

lemma coherent_wrong:
  assumes "coherent k f" and "n \<le> length f"
  shows "wrong n (file_after f h) (\<lambda>i. data_of (answer k h (ReadAt n 0)) ! i) = 0"
    and "wrong n (file_after f h) (mapped k (h @ [ReadAt n 0])) = 0"
proof -
  have d: "data_of (answer k h (ReadAt n 0)) = take n (file_after f h)"
    using assms by (simp add: coherent_def)
  show "wrong n (file_after f h) (\<lambda>i. data_of (answer k h (ReadAt n 0)) ! i) = 0"
    unfolding wrong_0_iff d by simp
  have "mapped k (h @ [ReadAt n 0]) i = file_after f h ! i" if "i < n" for i
    using assms that by (simp add: coherent_def)
  then show "wrong n (file_after f h) (mapped k (h @ [ReadAt n 0])) = 0"
    unfolding wrong_0_iff by simp
qed



text \<open>A coherent kernel: the file itself.\<close>

definition plain_kernel :: "u8 list \<Rightarrow> kernel" where
  "plain_kernel f =
     \<lparr>answer = \<lambda>h c. (case c of
        ReadFile _ \<Rightarrow> Data f
      | ReadAt n off \<Rightarrow>
          (let bs = take n (drop off (file_after f h)) in Data (bs @ replicate (n - length bs) 0))
      | _ \<Rightarrow> Done),
      mapped = \<lambda>h i. file_after f h ! i\<rparr>"

lemma length_put_bytes_ge: "length f \<le> length (put_bytes off bs f)"
  by (simp add: put_bytes_def)

lemma length_file_after: "length f \<le> length (file_after f h)"
proof (induction h rule: rev_induct)
  case (snoc c h)
  then show ?case using length_put_bytes_ge [of "file_after f h"] by (cases c) (auto intro: order_trans)
qed simp

lemma plain_kernel_coherent: "coherent (plain_kernel f) f"
  using length_file_after [of f]
  by (auto simp: coherent_def obliging_def plain_kernel_def data_of_def Let_def min_def split: sys_call.split)
    (metis le_antisym order_trans)



lemma filter_window:
  fixes a b n :: nat
  assumes "a \<le> b" and "b \<le> n"
  shows "filter (\<lambda>i. a \<le> i \<and> i < b \<and> P i) [0 ..< n] = filter P [a ..< b]"
proof -
  have "[0 ..< n] = [0 ..< a] @ [a ..< b] @ [b ..< n]"
    using assms upt_add_eq_append [of 0 a "n - a"] upt_add_eq_append [of a b "n - b"] by simp
  moreover have "filter (\<lambda>i. a \<le> i \<and> i < b \<and> P i) [a ..< b] = filter P [a ..< b]"
    by (intro filter_cong) auto
  ultimately show ?thesis by (simp add: filter_empty_conv)
qed

text \<open>
  A mapping that kept its old page is caught: the report then counts every byte of the write that
  the page did not hold already.
\<close>

theorem subpage_catches_stale_mapping:
  assumes "obliging k" and "answer k [] (ReadFile orig) = Data f" and "mpage \<le> length f"
    and "str_fields inject \<noteq> []" and "\<And>h i. mapped k h i = f ! i"
  shows "\<exists>pl cached a h. subpage k early path orig inject [] =
    (Inr (pl, cached, a, length (filter (\<lambda>i. f ! i \<noteq> 87) [1000 ..< 1512])), h)"
proof -
  let ?want = "put_bytes 1000 (replicate 512 87) f"
  have nth: "?want ! i = (if 1000 \<le> i \<and> i < 1512 then 87 else f ! i)" if "i < mpage" for i
    using that assms(3) by (auto simp: put_bytes_def nth_append mpage_def)
  have "filter (\<lambda>i. f ! i \<noteq> ?want ! i) [0 ..< mpage] = filter (\<lambda>i. 1000 \<le> i \<and> i < 1512 \<and> f ! i \<noteq> 87) [0 ..< mpage]"
    by (intro filter_cong refl) (auto simp: nth)
  also have "\<dots> = filter (\<lambda>i. f ! i \<noteq> 87) [1000 ..< 1512]"
    by (rule filter_window) (simp_all add: mpage_def)
  finally have "wrong mpage ?want ((!) f) = length (filter (\<lambda>i. f ! i \<noteq> 87) [1000 ..< 1512])"
    by (simp only: wrong_def)
  moreover have "mapped k h = (!) f" for h using assms(5) by (rule ext)
  ultimately show ?thesis
    using subpage_counts_wrong_bytes [OF assms(1-4), of early path] by metis
qed

section \<open>An injection that is left behind\<close>

text \<open>
  Between the injection and its clearing a failing call returns at once, and the delay stays in the
  pool. Here the readahead is refused.
\<close>

definition refusing_kernel :: "u8 list \<Rightarrow> kernel" where
  "refusing_kernel f =
     (plain_kernel f)\<lparr>answer := \<lambda>h c. (case c of Willneed _ _ \<Rightarrow> Failed ''EINVAL'' | _ \<Rightarrow> answer (plain_kernel f) h c)\<rparr>"

lemma inject_fields: "str_fields ''zinject -D 9'' = [''zinject'', ''-D'', ''9'']"
  by (simp add: str_fields.simps is_space_def)

theorem injection_left_behind:
  "\<exists>h. zeropage (refusing_kernel (replicate 9000 1)) True ''f'' ''o'' ''zinject -D 9'' [] = (Inl (Returns ''EINVAL''), h) \<and>
     Command [''zinject'', ''-D'', ''9''] \<in> set h \<and> Command (str_fields ''zinject -c all'') \<notin> set h"
  by (simp add: zeropage_def zeropage_inject_def around_def andThen_def call_def write_back_def run_cmd_def inject_fields
      resident_def give_def pure_go_def refusing_kernel_def plain_kernel_def data_of_def Let_def zeropage_size_ok_def
      mpage_def put_range_def str_fields.simps is_space_def)


section \<open>deadlock\<close>

text \<open>
  The file is filled with \<^verbatim>\<open>f\<close> in pieces of 1 MiB, synced and mapped; then the writers and readers
  take turns for ever, in any order, and the main goroutine watches their counters.
\<close>

definition fill_len :: nat where "fill_len = 1048576"

function fill_file :: "kernel \<Rightarrow> nat \<Rightarrow> unit run" where
  "fill_file k off =
     (if off < deadlock_size
      then andThen (call k (WriteAt (replicate fill_len 102) off)) (\<lambda>_. fill_file k (off + fill_len))
      else give ())"
  by pat_completeness auto
termination by (relation "measure (\<lambda>(k, off). deadlock_size - off)") (auto simp: fill_len_def)

declare fill_file.simps [simp del]

definition deadlock_setup :: "kernel \<Rightarrow> string \<Rightarrow> string \<Rightarrow> unit run" where
  "deadlock_setup k path result =
     andThen (call k (Create result)) (\<lambda>_.
     andThen (call k (OpenRW path True)) (\<lambda>_.
     andThen (fill_file k 0) (\<lambda>_.
     andThen (call k Sync) (\<lambda>_.
     andThen (call k (Mmap deadlock_size)) (\<lambda>_.
     andThen (call k MadviseRandom) (\<lambda>_. give ()))))))"

text \<open>One round of a writer, and of a reader, whose errors are dropped; \<open>r\<close> is the number drawn.\<close>

definition writer_round :: "kernel \<Rightarrow> nat \<Rightarrow> reply run" where
  "writer_round k r = write_back k (replicate deadlock_write 119) (draw_offset r)"

definition ignored :: "sys_call \<Rightarrow> unit run" where
  "ignored c h = (Inr (), h @ [c])"

definition reader_round :: "kernel \<Rightarrow> nat \<Rightarrow> unit run" where
  "reader_round k r =
     (let off = draw_offset r
      in andThen (ignored (MadviseDontneed off deadlock_span)) (\<lambda>_.
         andThen (ignored (FadviseDontneed off deadlock_span)) (\<lambda>_.
         andThen (ignored (Touch off)) (\<lambda>_. ignored (Willneed off deadlock_span)))))"

datatype turn = WriterTurn nat | ReaderTurn nat

definition turn_drawn :: "turn \<Rightarrow> bool" where
  "turn_drawn t = (case t of WriterTurn r \<Rightarrow> r < write_pages | ReaderTurn r \<Rightarrow> r < span_pages)"

fun turns :: "kernel \<Rightarrow> turn list \<Rightarrow> unit run" where
  "turns k [] = give ()"
| "turns k (WriterTurn r # ts) = andThen (writer_round k r) (\<lambda>_. turns k ts)"
| "turns k (ReaderTurn r # ts) = andThen (reader_round k r) (\<lambda>_. turns k ts)"

text \<open>The file of the stall check: 64 MiB, every byte filled or rewritten.\<close>

definition churned :: "u8 list \<Rightarrow> bool" where
  "churned f \<longleftrightarrow> length f = deadlock_size \<and> set f \<subseteq> {102, 119}"

lemma fill_file_content:
  assumes "obliging k" and "off + n * fill_len = deadlock_size"
  shows "\<exists>h'. fill_file k off h = (Inr (), h') \<and>
    (length (file_after f h) = off \<longrightarrow> file_after f h' = file_after f h @ replicate (n * fill_len) 102)"
  using assms(2)
proof (induction n arbitrary: off h)
  case 0
  then show ?case by (subst fill_file.simps) (simp add: give_def)
next
  case (Suc n)
  let ?h = "h @ [WriteAt (replicate fill_len 102) off]"
  have "off + fill_len + n * fill_len = deadlock_size" using Suc.prems by simp
  from Suc.IH [OF this, of ?h] obtain h' where h': "fill_file k (off + fill_len) ?h = (Inr (), h')"
    "length (file_after f ?h) = off + fill_len \<longrightarrow>
      file_after f h' = file_after f ?h @ replicate (n * fill_len) 102" by blast
  have "off < deadlock_size" using Suc.prems by (simp add: fill_len_def)
  then have "fill_file k off h = (Inr (), h')"
    using h'(1) by (subst fill_file.simps) (simp add: andThen_def call_obliging [OF assms(1)])
  moreover have "file_after f ?h = file_after f h @ replicate fill_len 102" if "length (file_after f h) = off"
    using that by (simp add: put_bytes_def)
  ultimately show ?case using h'(2) by (auto simp: replicate_add)
qed

lemma churned_put:
  assumes "churned f" and "off + length bs \<le> deadlock_size" and "set bs \<subseteq> {102, 119}"
  shows "churned (put_bytes off bs f)"
proof -
  have "set (put_bytes off bs f) \<subseteq> set f \<union> set bs"
    using assms(1,2) by (auto simp: put_bytes_def churned_def dest: in_set_takeD in_set_dropD)
  moreover have "length (put_bytes off bs f) = length f" using assms(1,2) by (simp add: churned_def)
  ultimately show ?thesis using assms(1,3) unfolding churned_def by auto
qed

lemma turns_churn:
  assumes "obliging k" and "list_all turn_drawn ts" and "churned (file_after f h)"
  shows "\<exists>h'. turns k ts h = (Inr (), h') \<and> churned (file_after f h')"
  using assms(2,3)
proof (induction ts arbitrary: h)
  case (Cons t ts)
  show ?case
  proof (cases t)
    case (WriterTurn r)
    let ?c = "WriteAt (replicate deadlock_write 119) (draw_offset r)"
    have "r < write_pages" using Cons.prems(1) WriterTurn by (simp add: turn_drawn_def)
    then have "draw_offset r + deadlock_write \<le> deadlock_size" using drawn_ranges_inside by blast
    then have "churned (file_after f (h @ [?c]))"
      using Cons.prems(2) by (auto intro!: churned_put)
    then show ?thesis
      using Cons.IH [of "h @ [?c]"] Cons.prems(1)
      by (simp add: WriterTurn andThen_def writer_round_def write_back_obliging [OF assms(1)])
  next
    case (ReaderTurn r)
    then show ?thesis
      using Cons.IH Cons.prems by (simp add: andThen_def reader_round_def ignored_def Let_def file_after_def)
  qed
qed (simp add: give_def)

text \<open>
  The load of the stall check keeps its file in shape: from an empty file the set-up fills 64 MiB
  in 64 writes, and after any sequence of rounds of the writers and readers, with any offsets
  they may draw, the file still has 64 MiB, all of it bytes of the filling or of a writer.
\<close>

theorem deadlock_keeps_file:
  assumes "obliging k" and "list_all turn_drawn ts"
  shows "\<exists>h h'. deadlock_setup k path result [] = (Inr (), h) \<and>
    file_after [] h = replicate deadlock_size 102 \<and>
    turns k ts h = (Inr (), h') \<and> churned (file_after [] h')"
proof -
  have "0 + 64 * fill_len = deadlock_size" by (simp add: fill_len_def deadlock_size_def)
  from fill_file_content [OF assms(1) this, of "[Create result, OpenRW path True]" "[]"]
  obtain h0 where h0: "fill_file k 0 [Create result, OpenRW path True] = (Inr (), h0)"
    "file_after [] h0 = replicate (64 * fill_len) 102" by (auto simp: file_after_def)
  let ?h = "h0 @ [Sync, Mmap deadlock_size, MadviseRandom]"
  have h: "deadlock_setup k path result [] = (Inr (), ?h)"
    using h0(1) by (simp add: deadlock_setup_def andThen_def call_obliging [OF assms(1)] give_def)
  have c: "file_after [] ?h = replicate deadlock_size 102"
    using h0(2) by (simp add: file_after_def fill_len_def deadlock_size_def)
  then have "churned (file_after [] ?h)" by (auto simp: churned_def)
  from turns_churn [OF assms this] show ?thesis using h c by blast
qed

lemma deadlock_keeps_file_witness:
  "\<exists>h h'. deadlock_setup (plain_kernel []) ''f'' ''r'' [] = (Inr (), h) \<and>
    turns (plain_kernel []) [WriterTurn 16367, ReaderTurn 0] h = (Inr (), h') \<and> churned (file_after [] h')"
proof -
  have "obliging (plain_kernel [])" using plain_kernel_coherent by (simp add: coherent_def)
  moreover have "list_all turn_drawn [WriterTurn 16367, ReaderTurn 0]"
    by (simp add: turn_drawn_def write_pages_def span_pages_def deadlock_size_def deadlock_write_def deadlock_span_def mpage_def)
  ultimately show ?thesis using deadlock_keeps_file by blast
qed


end
