(* ===== verification/Stalls.thy ===== *)
theory Stalls
  imports Pagecheck
begin

text \<open>
  \<^verbatim>\<open>packages/mmapcheck/main.go\<close> as a whole: a run of \<^verbatim>\<open>deadlock\<close> with the rounds its writers and readers
  get done in every second, and \<^verbatim>\<open>main\<close> from the arguments to the exit status.
\<close>

section \<open>A run of the stall check\<close>

text \<open>
  The load of a run is the list of its seconds, each with the rounds that were completed in it,
  in any order; a sample is taken at the end of every second.
\<close>

fun count_turn :: "turn \<Rightarrow> u64 \<times> u64 \<Rightarrow> u64 \<times> u64" where
  "count_turn (WriterTurn r) c = (fst c + 1, snd c)"
| "count_turn (ReaderTurn r) c = (fst c, snd c + 1)"

fun samples_from :: "u64 \<times> u64 \<Rightarrow> turn list list \<Rightarrow> (u64 \<times> u64) list" where
  "samples_from c [] = []"
| "samples_from c (s # ss) = (let c' = fold count_turn s c in c' # samples_from c' ss)"

text \<open>
  A stalled run stays in \<^verbatim>\<open>select\<close> for ever; the value is the second it got there. A writer that fails
  takes the process with it, at whatever second that is.
\<close>

definition deadlock :: "kernel \<Rightarrow> string \<Rightarrow> string \<Rightarrow> int \<Rightarrow> turn list list \<Rightarrow> nat option run" where
  "deadlock k path result stall secs =
     andThen (deadlock_setup k path result) (\<lambda>_.
     case watch stall 1 0 (0, 0) (samples_from (0, 0) secs) of
       Some t \<Rightarrow> andThen (turns k (concat (take t secs))) (\<lambda>_. give (Some t))
     | None \<Rightarrow> andThen (turns k (concat secs)) (\<lambda>_. give None))"

text \<open>\<^verbatim>\<open>main\<close>: the exit status, or nothing for a run that never ends.\<close>

fun status_of :: "halt + 'a \<Rightarrow> int" where
  "status_of (Inl (Returns e)) = 1"
| "status_of (Inl (Exits e)) = 1"
| "status_of (Inl (Panics e)) = 2"
| "status_of (Inr x) = 0"

definition mmapcheck_main ::
  "kernel \<Rightarrow> bool \<Rightarrow> int \<Rightarrow> string \<Rightarrow> string \<Rightarrow> string \<Rightarrow> turn list list \<Rightarrow>
   (u8 list \<Rightarrow> string) \<Rightarrow> (string \<Rightarrow> u8 list option) \<Rightarrow> (string \<Rightarrow> nat) \<Rightarrow> string list \<Rightarrow> int option" where
  "mmapcheck_main k early stall result orig inject secs sha fs faults args =
     (case check_dispatch args orig inject of
        Deadlock path \<Rightarrow>
          (case fst (deadlock k path result stall secs []) of
             Inr (Some t) \<Rightarrow> None
           | r \<Rightarrow> Some (status_of r))
      | SumOf paths \<Rightarrow> Some (if snd (sum_files sha fs faults paths) = None then 0 else 1)
      | SubPage path \<Rightarrow> Some (status_of (fst (subpage k early path orig inject [])))
      | ZeroPage path \<Rightarrow> Some (status_of (fst (zeropage k early path orig inject [])))
      | Usage \<Rightarrow> Some 2)"

section \<open>Quiet counters and idle seconds\<close>

definition idle :: "turn list list \<Rightarrow> nat \<Rightarrow> nat \<Rightarrow> bool" where
  "idle secs t n \<longleftrightarrow> n \<le> t \<and> (\<forall>i. t - n \<le> i \<and> i < t \<longrightarrow> secs ! i = [])"

lemma fold_count_turn:
  "fold count_turn ts c =
   (fst c + of_nat (length (filter (\<lambda>t. \<exists>r. t = WriterTurn r) ts)),
    snd c + of_nat (length (filter (\<lambda>t. \<exists>r. t = ReaderTurn r) ts)))"
proof (induction ts arbitrary: c)
  case (Cons t ts)
  then show ?case by (cases t) (simp_all add: algebra_simps)
qed simp

lemma turn_kinds:
  "length (filter (\<lambda>t. \<exists>r. t = WriterTurn r) ts) + length (filter (\<lambda>t. \<exists>r. t = ReaderTurn r) ts) = length ts"
proof (induction ts)
  case (Cons t ts)
  then show ?case by (cases t) simp_all
qed simp

lemma of_nat_word_zero: "n < 2 ^ 64 \<Longrightarrow> (of_nat n :: u64) = 0 \<longleftrightarrow> n = 0"
  by (simp add: word_of_nat_eq_0_iff) (metis dvd_imp_le gr0I linorder_not_le dvd_0_right)

lemma count_still:
  assumes "length ts < 2 ^ 64"
  shows "fold count_turn ts c = c \<longleftrightarrow> ts = []"
proof
  let ?w = "length (filter (\<lambda>t. \<exists>r. t = WriterTurn r) ts)" and ?r = "length (filter (\<lambda>t. \<exists>r. t = ReaderTurn r) ts)"
  have lt: "?w < 2 ^ 64" "?r < 2 ^ 64" using turn_kinds [of ts] assms by linarith+
  assume "fold count_turn ts c = c"
  then have "(of_nat ?w :: u64) = 0" "(of_nat ?r :: u64) = 0"
    by (simp_all add: fold_count_turn prod_eq_iff)
  then have "?w = 0" "?r = 0" using of_nat_word_zero lt by blast+
  then show "ts = []" using turn_kinds [of ts] by simp
qed simp

lemma length_samples [simp]: "length (samples_from c secs) = length secs"
  by (induction secs arbitrary: c) (simp_all add: Let_def)

lemma samples_step:
  "i < length secs \<Longrightarrow> (c # samples_from c secs) ! Suc i = fold count_turn (secs ! i) ((c # samples_from c secs) ! i)"
proof (induction secs arbitrary: c i)
  case (Cons s secs)
  then show ?case by (cases i) (simp_all add: Let_def)
qed simp

lemma quiet_idle:
  assumes "list_all (\<lambda>s. length s < 2 ^ 64) secs" and "t \<le> length secs"
  shows "quiet ((0, 0) # samples_from (0, 0) secs) t n \<longleftrightarrow> idle secs t n"
proof -
  let ?ss = "(0, 0) # samples_from (0, 0) secs"
  have "?ss ! i = ?ss ! (i + 1) \<longleftrightarrow> secs ! i = []" if "i < t" for i
  proof -
    have "i < length secs" "length (secs ! i) < 2 ^ 64" using that assms by (auto simp: list_all_length)
    then show ?thesis
      using samples_step [of i secs "(0, 0)"] count_still [of "secs ! i" "?ss ! i"] by (metis Suc_eq_plus1)
  qed
  then show ?thesis by (auto simp: quiet_def idle_def)
qed

section \<open>Properties\<close>

lemma deadlock_setup_churned:
  assumes "obliging k"
  shows "\<exists>h. deadlock_setup k path result [] = (Inr (), h) \<and> churned (file_after [] h)"
proof -
  obtain h where "deadlock_setup k path result [] = (Inr (), h)" "file_after [] h = replicate deadlock_size 102"
    using deadlock_keeps_file [OF assms, of "[]"] by auto
  then show ?thesis by (auto simp: churned_def)
qed



end
