(* ===== verification/Slabwho.thy ===== *)
theory Slabwho
  imports Stats
begin

text \<open>
  The walk of the kernel module, \<^verbatim>\<open>walk_memory\<close> of \<^verbatim>\<open>packages/slabwho/slabwho.c\<close>: which slab caches hold
  pages in which pageblocks, block by block through the zones of every node. What the kernel says
  of a page frame, of the zones and of a cache is an argument, and so is its sort. A pointer into
  the table of caches is the cache it is the row of, since the table has one row per cache.
\<close>

section \<open>Page frames\<close>

text \<open>\<open>slabOf\<close> is the result of \<^verbatim>\<open>page_cache_of\<close>; the others are the page flags and the reference count.\<close>

record page_state =
  slabOf :: "nat option"
  isBuddy :: bool
  noRefs :: bool
  isCompound :: bool
  onLRU :: bool

record frames =
  validAt :: "nat \<Rightarrow> bool"
  pageAt :: "nat \<Rightarrow> page_state"
  subPages :: nat
  perBlock :: nat

text \<open>\<^verbatim>\<open>struct cache_stat\<close>, and \<^verbatim>\<open>stat_for\<close>, which finds or makes the row of a cache while there is room.\<close>

record cache_stat =
  csCache :: nat
  csName :: string
  csPages :: nat
  csHostagePages :: nat
  csBlocks :: nat
  csHostageBlocks :: nat
  csSolo :: nat
  csMobile :: bool

definition max_caches :: nat where "max_caches = 512"
definition max_hostage :: nat where "max_hostage = 131072"
definition seen_max :: nat where "seen_max = 64"

definition new_stat :: "nat \<Rightarrow> cache_stat" where
  "new_stat c = \<lparr>csCache = c, csName = [], csPages = 0, csHostagePages = 0, csBlocks = 0, csHostageBlocks = 0,
     csSolo = 0, csMobile = False\<rparr>"

definition stat_for :: "nat \<Rightarrow> cache_stat list \<Rightarrow> cache_stat list option" where
  "stat_for c ss =
     (if c \<in> csCache ` set ss then Some ss
      else if length ss = max_caches then None else Some (ss @ [new_stat c]))"

definition with_stat :: "nat \<Rightarrow> (cache_stat \<Rightarrow> cache_stat) \<Rightarrow> cache_stat list \<Rightarrow> cache_stat list" where
  "with_stat c g ss = map (\<lambda>s. if csCache s = c then g s else s) ss"

section \<open>One block\<close>

record block_scan =
  bsUsed :: nat
  bsFree :: nat
  bsNonslab :: nat
  bsValid :: bool
  bsOk :: bool
  bsSeen :: "(nat \<times> nat) list"
  bsStats :: "cache_stat list"

definition block_start_scan :: "cache_stat list \<Rightarrow> block_scan" where
  "block_start_scan ss = \<lparr>bsUsed = 0, bsFree = 0, bsNonslab = 0, bsValid = False, bsOk = False, bsSeen = [], bsStats = ss\<rparr>"

definition note_cache :: "nat \<Rightarrow> block_scan \<Rightarrow> block_scan" where
  "note_cache c s =
     (if c \<in> fst ` set (bsSeen s)
      then s\<lparr>bsSeen := map (\<lambda>(k, n). if k = c then (k, n + 1) else (k, n)) (bsSeen s)\<rparr>
      else if length (bsSeen s) = seen_max then s
      else (case stat_for c (bsStats s) of
              None \<Rightarrow> s
            | Some ss \<Rightarrow> s\<lparr>bsStats := ss, bsSeen := bsSeen s @ [(c, 1)]\<rparr>))"

definition scan_frame :: "frames \<Rightarrow> nat \<Rightarrow> block_scan \<Rightarrow> block_scan" where
  "scan_frame F pfn s =
     (let ok = (if pfn mod subPages F = 0 then validAt F pfn else bsOk s); p = pageAt F pfn;
          s1 = s\<lparr>bsOk := ok, bsValid := bsValid s \<or> ok\<rparr>
      in if \<not> ok then s1
         else (case slabOf p of
                 None \<Rightarrow>
                   (if isBuddy p \<or> noRefs p \<and> \<not> isCompound p then s1\<lparr>bsFree := bsFree s + 1\<rparr>
                    else s1\<lparr>bsUsed := bsUsed s + 1, bsNonslab := (if onLRU p then bsNonslab s else bsNonslab s + 1)\<rparr>)
               | Some c \<Rightarrow> note_cache c (s1\<lparr>bsUsed := bsUsed s + 1\<rparr>)))"

definition scan_frames :: "frames \<Rightarrow> nat \<Rightarrow> cache_stat list \<Rightarrow> block_scan" where
  "scan_frames F start ss = fold (scan_frame F) [start ..< start + perBlock F] (block_start_scan ss)"

section \<open>The walk\<close>

record walk =
  wStats :: "cache_stat list"
  wHostagePfns :: "nat list"
  wTotal :: nat
  wHostage :: nat
  wFree :: nat
  wBy1 :: nat
  wBy2 :: nat
  wBy3 :: nat
  wNonslab :: nat
  wAllMobile :: nat

definition walk_start :: walk where
  "walk_start = \<lparr>wStats = [], wHostagePfns = [], wTotal = 0, wHostage = 0, wFree = 0, wBy1 = 0, wBy2 = 0, wBy3 = 0,
     wNonslab = 0, wAllMobile = 0\<rparr>"

text \<open>
  \<^verbatim>\<open>describe\<close> names a cache once; \<open>cname\<close> is the string behind its name pointer where it can be read,
  \<open>cmobile\<close> whether it has a function to move its objects. The loop after it books the pages of the block.
\<close>

definition name_max :: nat where "name_max = 40"

definition shown_name :: "string option \<Rightarrow> string" where
  "shown_name nm = (case nm of None \<Rightarrow> ''?'' | Some t \<Rightarrow> if t = [] then ''?'' else take (name_max - 1) t)"

definition describe :: "(nat \<Rightarrow> string option) \<Rightarrow> (nat \<Rightarrow> bool) \<Rightarrow> cache_stat \<Rightarrow> cache_stat" where
  "describe cname cmobile st =
     (if csName st \<noteq> [] then st
      else st\<lparr>csName := shown_name (cname (csCache st)), csMobile := cmobile (csCache st)\<rparr>)"

definition book_pages :: "(nat \<Rightarrow> string option) \<Rightarrow> (nat \<Rightarrow> bool) \<Rightarrow> nat \<times> nat \<Rightarrow> cache_stat list \<Rightarrow> cache_stat list" where
  "book_pages cname cmobile cn ss =
     with_stat (fst cn) (\<lambda>st. let st' = describe cname cmobile st
       in st'\<lparr>csPages := csPages st' + snd cn, csBlocks := csBlocks st' + 1\<rparr>) ss"

definition book_hostage :: "nat \<times> nat \<Rightarrow> cache_stat list \<Rightarrow> cache_stat list" where
  "book_hostage cn ss =
     with_stat (fst cn) (\<lambda>st. st\<lparr>csHostagePages := csHostagePages st + snd cn, csHostageBlocks := csHostageBlocks st + 1\<rparr>) ss"

definition book_solo :: "block_scan \<Rightarrow> cache_stat list \<Rightarrow> cache_stat list" where
  "book_solo b ss =
     (if length (bsSeen b) = 1 \<and> bsNonslab b = 0
      then with_stat (fst (hd (bsSeen b))) (\<lambda>st. st\<lparr>csSolo := csSolo st + 1\<rparr>) ss else ss)"

definition hostage_block :: "nat \<Rightarrow> block_scan \<Rightarrow> bool" where
  "hostage_block limit b \<longleftrightarrow> bsUsed b \<noteq> 0 \<and> bsUsed b \<le> limit"

definition all_mobile :: "block_scan \<Rightarrow> cache_stat list \<Rightarrow> bool" where
  "all_mobile b ss \<longleftrightarrow> list_all (\<lambda>cn. list_all (\<lambda>st. csCache st = fst cn \<longrightarrow> csMobile st) ss) (bsSeen b)"

definition book_block ::
  "(nat \<Rightarrow> string option) \<Rightarrow> (nat \<Rightarrow> bool) \<Rightarrow> nat \<Rightarrow> bool \<Rightarrow> nat \<Rightarrow> block_scan \<Rightarrow> walk \<Rightarrow> walk" where
  "book_block cname cmobile limit keep start b w =
     (if \<not> bsValid b then w\<lparr>wStats := bsStats b\<rparr>
      else
        (let ss = fold (book_pages cname cmobile) (bsSeen b) (bsStats b); n = length (bsSeen b); other = bsNonslab b \<noteq> 0;
             w1 = w\<lparr>wStats := ss, wTotal := wTotal w + 1\<rparr>
         in if \<not> hostage_block limit b then w1
            else w1\<lparr>wStats := book_solo b (fold book_hostage (bsSeen b) ss),
                   wHostage := wHostage w + 1, wFree := wFree w + bsFree b,
                   wHostagePfns := (if keep \<and> length (wHostagePfns w) < max_hostage
                                    then wHostagePfns w @ [start] else wHostagePfns w),
                   wNonslab := (if other then wNonslab w + 1 else wNonslab w),
                   wAllMobile := (if \<not> other \<and> all_mobile b ss then wAllMobile w + 1 else wAllMobile w),
                   wBy3 := (if other \<or> n > 2 then wBy3 w + 1 else wBy3 w),
                   wBy2 := (if \<not> other \<and> n = 2 then wBy2 w + 1 else wBy2 w),
                   wBy1 := (if \<not> other \<and> n < 2 then wBy1 w + 1 else wBy1 w)\<rparr>))"

text \<open>
  The blocks of a node: every populated zone from the boundary below its start, but not before
  where the zone in front of it has ended.
\<close>

definition zone_blocks :: "nat \<Rightarrow> nat \<Rightarrow> nat \<times> nat \<Rightarrow> nat list" where
  "zone_blocks n behind z =
     (let b = max (fst z div n * n) behind in map (\<lambda>i. b + i * n) [0 ..< (snd z - b + n - 1) div n])"

fun node_blocks :: "nat \<Rightarrow> nat \<Rightarrow> (nat \<times> nat) list \<Rightarrow> nat list" where
  "node_blocks n behind [] = []"
| "node_blocks n behind (z # zs) =
     (let b = max (fst z div n * n) behind; bs = zone_blocks n behind z
      in bs @ node_blocks n (b + length bs * n) zs)"

definition walk_block ::
  "(nat \<Rightarrow> string option) \<Rightarrow> (nat \<Rightarrow> bool) \<Rightarrow> nat \<Rightarrow> bool \<Rightarrow> frames \<Rightarrow> nat \<Rightarrow> walk \<Rightarrow> walk" where
  "walk_block cname cmobile limit keep F start w =
     book_block cname cmobile limit keep start (scan_frames F start (wStats w)) w"

definition walk_blocks :: "frames \<Rightarrow> (nat \<times> nat) list list \<Rightarrow> nat list" where
  "walk_blocks F nodes = concat (map (node_blocks (perBlock F) 0) nodes)"

definition walk_memory ::
  "(cache_stat list \<Rightarrow> cache_stat list) \<Rightarrow> (nat \<Rightarrow> string option) \<Rightarrow> (nat \<Rightarrow> bool) \<Rightarrow> nat \<Rightarrow> bool \<Rightarrow> frames \<Rightarrow>
   (nat \<times> nat) list list \<Rightarrow> walk" where
  "walk_memory srt cname cmobile limit keep F nodes =
     (let w = fold (walk_block cname cmobile limit keep F) (walk_blocks F nodes) walk_start
      in w\<lparr>wStats := srt (wStats w)\<rparr>)"

text \<open>The file \<^verbatim>\<open>/proc/slabwho\<close> of a walk.\<close>

definition who_row :: "cache_stat \<Rightarrow> who_stat" where
  "who_row st = \<lparr>wblocks = of_nat (csBlocks st), whostageBlocks = of_nat (csHostageBlocks st), wpages = of_nat (csPages st),
     whostagePages = of_nat (csHostagePages st), mobile = csMobile st\<rparr>"

definition stat_row :: "cache_stat \<Rightarrow> string \<times> who_stat \<times> nat" where
  "stat_row st = (if csName st = [] then ''?'' else csName st, who_row st, csSolo st)"

definition walk_totals :: "nat \<Rightarrow> walk \<Rightarrow> who_totals" where
  "walk_totals us w = \<lparr>tot_blocks = of_nat (wTotal w), tot_hostageBlocks = of_nat (wHostage w),
     tot_hostageFreePages = of_nat (wFree w), tot_walkUS = of_nat us\<rparr>"

definition slabwho_file :: "nat \<Rightarrow> nat \<Rightarrow> nat \<Rightarrow> walk \<Rightarrow> string list" where
  "slabwho_file us limit age w =
     show_totals (walk_totals us w) limit age #
     show_pinned (wBy1 w) (wBy2 w) (wBy3 w) (wNonslab w) (wAllMobile w) #
     map (\<lambda>st. show_cache (stat_row st)) (wStats w)"

section \<open>What the walk counts\<close>

text \<open>
  The reference: the slab pages of a cache, the used, the free and the other pages of a block, told
  from the state of every page frame of it alone.
\<close>

definition block_pfns :: "frames \<Rightarrow> nat \<Rightarrow> nat list" where
  "block_pfns F b = [b ..< b + perBlock F]"

definition caches_in :: "frames \<Rightarrow> nat list \<Rightarrow> nat list" where
  "caches_in F ps = concat (map (\<lambda>p. if validAt F p then (case slabOf (pageAt F p) of None \<Rightarrow> [] | Some c \<Rightarrow> [c]) else []) ps)"

definition looks_free :: "page_state \<Rightarrow> bool" where
  "looks_free p \<longleftrightarrow> slabOf p = None \<and> (isBuddy p \<or> noRefs p \<and> \<not> isCompound p)"

definition free_at :: "frames \<Rightarrow> nat \<Rightarrow> bool" where
  "free_at F p \<longleftrightarrow> validAt F p \<and> looks_free (pageAt F p)"

definition used_at :: "frames \<Rightarrow> nat \<Rightarrow> bool" where
  "used_at F p \<longleftrightarrow> validAt F p \<and> \<not> looks_free (pageAt F p)"

definition other_at :: "frames \<Rightarrow> nat \<Rightarrow> bool" where
  "other_at F p \<longleftrightarrow> used_at F p \<and> slabOf (pageAt F p) = None \<and> \<not> onLRU (pageAt F p)"

definition how_many :: "(nat \<Rightarrow> bool) \<Rightarrow> nat list \<Rightarrow> nat" where
  "how_many P ps = length (filter P ps)"

text \<open>\<^verbatim>\<open>pfn_valid\<close> answers the same for all pages of a subsection, and a block is made of whole ones.\<close>

definition whole_subsections :: "frames \<Rightarrow> bool" where
  "whole_subsections F \<longleftrightarrow> 0 < subPages F \<and> 0 < perBlock F \<and> subPages F dvd perBlock F \<and>
     (\<forall>p. validAt F p = validAt F (p div subPages F * subPages F))"

lemma caches_in_simps [simp]:
  "caches_in F [] = []"
  "caches_in F (ps @ [p]) = caches_in F ps @ (if validAt F p then (case slabOf (pageAt F p) of None \<Rightarrow> [] | Some c \<Rightarrow> [c]) else [])"
  by (simp_all add: caches_in_def)

lemma how_many_simps [simp]: "how_many P [] = 0" "how_many P (ps @ [p]) = (if P p then how_many P ps + 1 else how_many P ps)"
  by (simp_all add: how_many_def)

lemma validAt_before:
  assumes "whole_subsections F" "Suc p mod subPages F \<noteq> 0"
  shows "validAt F (Suc p) = validAt F p"
proof -
  have "Suc p div subPages F = p div subPages F"
    using assms(2) by (simp add: div_Suc)
  then show ?thesis
    using assms(1) unfolding whole_subsections_def by metis
qed

text \<open>The rows of a block: one per cache of it, with the number of its pages.\<close>

definition noted :: "nat list \<Rightarrow> cache_stat list \<Rightarrow> block_scan \<Rightarrow> bool" where
  "noted cs ss s \<longleftrightarrow> distinct (map fst (bsSeen s)) \<and> set (bsSeen s) = (\<lambda>c. (c, count_list cs c)) ` set cs \<and>
     distinct (map csCache (bsStats s)) \<and> csCache ` set (bsStats s) = csCache ` set ss \<union> set cs \<and>
     (\<exists>D. bsStats s = ss @ map new_stat D)"

lemma noted_start: "distinct (map csCache ss) \<Longrightarrow> noted [] ss (block_start_scan ss)"
  by (simp add: noted_def block_start_scan_def)

lemma noted_seen: "noted cs ss s \<Longrightarrow> fst ` set (bsSeen s) = set cs"
  by (simp add: noted_def image_image)

lemma noted_length: "noted cs ss s \<Longrightarrow> length (bsSeen s) = card (set cs)"
  by (metis noted_def noted_seen distinct_card length_map list.set_map)

lemma noted_stats_length: "noted cs ss s \<Longrightarrow> length (bsStats s) = card (csCache ` set ss \<union> set cs)"
  unfolding noted_def by (metis distinct_card length_map list.set_map)

lemma noted_map_of: "noted cs ss s \<Longrightarrow> map_of (bsSeen s) c = (if c \<in> set cs then Some (count_list cs c) else None)"
  by (auto simp: noted_def map_of_eq_None_iff noted_seen image_iff intro: map_of_is_SomeI)

lemma csCache_new_stat [simp]: "csCache (new_stat c) = c"
  by (simp add: new_stat_def)

lemma stat_for_room:
  assumes "distinct (map csCache ss)" "card (insert c (csCache ` set ss)) \<le> max_caches"
  shows "stat_for c ss = Some (if c \<in> csCache ` set ss then ss else ss @ [new_stat c])"
proof -
  have "length ss = card (csCache ` set ss)"
    using assms(1) by (metis distinct_card length_map list.set_map)
  then show ?thesis
    using assms(2) by (auto simp: stat_for_def card_insert_if split: if_splits)
qed

lemma note_cache_noted:
  assumes n: "noted cs ss s" and few: "card (insert c (set cs)) \<le> seen_max"
    and room: "card (insert c (csCache ` set ss \<union> set cs)) \<le> max_caches"
  shows "noted (cs @ [c]) ss (note_cache c s)"
proof (cases "c \<in> set cs")
  case True
  then have "c \<in> fst ` set (bsSeen s)"
    using noted_seen [OF n] by simp
  moreover have "fst \<circ> (\<lambda>(k, n). if k = c then (k, n + 1) else (k, n)) = (fst :: nat \<times> nat \<Rightarrow> nat)"
    by (auto simp: fun_eq_iff)
  ultimately show ?thesis
    using n True by (auto simp: noted_def note_cache_def image_image insert_absorb intro!: image_cong)
next
  case False
  then have new: "c \<notin> fst ` set (bsSeen s)" "length (bsSeen s) \<noteq> seen_max"
    using noted_seen [OF n] noted_length [OF n] few by auto
  have st: "stat_for c (bsStats s) = Some (if c \<in> csCache ` set (bsStats s) then bsStats s else bsStats s @ [new_stat c])"
    using n room by (intro stat_for_room) (auto simp: noted_def)
  obtain D where D: "bsStats s = ss @ map new_stat D"
    using n by (auto simp: noted_def)
  have ex: "\<exists>D'. (if c \<in> csCache ` set (bsStats s) then bsStats s else bsStats s @ [new_stat c]) = ss @ map new_stat D'"
    using D by (metis append_assoc list.simps(8,9) map_append)
  have zero: "count_list cs c = 0"
    using False by (simp add: count_list_0_iff)
  have seen: "set (bsSeen s @ [(c, 1)]) = (\<lambda>k. (k, count_list (cs @ [c]) k)) ` set (cs @ [c])"
    using n False zero by (auto simp: noted_def)
  show ?thesis
    using n new st seen ex unfolding note_cache_def noted_def by auto
qed

text \<open>One page frame at a time, the scan has counted the frames it has seen.\<close>

definition scanned :: "frames \<Rightarrow> cache_stat list \<Rightarrow> nat list \<Rightarrow> block_scan \<Rightarrow> bool" where
  "scanned F ss ps s \<longleftrightarrow> noted (caches_in F ps) ss s \<and> bsUsed s = how_many (used_at F) ps \<and> bsFree s = how_many (free_at F) ps \<and>
     bsNonslab s = how_many (other_at F) ps \<and> bsValid s = list_ex (validAt F) ps"

lemma note_cache_counts [simp]:
  "bsUsed (note_cache c s) = bsUsed s" "bsFree (note_cache c s) = bsFree s" "bsNonslab (note_cache c s) = bsNonslab s"
  "bsValid (note_cache c s) = bsValid s" "bsOk (note_cache c s) = bsOk s"
  by (simp_all add: note_cache_def split: option.split)

lemma noted_counts [simp]:
  "noted cs ss (s\<lparr>bsUsed := n\<rparr>) = noted cs ss s" "noted cs ss (s\<lparr>bsFree := n\<rparr>) = noted cs ss s"
  "noted cs ss (s\<lparr>bsNonslab := n\<rparr>) = noted cs ss s" "noted cs ss (s\<lparr>bsValid := v\<rparr>) = noted cs ss s"
  "noted cs ss (s\<lparr>bsOk := v\<rparr>) = noted cs ss s"
  by (simp_all add: noted_def)

lemma scan_frame_scanned:
  assumes s: "scanned F ss ps s" and ok: "p mod subPages F = 0 \<or> bsOk s = validAt F p"
    and few: "card (set (caches_in F (ps @ [p]))) \<le> seen_max"
    and room: "card (csCache ` set ss \<union> set (caches_in F (ps @ [p]))) \<le> max_caches"
  shows "scanned F ss (ps @ [p]) (scan_frame F p s) \<and> bsOk (scan_frame F p s) = validAt F p"
proof -
  have ok': "(if p mod subPages F = 0 then validAt F p else bsOk s) = validAt F p"
    using ok by auto
  show ?thesis
  proof (cases "validAt F p \<and> slabOf (pageAt F p) \<noteq> None")
    case False
    then show ?thesis
      using s unfolding scan_frame_def ok' Let_def
      by (auto simp: scanned_def used_at_def free_at_def other_at_def looks_free_def split: option.splits)
  next
    case True
    then obtain c where c: "validAt F p" "slabOf (pageAt F p) = Some c"
      by auto
    have "noted (caches_in F ps @ [c]) ss (note_cache c (s\<lparr>bsOk := True, bsValid := True, bsUsed := bsUsed s + 1\<rparr>))"
      using s few room c by (intro note_cache_noted) (simp_all add: scanned_def)
    then show ?thesis
      using s c unfolding scan_frame_def ok' Let_def
      by (simp add: scanned_def used_at_def free_at_def other_at_def looks_free_def)
  qed
qed

lemma caches_in_mono: "set ps \<subseteq> set qs \<Longrightarrow> set (caches_in F ps) \<subseteq> set (caches_in F qs)"
  by (auto simp: caches_in_def)

lemma scan_frames_prefix:
  assumes F: "whole_subsections F" and b: "b mod subPages F = 0" and ss: "distinct (map csCache ss)"
    and few: "card (set (caches_in F (block_pfns F b))) \<le> seen_max"
    and room: "card (csCache ` set ss \<union> set (caches_in F (block_pfns F b))) \<le> max_caches"
  shows "k \<le> perBlock F \<Longrightarrow> (let s = fold (scan_frame F) [b ..< b + k] (block_start_scan ss)
           in scanned F ss [b ..< b + k] s \<and> (0 < k \<longrightarrow> bsOk s = validAt F (b + k - 1)))"
proof (induction k)
  case 0
  then show ?case
    using noted_start [OF ss] by (simp add: scanned_def block_start_scan_def)
next
  case (Suc k)
  let ?ps = "[b ..< b + k]"
  let ?s = "fold (scan_frame F) ?ps (block_start_scan ss)"
  have ih: "scanned F ss ?ps ?s" "0 < k \<Longrightarrow> bsOk ?s = validAt F (b + k - 1)"
    using Suc by (simp_all add: Let_def)
  have ok: "(b + k) mod subPages F = 0 \<or> bsOk ?s = validAt F (b + k)"
  proof (cases "(b + k) mod subPages F = 0")
    case False
    then have "0 < k"
      using b by (cases k) auto
    then show ?thesis
      using ih(2) validAt_before [OF F, of "b + k - 1"] False by simp
  qed simp
  have sub: "set (caches_in F (?ps @ [b + k])) \<subseteq> set (caches_in F (block_pfns F b))"
    using Suc.prems by (intro caches_in_mono) (auto simp: block_pfns_def)
  have few': "card (set (caches_in F (?ps @ [b + k]))) \<le> seen_max"
    by (rule order_trans [OF card_mono [OF _ sub] few]) (rule finite_set)
  have room': "card (csCache ` set ss \<union> set (caches_in F (?ps @ [b + k]))) \<le> max_caches"
    by (rule order_trans [OF card_mono [OF _ Un_mono [OF subset_refl sub]] room]) simp
  show ?case
    using scan_frame_scanned [OF ih(1) ok few' room'] by (simp add: Let_def)
qed

lemma scan_frames_scanned:
  assumes "whole_subsections F" "b mod subPages F = 0" "distinct (map csCache ss)"
    "card (set (caches_in F (block_pfns F b))) \<le> seen_max"
    "card (csCache ` set ss \<union> set (caches_in F (block_pfns F b))) \<le> max_caches"
  shows "scanned F ss (block_pfns F b) (scan_frames F b ss)"
  using scan_frames_prefix [OF assms order_refl] by (simp add: scan_frames_def block_pfns_def Let_def)

text \<open>Booking a list of caches without duplicates changes every row once, by its own entry.\<close>

lemma fold_with_stat:
  assumes keep: "\<And>n st. csCache (g n st) = csCache st"
  shows "distinct (map fst xs) \<Longrightarrow>
    fold (\<lambda>cn. with_stat (fst cn) (g (snd cn))) xs ss =
      map (\<lambda>st. case map_of xs (csCache st) of None \<Rightarrow> st | Some n \<Rightarrow> g n st) ss"
proof (induction xs arbitrary: ss)
  case Nil
  then show ?case by simp
next
  case (Cons x xs)
  have nx: "map_of xs (fst x) = None"
    using Cons.prems by (simp add: map_of_eq_None_iff)
  have "fold (\<lambda>cn. with_stat (fst cn) (g (snd cn))) (x # xs) ss =
      map (\<lambda>st. case map_of xs (csCache st) of None \<Rightarrow> st | Some n \<Rightarrow> g n st) (with_stat (fst x) (g (snd x)) ss)"
    using Cons by simp
  also have "\<dots> = map (\<lambda>st. case map_of (x # xs) (csCache st) of None \<Rightarrow> st | Some n \<Rightarrow> g n st) ss"
    using Cons.prems nx by (simp add: with_stat_def keep o_def if_distrib [of csCache] split: option.split)
  finally show ?case .
qed

end
