(* ===== verification/Slabwalk.thy ===== *)
theory Slabwalk
  imports Slabwho
begin

text \<open>
  What the walk of the kernel module counts, against a table told from the page frames alone: the rows and totals of an
  exact walk, block after block, the blocks of the zones, and what fragview reads of it.
\<close>

section \<open>The table of an exact walk\<close>

definition holders :: "frames \<Rightarrow> nat \<Rightarrow> nat list" where
  "holders F b = caches_in F (block_pfns F b)"

definition caches_of :: "frames \<Rightarrow> nat list \<Rightarrow> nat list" where
  "caches_of F bl = concat (map (holders F) bl)"

definition hostage_at :: "frames \<Rightarrow> nat \<Rightarrow> nat \<Rightarrow> bool" where
  "hostage_at F limit b \<longleftrightarrow> 0 < how_many (used_at F) (block_pfns F b) \<and> how_many (used_at F) (block_pfns F b) \<le> limit"

definition only_slab :: "frames \<Rightarrow> nat \<Rightarrow> bool" where
  "only_slab F b \<longleftrightarrow> how_many (other_at F) (block_pfns F b) = 0"

definition exact_row :: "(nat \<Rightarrow> string option) \<Rightarrow> (nat \<Rightarrow> bool) \<Rightarrow> nat \<Rightarrow> frames \<Rightarrow> nat list \<Rightarrow> nat \<Rightarrow> cache_stat" where
  "exact_row cname cmobile limit F bl c =
     \<lparr>csCache = c, csName = shown_name (cname c),
      csPages = sum_list (map (\<lambda>b. count_list (holders F b) c) bl),
      csHostagePages = sum_list (map (\<lambda>b. if hostage_at F limit b then count_list (holders F b) c else 0) bl),
      csBlocks = how_many (\<lambda>b. c \<in> set (holders F b)) bl,
      csHostageBlocks = how_many (\<lambda>b. hostage_at F limit b \<and> c \<in> set (holders F b)) bl,
      csSolo = how_many (\<lambda>b. hostage_at F limit b \<and> only_slab F b \<and> remdups (holders F b) = [c]) bl,
      csMobile = cmobile c\<rparr>"

definition exact_totals :: "(nat \<Rightarrow> bool) \<Rightarrow> nat \<Rightarrow> bool \<Rightarrow> frames \<Rightarrow> nat list \<Rightarrow> cache_stat list \<Rightarrow> walk" where
  "exact_totals cmobile limit keep F bl ss =
     (let n = (\<lambda>b. length (remdups (holders F b))) in
     \<lparr>wStats = ss, wHostagePfns = (if keep then take max_hostage (filter (hostage_at F limit) bl) else []),
      wTotal = how_many (\<lambda>b. list_ex (validAt F) (block_pfns F b)) bl,
      wHostage = how_many (hostage_at F limit) bl,
      wFree = sum_list (map (\<lambda>b. if hostage_at F limit b then how_many (free_at F) (block_pfns F b) else 0) bl),
      wBy1 = how_many (\<lambda>b. hostage_at F limit b \<and> only_slab F b \<and> n b < 2) bl,
      wBy2 = how_many (\<lambda>b. hostage_at F limit b \<and> only_slab F b \<and> n b = 2) bl,
      wBy3 = how_many (\<lambda>b. hostage_at F limit b \<and> (\<not> only_slab F b \<or> n b > 2)) bl,
      wNonslab = how_many (\<lambda>b. hostage_at F limit b \<and> \<not> only_slab F b) bl,
      wAllMobile = how_many (\<lambda>b. hostage_at F limit b \<and> only_slab F b \<and> list_all cmobile (holders F b)) bl\<rparr>)"

definition exact_walk ::
  "(nat \<Rightarrow> string option) \<Rightarrow> (nat \<Rightarrow> bool) \<Rightarrow> nat \<Rightarrow> bool \<Rightarrow> frames \<Rightarrow> nat list \<Rightarrow> walk \<Rightarrow> bool" where
  "exact_walk cname cmobile limit keep F bl w \<longleftrightarrow>
     distinct (map csCache (wStats w)) \<and> csCache ` set (wStats w) = set (caches_of F bl) \<and>
     (\<forall>r\<in>set (wStats w). r = exact_row cname cmobile limit F bl (csCache r)) \<and>
     w = exact_totals cmobile limit keep F bl (wStats w)"

lemma wStats_exact_totals [simp]: "wStats (exact_totals cmobile limit keep F bl ss) = ss"
  by (simp add: exact_totals_def Let_def)

lemma csCache_exact_row [simp]: "csCache (exact_row cname cmobile limit F bl c) = c"
  by (simp add: exact_row_def)

lemma caches_of_snoc [simp]: "caches_of F (bl @ [b]) = caches_of F bl @ holders F b"
  by (simp add: caches_of_def)

lemma exact_row_zero:
  "c \<notin> set (caches_of F bl) \<Longrightarrow>
   exact_row cname cmobile limit F bl c = (new_stat c)\<lparr>csName := shown_name (cname c), csMobile := cmobile c\<rparr>"
proof -
  assume "c \<notin> set (caches_of F bl)"
  then have out: "c \<notin> set (holders F b)" if "b \<in> set bl" for b
    using that by (auto simp: caches_of_def)
  have one: "remdups (holders F b) \<noteq> [c]" if "b \<in> set bl" for b
    using out [OF that] by (metis list.set_intros(1) set_remdups)
  have counts: "map (\<lambda>b. count_list (holders F b) c) bl = map (\<lambda>b. 0) bl"
    "map (\<lambda>b. if hostage_at F limit b then count_list (holders F b) c else 0) bl = map (\<lambda>b. 0) bl"
    using out by (simp_all add: count_list_0_iff)
  have numbers: "how_many (\<lambda>b. c \<in> set (holders F b)) bl = 0" "how_many (\<lambda>b. hostage_at F limit b \<and> c \<in> set (holders F b)) bl = 0"
    "how_many (\<lambda>b. hostage_at F limit b \<and> only_slab F b \<and> remdups (holders F b) = [c]) bl = 0"
    using out one by (simp_all add: how_many_def filter_empty_conv)
  show ?thesis
    unfolding exact_row_def counts numbers by (simp add: new_stat_def)
qed

lemma shown_name_nonempty [simp]: "shown_name nm \<noteq> []"
  by (simp add: shown_name_def name_max_def split: option.split)

lemma describe_exact:
  "describe cname cmobile (if c \<in> set (caches_of F bl) then exact_row cname cmobile limit F bl c else new_stat c) =
   exact_row cname cmobile limit F bl c"
proof (cases "c \<in> set (caches_of F bl)")
  case True
  then show ?thesis
    by (simp add: describe_def) (simp add: exact_row_def)
next
  case False
  then show ?thesis
    by (simp add: describe_def exact_row_zero) (simp add: new_stat_def)
qed

text \<open>The row of a cache before a block is booked, and after: first its pages, then what it holds hostage.\<close>

definition row_before :: "(nat \<Rightarrow> string option) \<Rightarrow> (nat \<Rightarrow> bool) \<Rightarrow> nat \<Rightarrow> frames \<Rightarrow> nat list \<Rightarrow> nat \<Rightarrow> cache_stat" where
  "row_before cname cmobile limit F bl c =
     (if c \<in> set (caches_of F bl) then exact_row cname cmobile limit F bl c else new_stat c)"

definition row_paged :: "(nat \<Rightarrow> string option) \<Rightarrow> (nat \<Rightarrow> bool) \<Rightarrow> nat \<Rightarrow> frames \<Rightarrow> nat list \<Rightarrow> nat \<Rightarrow> nat \<Rightarrow> cache_stat" where
  "row_paged cname cmobile limit F bl b c =
     (let r = exact_row cname cmobile limit F bl c
      in if c \<in> set (holders F b) then r\<lparr>csPages := csPages r + count_list (holders F b) c, csBlocks := csBlocks r + 1\<rparr> else r)"

definition row_hostage :: "(nat \<Rightarrow> string option) \<Rightarrow> (nat \<Rightarrow> bool) \<Rightarrow> nat \<Rightarrow> frames \<Rightarrow> nat list \<Rightarrow> nat \<Rightarrow> nat \<Rightarrow> cache_stat" where
  "row_hostage cname cmobile limit F bl b c =
     (let r = row_paged cname cmobile limit F bl b c
      in if c \<in> set (holders F b)
         then r\<lparr>csHostagePages := csHostagePages r + count_list (holders F b) c, csHostageBlocks := csHostageBlocks r + 1\<rparr> else r)"

lemma csCache_rows [simp]:
  "csCache (row_before cname cmobile limit F bl c) = c" "csCache (row_paged cname cmobile limit F bl b c) = c"
  "csCache (row_hostage cname cmobile limit F bl b c) = c"
  by (simp_all add: row_before_def row_paged_def row_hostage_def Let_def)

lemma csCache_describe [simp]: "csCache (describe cname cmobile st) = csCache st"
  by (simp add: describe_def)

lemma row_paged_snoc:
  "\<not> hostage_at F limit b \<Longrightarrow> row_paged cname cmobile limit F bl b c = exact_row cname cmobile limit F (bl @ [b]) c"
  by (auto simp: row_paged_def exact_row_def Let_def)

lemma row_hostage_snoc:
  assumes "hostage_at F limit b"
  shows "(let r = row_hostage cname cmobile limit F bl b c
          in if only_slab F b \<and> remdups (holders F b) = [c] then r\<lparr>csSolo := csSolo r + 1\<rparr> else r) =
         exact_row cname cmobile limit F (bl @ [b]) c"
  using assms by (auto simp: row_hostage_def row_paged_def exact_row_def Let_def)

lemma rows_after_scan:
  assumes n: "noted (holders F b) ss s"
    and ss: "csCache ` set ss = set (caches_of F bl)" "\<forall>r\<in>set ss. r = exact_row cname cmobile limit F bl (csCache r)"
  shows "bsStats s = map (row_before cname cmobile limit F bl) (map csCache (bsStats s))"
proof -
  obtain D where D: "bsStats s = ss @ map new_stat D"
    using n by (auto simp: noted_def)
  have "distinct (map csCache (bsStats s))"
    using n by (simp add: noted_def)
  then have new: "set D \<inter> set (caches_of F bl) = {}"
    using ss(1) unfolding D by (auto simp: o_def)
  have old: "row_before cname cmobile limit F bl (csCache r) = r" if "r \<in> set ss" for r
    using ss that unfolding row_before_def by auto
  have "row_before cname cmobile limit F bl c = new_stat c" if "c \<in> set D" for c
    using new that by (auto simp: row_before_def)
  then show ?thesis
    using old unfolding D by (simp add: o_def map_idI)
qed

lemma map_of_seen:
  "noted (holders F b) ss s \<Longrightarrow>
   map_of (bsSeen s) c = (if c \<in> set (holders F b) then Some (count_list (holders F b) c) else None)"
  by (rule noted_map_of)

lemma rows_paged:
  assumes n: "noted (holders F b) ss s"
    and ss: "csCache ` set ss = set (caches_of F bl)" "\<forall>r\<in>set ss. r = exact_row cname cmobile limit F bl (csCache r)"
  shows "fold (book_pages cname cmobile) (bsSeen s) (bsStats s) =
    map (row_paged cname cmobile limit F bl b) (map csCache (bsStats s))"
proof -
  let ?g = "\<lambda>k st. let st' = describe cname cmobile st in st'\<lparr>csPages := csPages st' + k, csBlocks := csBlocks st' + 1\<rparr>"
  have step: "book_pages cname cmobile = (\<lambda>cn. with_stat (fst cn) (?g (snd cn)))"
    by (simp add: book_pages_def fun_eq_iff)
  have d: "distinct (map fst (bsSeen s))" "csCache ` set (bsStats s) = set (caches_of F bl) \<union> set (holders F b)"
    using n ss(1) by (simp_all add: noted_def)
  have row: "(case map_of (bsSeen s) c of None \<Rightarrow> row_before cname cmobile limit F bl c
      | Some k \<Rightarrow> ?g k (row_before cname cmobile limit F bl c)) = row_paged cname cmobile limit F bl b c"
    if "c \<in> csCache ` set (bsStats s)" for c
    using that d(2) describe_exact [of cname cmobile c F bl limit, folded row_before_def]
    by (auto simp: map_of_seen [OF n] row_paged_def Let_def) (simp add: row_before_def)
  have "fold (book_pages cname cmobile) (bsSeen s) (bsStats s) =
      map (\<lambda>st. case map_of (bsSeen s) (csCache st) of None \<Rightarrow> st | Some k \<Rightarrow> ?g k st) (bsStats s)"
    unfolding step by (rule fold_with_stat) (simp_all add: Let_def d(1))
  also have "\<dots> = map (\<lambda>c. case map_of (bsSeen s) c of None \<Rightarrow> row_before cname cmobile limit F bl c
      | Some k \<Rightarrow> ?g k (row_before cname cmobile limit F bl c)) (map csCache (bsStats s))"
    by (subst rows_after_scan [OF n ss]) (simp add: o_def)
  also have "\<dots> = map (row_paged cname cmobile limit F bl b) (map csCache (bsStats s))"
    using row by (intro map_cong) simp_all
  finally show ?thesis .
qed

lemma rows_hostage:
  assumes n: "noted (holders F b) ss s"
  shows "fold book_hostage (bsSeen s) (map (row_paged cname cmobile limit F bl b) cs) =
    map (row_hostage cname cmobile limit F bl b) cs"
proof -
  let ?g = "\<lambda>k st. st\<lparr>csHostagePages := csHostagePages st + k, csHostageBlocks := csHostageBlocks st + 1\<rparr>"
  have step: "book_hostage = (\<lambda>cn. with_stat (fst cn) (?g (snd cn)))"
    by (simp add: book_hostage_def fun_eq_iff)
  have d: "distinct (map fst (bsSeen s))"
    using n by (simp add: noted_def)
  have row: "(case map_of (bsSeen s) c of None \<Rightarrow> row_paged cname cmobile limit F bl b c
      | Some k \<Rightarrow> ?g k (row_paged cname cmobile limit F bl b c)) = row_hostage cname cmobile limit F bl b c" for c
    by (simp add: map_of_seen [OF n] row_hostage_def Let_def)
  have "fold book_hostage (bsSeen s) (map (row_paged cname cmobile limit F bl b) cs) =
      map (\<lambda>st. case map_of (bsSeen s) (csCache st) of None \<Rightarrow> st | Some k \<Rightarrow> ?g k st)
        (map (row_paged cname cmobile limit F bl b) cs)"
    unfolding step by (rule fold_with_stat) (simp_all add: d)
  also have "\<dots> = map (row_hostage cname cmobile limit F bl b) cs"
    by (simp add: row o_def)
  finally show ?thesis .
qed

lemma seen_one:
  assumes n: "noted (holders F b) ss s" and one: "length (bsSeen s) = 1"
  shows "remdups (holders F b) = [fst (hd (bsSeen s))]"
proof -
  obtain c where c: "bsSeen s = [c]"
    using one by (cases "bsSeen s") auto
  then have "set (remdups (holders F b)) = {fst c}"
    using noted_seen [OF n] by simp
  moreover have "distinct (remdups (holders F b))"
    by simp
  ultimately show ?thesis
    using c by (cases "remdups (holders F b)") (auto simp: subset_singleton_iff)
qed

lemma seen_length: "noted (holders F b) ss s \<Longrightarrow> length (remdups (holders F b)) = length (bsSeen s)"
  by (simp add: noted_length length_remdups_card_conv)

lemma rows_solo:
  assumes n: "noted (holders F b) ss s" and other: "bsNonslab s = 0 \<longleftrightarrow> only_slab F b" and h: "hostage_at F limit b"
  shows "book_solo s (map (row_hostage cname cmobile limit F bl b) cs) = map (exact_row cname cmobile limit F (bl @ [b])) cs"
proof (cases "length (bsSeen s) = 1 \<and> bsNonslab s = 0")
  case True
  then have "remdups (holders F b) = [fst (hd (bsSeen s))]" "only_slab F b"
    using seen_one [OF n] other by simp_all
  then show ?thesis
    using True row_hostage_snoc [OF h, of cname cmobile bl, symmetric]
    by (auto simp: book_solo_def with_stat_def Let_def)
next
  case False
  then have "\<not> (only_slab F b \<and> remdups (holders F b) = [c])" for c
    using seen_length [OF n] other by auto
  then show ?thesis
    using row_hostage_snoc [OF h, of cname cmobile bl, symmetric]
    unfolding book_solo_def if_not_P [OF False] by (simp add: Let_def)
qed

lemma all_mobile_rows:
  assumes n: "noted (holders F b) ss s"
  shows "all_mobile s (map (row_paged cname cmobile limit F bl b) (map csCache (bsStats s))) \<longleftrightarrow> list_all cmobile (holders F b)"
proof -
  have mob: "csMobile (row_paged cname cmobile limit F bl b c) = cmobile c" for c
    by (simp add: row_paged_def exact_row_def Let_def)
  have seen: "fst ` set (bsSeen s) = set (holders F b)"
    by (rule noted_seen [OF n])
  have "set (holders F b) \<subseteq> csCache ` set (bsStats s)"
    using n by (auto simp: noted_def)
  then have "(\<forall>c\<in>fst ` set (bsSeen s). \<forall>r\<in>set (bsStats s). csCache r = c \<longrightarrow> cmobile (csCache r)) \<longleftrightarrow>
      (\<forall>c\<in>set (holders F b). cmobile c)"
    unfolding seen by auto
  then show ?thesis
    by (simp add: all_mobile_def list_all_iff mob)
qed

lemma nothing_in_invalid:
  assumes "\<not> list_ex (validAt F) (block_pfns F b)"
  shows "holders F b = []" "\<not> hostage_at F limit b"
proof -
  have inv: "\<not> validAt F p" if "p \<in> set (block_pfns F b)" for p
    using assms that by (auto simp: list_ex_iff)
  then show "holders F b = []"
    by (simp add: holders_def caches_in_def)
  show "\<not> hostage_at F limit b"
    using inv by (auto simp: hostage_at_def how_many_def used_at_def)
qed

lemma exact_row_invalid:
  assumes "\<not> list_ex (validAt F) (block_pfns F b)"
  shows "exact_row cname cmobile limit F (bl @ [b]) c = exact_row cname cmobile limit F bl c"
  using nothing_in_invalid [OF assms] by (simp add: exact_row_def)

lemma exact_totals_snoc:
  assumes w: "w = exact_totals cmobile limit keep F bl ss" and s: "noted (holders F b) ss' s"
    "bsFree s = how_many (free_at F) (block_pfns F b)" "bsNonslab s = 0 \<longleftrightarrow> only_slab F b"
    and v: "list_ex (validAt F) (block_pfns F b)" and h: "hostage_at F limit b"
    and m: "all_mobile s ssp \<longleftrightarrow> list_all cmobile (holders F b)"
  shows "w\<lparr>wStats := u, wTotal := wTotal w + 1\<rparr>\<lparr>wStats := t, wHostage := wHostage w + 1, wFree := wFree w + bsFree s,
      wHostagePfns := (if keep \<and> length (wHostagePfns w) < max_hostage then wHostagePfns w @ [b] else wHostagePfns w),
      wNonslab := (if bsNonslab s \<noteq> 0 then wNonslab w + 1 else wNonslab w),
      wAllMobile := (if \<not> bsNonslab s \<noteq> 0 \<and> all_mobile s ssp then wAllMobile w + 1 else wAllMobile w),
      wBy3 := (if bsNonslab s \<noteq> 0 \<or> length (bsSeen s) > 2 then wBy3 w + 1 else wBy3 w),
      wBy2 := (if \<not> bsNonslab s \<noteq> 0 \<and> length (bsSeen s) = 2 then wBy2 w + 1 else wBy2 w),
      wBy1 := (if \<not> bsNonslab s \<noteq> 0 \<and> length (bsSeen s) < 2 then wBy1 w + 1 else wBy1 w)\<rparr> =
    exact_totals cmobile limit keep F (bl @ [b]) t"
proof -
  have pfns: "(if keep \<and> length (wHostagePfns w) < max_hostage then wHostagePfns w @ [b] else wHostagePfns w) =
      (if keep then take max_hostage (filter (hostage_at F limit) (bl @ [b])) else [])"
    using h unfolding w exact_totals_def by (auto simp: Let_def min_def)
  show ?thesis
    unfolding pfns s(2,3) m seen_length [OF s(1), symmetric] unfolding w
    using v h by (simp add: exact_totals_def Let_def)
qed

text \<open>The three ways a block is booked: it has no page, it is not a hostage, it is one.\<close>

definition next_exact ::
  "(nat \<Rightarrow> string option) \<Rightarrow> (nat \<Rightarrow> bool) \<Rightarrow> nat \<Rightarrow> bool \<Rightarrow> frames \<Rightarrow> nat list \<Rightarrow> block_scan \<Rightarrow> walk" where
  "next_exact cname cmobile limit keep F bl s =
     exact_totals cmobile limit keep F bl (map (exact_row cname cmobile limit F bl) (map csCache (bsStats s)))"

lemma exact_walkD:
  assumes "exact_walk cname cmobile limit keep F bl w"
  shows "csCache ` set (wStats w) = set (caches_of F bl)"
    "\<forall>r\<in>set (wStats w). r = exact_row cname cmobile limit F bl (csCache r)"
    "w = exact_totals cmobile limit keep F bl (wStats w)" "distinct (map csCache (wStats w))"
  using assms unfolding exact_walk_def by simp_all

lemma scannedD:
  assumes "scanned F ss (block_pfns F b) s"
  shows "noted (holders F b) ss s" "bsFree s = how_many (free_at F) (block_pfns F b)" "bsNonslab s = 0 \<longleftrightarrow> only_slab F b"
    "bsValid s = list_ex (validAt F) (block_pfns F b)" "hostage_block limit s \<longleftrightarrow> hostage_at F limit b"
  using assms by (simp_all add: scanned_def holders_def only_slab_def hostage_block_def hostage_at_def)

lemma book_block_invalid:
  assumes w: "exact_walk cname cmobile limit keep F bl w" and sc: "scanned F (wStats w) (block_pfns F b) s"
    and inv: "\<not> list_ex (validAt F) (block_pfns F b)"
  shows "book_block cname cmobile limit keep b s w = next_exact cname cmobile limit keep F (bl @ [b]) s"
proof -
  have cs: "csCache r \<in> set (caches_of F bl)" if "r \<in> set (bsStats s)" for r
    using scannedD(1) [OF sc] exact_walkD(1) [OF w] nothing_in_invalid(1) [OF inv] that by (auto simp: noted_def)
  have "bsStats s = map (row_before cname cmobile limit F bl) (map csCache (bsStats s))"
    by (rule rows_after_scan [OF scannedD(1) [OF sc] exact_walkD(1,2) [OF w]])
  also have "\<dots> = map (exact_row cname cmobile limit F (bl @ [b])) (map csCache (bsStats s))"
    using cs by (simp add: row_before_def exact_row_invalid [OF inv])
  finally have st: "bsStats s = map (exact_row cname cmobile limit F (bl @ [b])) (map csCache (bsStats s))" .
  have "w\<lparr>wStats := u\<rparr> = exact_totals cmobile limit keep F (bl @ [b]) u" for u
    by (subst exact_walkD(3) [OF w]) (use inv nothing_in_invalid(2) [OF inv] in \<open>simp add: exact_totals_def Let_def\<close>)
  then show ?thesis
    using inv st by (simp add: book_block_def scannedD(4) [OF sc] next_exact_def)
qed

lemma book_block_open:
  assumes w: "exact_walk cname cmobile limit keep F bl w" and sc: "scanned F (wStats w) (block_pfns F b) s"
    and v: "list_ex (validAt F) (block_pfns F b)" and h: "\<not> hostage_at F limit b"
  shows "book_block cname cmobile limit keep b s w = next_exact cname cmobile limit keep F (bl @ [b]) s"
proof -
  have "w\<lparr>wStats := u, wTotal := wTotal w + 1\<rparr> = exact_totals cmobile limit keep F (bl @ [b]) u" for u
    by (subst (1 2) exact_walkD(3) [OF w]) (use v h in \<open>simp add: exact_totals_def Let_def\<close>)
  then show ?thesis
    using v h scannedD(5) [OF sc, of limit] rows_paged [OF scannedD(1) [OF sc] exact_walkD(1,2) [OF w]] row_paged_snoc [OF h]
    by (simp add: book_block_def scannedD(4) [OF sc] next_exact_def Let_def o_def)
qed

lemma book_block_hostage:
  assumes w: "exact_walk cname cmobile limit keep F bl w" and sc: "scanned F (wStats w) (block_pfns F b) s"
    and v: "list_ex (validAt F) (block_pfns F b)" and h: "hostage_at F limit b"
  shows "book_block cname cmobile limit keep b s w = next_exact cname cmobile limit keep F (bl @ [b]) s"
proof -
  note n = scannedD(1) [OF sc]
  note paged = rows_paged [OF n exact_walkD(1,2) [OF w]]
  note rows = rows_solo [OF n scannedD(3) [OF sc] h]
  note tot = exact_totals_snoc [OF exact_walkD(3) [OF w] n scannedD(2,3) [OF sc] v h all_mobile_rows [OF n]]
  have b: "bsValid s" "hostage_block limit s"
    using v h scannedD(4,5) [OF sc] by simp_all
  show ?thesis
    unfolding book_block_def Let_def paged rows_hostage [OF n] rows next_exact_def using b by (simp only: tot not_True_eq_False if_False)
qed

lemma book_block_exact:
  assumes w: "exact_walk cname cmobile limit keep F bl w" and sc: "scanned F (wStats w) (block_pfns F b) s"
  shows "exact_walk cname cmobile limit keep F (bl @ [b]) (book_block cname cmobile limit keep b s w)"
proof -
  have "book_block cname cmobile limit keep b s w = next_exact cname cmobile limit keep F (bl @ [b]) s"
    using book_block_invalid [OF w sc] book_block_open [OF w sc] book_block_hostage [OF w sc] by blast
  moreover have "distinct (map csCache (bsStats s))" "csCache ` set (bsStats s) = set (caches_of F (bl @ [b]))"
    using scannedD(1) [OF sc] exact_walkD(1) [OF w] by (simp_all add: noted_def)
  ultimately show ?thesis
    unfolding exact_walk_def next_exact_def by (simp add: o_def image_image)
qed

lemma exact_walk_start: "exact_walk cname cmobile limit keep F [] walk_start"
  by (simp add: exact_walk_def walk_start_def exact_totals_def caches_of_def)

text \<open>
  The tables are large enough: at most \<open>seen_max\<close> caches in a block and \<open>max_caches\<close> in all.
\<close>

definition tables_fit :: "frames \<Rightarrow> nat list \<Rightarrow> bool" where
  "tables_fit F bl \<longleftrightarrow> list_all (\<lambda>b. card (set (holders F b)) \<le> seen_max) bl \<and> card (set (caches_of F bl)) \<le> max_caches"

lemma tables_fit_prefix: "tables_fit F (bl @ [b]) \<Longrightarrow> tables_fit F bl"
proof -
  assume fit: "tables_fit F (bl @ [b])"
  have "card (set (caches_of F bl)) \<le> card (set (caches_of F (bl @ [b])))"
    by (rule card_mono) auto
  then show ?thesis
    using fit by (simp add: tables_fit_def)
qed

lemma fold_walk_exact:
  assumes F: "whole_subsections F"
  shows "list_all (\<lambda>b. b mod subPages F = 0) bl \<Longrightarrow> tables_fit F bl \<Longrightarrow>
    exact_walk cname cmobile limit keep F bl (fold (walk_block cname cmobile limit keep F) bl walk_start)"
proof (induction bl rule: rev_induct)
  case Nil
  then show ?case
    by (simp add: exact_walk_start)
next
  case (snoc b bl)
  let ?w = "fold (walk_block cname cmobile limit keep F) bl walk_start"
  have w: "exact_walk cname cmobile limit keep F bl ?w"
    using snoc by (simp add: tables_fit_prefix)
  have fit: "card (set (holders F b)) \<le> seen_max" "card (set (caches_of F bl) \<union> set (holders F b)) \<le> max_caches"
    using snoc.prems(2) by (simp_all add: tables_fit_def)
  have "scanned F (wStats ?w) (block_pfns F b) (scan_frames F b (wStats ?w))"
    using snoc.prems(1) fit by (intro scan_frames_scanned F exact_walkD(4) [OF w])
      (simp_all add: exact_walkD(1) [OF w] holders_def)
  then show ?case
    using book_block_exact [OF w] by (simp add: walk_block_def [of _ _ _ _ _ b ?w])
qed

section \<open>The blocks of the zones\<close>

lemma zone_blocks_aligned: "n dvd behind \<Longrightarrow> b \<in> set (zone_blocks n behind z) \<Longrightarrow> n dvd b"
  by (auto simp: zone_blocks_def Let_def max_def)

lemma zone_end_aligned: "n dvd behind \<Longrightarrow> n dvd max (fst z div n * n) behind + length (zone_blocks n behind z) * n"
  by (simp add: max_def)

lemma node_blocks_aligned: "n dvd behind \<Longrightarrow> b \<in> set (node_blocks n behind zs) \<Longrightarrow> n dvd b"
proof (induction zs arbitrary: behind)
  case Nil
  then show ?case by simp
next
  case (Cons z zs)
  then show ?case
    using zone_blocks_aligned [OF Cons.prems(1), of b z] Cons.IH [OF zone_end_aligned [OF Cons.prems(1), of z]]
    by (auto simp: Let_def)
qed

lemma walk_blocks_aligned:
  assumes "whole_subsections F"
  shows "list_all (\<lambda>b. b mod subPages F = 0) (walk_blocks F nodes)"
proof -
  have "subPages F dvd b" if "b \<in> set (walk_blocks F nodes)" for b
  proof -
    have "perBlock F dvd b"
      using that node_blocks_aligned [of "perBlock F" 0 b] by (auto simp: walk_blocks_def)
    then show ?thesis
      using assms by (auto simp: whole_subsections_def intro: dvd_trans)
  qed
  then show ?thesis
    by (simp add: list_all_iff)
qed

text \<open>The walked blocks cover the zones of a node that come in the order of their first pages.\<close>

definition covered :: "nat \<Rightarrow> nat list \<Rightarrow> nat set" where
  "covered n bl = (\<Union>b\<in>set bl. {b ..< b + n})"

lemma covered_simps [simp]: "covered n [] = {}" "covered n (xs @ ys) = covered n xs \<union> covered n ys"
  by (simp_all add: covered_def)

lemma zone_blocks_cover:
  assumes n: "0 < n" and p: "max (fst z div n * n) behind \<le> p"
    "p < max (fst z div n * n) behind + length (zone_blocks n behind z) * n"
  shows "p \<in> covered n (zone_blocks n behind z)"
proof -
  let ?b = "max (fst z div n * n) behind"
  let ?i = "(p - ?b) div n"
  have "p - ?b < length (zone_blocks n behind z) * n"
    using p by linarith
  then have "?i < length (zone_blocks n behind z)"
    using n by (simp add: div_less_iff_less_mult)
  then have "?i \<in> set [0 ..< length (zone_blocks n behind z)]"
    by simp
  then have "?b + ?i * n \<in> set (zone_blocks n behind z)"
    unfolding zone_blocks_def Let_def set_map length_map length_upt diff_zero by (rule imageI)
  moreover have "p \<in> {?b + ?i * n ..< ?b + ?i * n + n}"
    unfolding atLeastLessThan_iff
    using p(1) div_mult_mod_eq [of "p - ?b" n] mod_less_divisor [OF n, of "p - ?b"] by linarith
  ultimately show ?thesis
    unfolding covered_def by blast
qed

lemma zone_blocks_reach: "0 < n \<Longrightarrow> snd z \<le> max (fst z div n * n) behind + length (zone_blocks n behind z) * n"
proof -
  assume n: "0 < n"
  have "k \<le> (k + n - 1) div n * n" for k
    using n div_mult_mod_eq [of "k + n - 1" n] mod_less_divisor [OF n, of "k + n - 1"] by linarith
  from this [of "snd z - max (fst z div n * n) behind"] show ?thesis
    by (simp add: zone_blocks_def Let_def)
qed

lemma node_blocks_cover:
  assumes n: "0 < n"
  shows "sorted (map fst zs) \<Longrightarrow> list_all (\<lambda>z. lo \<le> fst z) zs \<Longrightarrow> {lo ..< behind} \<subseteq> C \<Longrightarrow>
    list_all (\<lambda>z. {fst z ..< snd z} \<subseteq> C \<union> covered n (node_blocks n behind zs)) zs"
proof (induction zs arbitrary: lo behind C)
  case Nil
  then show ?case by simp
next
  case (Cons z zs)
  let ?next = "max (fst z div n * n) behind + length (zone_blocks n behind z) * n"
  have "{fst z ..< ?next} \<subseteq> C \<union> covered n (zone_blocks n behind z)"
  proof
    fix p assume p: "p \<in> {fst z ..< ?next}"
    have "fst z div n * n \<le> p"
      using p order_trans [OF div_times_less_eq_dividend, of "fst z" p n] by simp
    then show "p \<in> C \<union> covered n (zone_blocks n behind z)"
      using p Cons.prems(2,3) zone_blocks_cover [OF n, of z behind p] by (cases "p < behind") auto
  qed
  note reach = this
  have "list_all (\<lambda>z'. {fst z' ..< snd z'} \<subseteq> C \<union> covered n (zone_blocks n behind z) \<union> covered n (node_blocks n ?next zs)) zs"
    by (rule Cons.IH [of "fst z"]) (use Cons.prems(1) reach in \<open>auto simp: list_all_iff\<close>)
  moreover have "{fst z ..< snd z} \<subseteq> C \<union> covered n (zone_blocks n behind z)"
    using reach zone_blocks_reach [OF n, of z behind] by (meson ivl_subset order_refl subset_trans)
  ultimately show ?case
    by (auto simp: Let_def Un_assoc)
qed

lemma walk_blocks_cover:
  assumes "0 < perBlock F" "list_all (\<lambda>zs. sorted (map fst zs)) nodes"
  shows "list_all (list_all (\<lambda>z. {fst z ..< snd z} \<subseteq> covered (perBlock F) (walk_blocks F nodes))) nodes"
proof -
  have "{fst z ..< snd z} \<subseteq> covered (perBlock F) (walk_blocks F nodes)" if "zs \<in> set nodes" "z \<in> set zs" for zs z
  proof -
    have "sorted (map fst zs)"
      using assms(2) that(1) by (simp add: list_all_iff)
    then have "{fst z ..< snd z} \<subseteq> covered (perBlock F) (node_blocks (perBlock F) 0 zs)"
      using node_blocks_cover [OF assms(1), of zs 0 0 "{}"] that(2) by (simp add: list_all_iff)
    also have "\<dots> \<subseteq> covered (perBlock F) (walk_blocks F nodes)"
      using that(1) by (auto simp: covered_def walk_blocks_def)
    finally show ?thesis .
  qed
  then show ?thesis
    by (simp add: list_all_iff)
qed

lemma walk_memory_walked:
  assumes F: "whole_subsections F" and fit: "tables_fit F (walk_blocks F nodes)" and srt: "\<And>ss. mset (srt ss) = mset ss"
  shows "exact_walk cname cmobile limit keep F (walk_blocks F nodes) (walk_memory srt cname cmobile limit keep F nodes)"
proof -
  let ?w = "fold (walk_block cname cmobile limit keep F) (walk_blocks F nodes) walk_start"
  have w: "exact_walk cname cmobile limit keep F (walk_blocks F nodes) ?w"
    by (rule fold_walk_exact [OF F walk_blocks_aligned [OF F] fit])
  have rows: "set (srt (wStats ?w)) = set (wStats ?w)"
    by (rule mset_eq_setD [OF srt])
  have caches: "distinct (map csCache (srt (wStats ?w))) = distinct (map csCache (wStats ?w))"
    by (rule mset_eq_imp_distinct_iff) (simp only: mset_map srt)
  have "?w\<lparr>wStats := u\<rparr> = exact_totals cmobile limit keep F (walk_blocks F nodes) u" for u
    by (subst exact_walkD(3) [OF w]) (simp add: exact_totals_def Let_def)
  then show ?thesis
    using exact_walkD [OF w] by (simp add: exact_walk_def walk_memory_def Let_def rows caches)
qed

text \<open>
  C17. The walk counts exactly. On memory whose validity is that of its subsections, where no block is hostage_at
  by more than 64 caches and there are at most 512 of them, the table of the walk has one row per cache with a
  slab page in a valid page of the walked blocks; the row has the number of these pages and of the blocks they are in,
  both again for the blocks that few used pages hold hostage, the number of hostage blocks the cache has to itself, its
  name and whether it can move. The totals are the numbers of blocks and of pages with these properties. The walked blocks
  cover every zone, where the zones of a node come in the order of their first pages.
\<close>

theorem walk_memory_exact:
  assumes "whole_subsections F" and "tables_fit F (walk_blocks F nodes)" and "\<And>ss. mset (srt ss) = mset ss"
    and "list_all (\<lambda>zs. sorted (map fst zs)) nodes" and "w = walk_memory srt cname cmobile limit keep F nodes"
  shows "distinct (map csCache (wStats w)) \<and>
    set (wStats w) = exact_row cname cmobile limit F (walk_blocks F nodes) ` set (caches_of F (walk_blocks F nodes)) \<and>
    w = exact_totals cmobile limit keep F (walk_blocks F nodes) (wStats w) \<and>
    list_all (list_all (\<lambda>z. {fst z ..< snd z} \<subseteq> covered (perBlock F) (walk_blocks F nodes))) nodes"
proof -
  note e = exact_walkD [OF walk_memory_walked [OF assms(1,2,3), of cname cmobile limit keep, folded assms(5)]]
  have "set (wStats w) = exact_row cname cmobile limit F (walk_blocks F nodes) ` csCache ` set (wStats w)"
    using e(2) by (auto simp: image_image intro: rev_image_eqI)
  moreover have "0 < perBlock F"
    using assms(1) by (simp add: whole_subsections_def)
  ultimately show ?thesis
    using e walk_blocks_cover [of F nodes] assms(4) by simp
qed

definition sample_frames :: frames where
  "sample_frames = \<lparr>validAt = \<lambda>p. p div 2 \<noteq> 1,
     pageAt = \<lambda>p. \<lparr>slabOf = (if p = 0 \<or> p = 5 then Some 7 else if p = 4 then Some 9 else None), isBuddy = True, noRefs = True,
       isCompound = False, onLRU = False\<rparr>,
     subPages = 2, perBlock = 4\<rparr>"

lemma sample_facts:
  "whole_subsections sample_frames" "walk_blocks sample_frames [[(1, 8)]] = [0, 4]" "holders sample_frames 0 = [7]"
  "holders sample_frames 4 = [9, 7]" "tables_fit sample_frames [0, 4]" "caches_of sample_frames [0, 4] = [7, 9, 7]"
proof -
  show F: "whole_subsections sample_frames"
    by (simp add: whole_subsections_def sample_frames_def)
  show "walk_blocks sample_frames [[(1, 8)]] = [0, 4]"
    by (simp add: walk_blocks_def zone_blocks_def sample_frames_def Let_def upt_rec)
  show h: "holders sample_frames 0 = [7]" "holders sample_frames 4 = [9, 7]"
    by (simp_all add: holders_def block_pfns_def caches_in_def sample_frames_def upt_rec)
  show "caches_of sample_frames [0, 4] = [7, 9, 7]"
    by (simp add: caches_of_def h)
  then show "tables_fit sample_frames [0, 4]"
    by (simp add: tables_fit_def h seen_max_def max_caches_def card_insert_if)
qed

lemma sample_hostages: "hostage_at sample_frames 2 0" "hostage_at sample_frames 2 4" "only_slab sample_frames 0" "only_slab sample_frames 4"
  by (simp_all add: hostage_at_def only_slab_def how_many_def used_at_def other_at_def looks_free_def block_pfns_def
      sample_frames_def upt_rec)

lemma walk_memory_exact_witness:
  "csPages ` set (wStats (walk_memory rev (\<lambda>c. Some ''dentry'') (\<lambda>c. False) 2 True sample_frames [[(1, 8)]])) = {1, 2} \<and>
   wBy1 (walk_memory rev (\<lambda>c. Some ''dentry'') (\<lambda>c. False) 2 True sample_frames [[(1, 8)]]) = 1 \<and>
   wHostagePfns (walk_memory rev (\<lambda>c. Some ''dentry'') (\<lambda>c. False) 2 True sample_frames [[(1, 8)]]) = [0, 4]"
proof -
  let ?w = "walk_memory rev (\<lambda>c. Some ''dentry'') (\<lambda>c. False) 2 True sample_frames [[(1, 8)]]"
  note e = walk_memory_exact [of sample_frames "[[(1, 8)]]" rev ?w "\<lambda>c. Some ''dentry''" "\<lambda>c. False" 2 True,
      unfolded sample_facts, OF _ _ _ _ refl]
  have rows: "set (wStats ?w) = exact_row (\<lambda>c. Some ''dentry'') (\<lambda>c. False) 2 sample_frames [0, 4] ` set [7, 9, 7]"
    and w: "?w = exact_totals (\<lambda>c. False) 2 True sample_frames [0, 4] (wStats ?w)"
    using e sample_facts(1,5) by simp_all
  have "csPages ` set (wStats ?w) = {1, 2}"
    unfolding rows by (auto simp: exact_row_def sample_facts)
  moreover have "wBy1 ?w = 1" "wHostagePfns ?w = [0, 4]"
    by (subst w, simp add: exact_totals_def Let_def how_many_def sample_facts sample_hostages max_hostage_def)+
  ultimately show ?thesis
    by simp
qed

section \<open>From the page frames to the window\<close>

lemma rows_of_walk:
  assumes e: "exact_walk cname cmobile limit keep F bl w"
    and names: "distinct (map (\<lambda>c. shown_name (cname c)) (remdups (caches_of F bl)))"
      "list_all (\<lambda>c. word_ok (shown_name (cname c)) \<and> shown_name (cname c) \<noteq> ''#'') (caches_of F bl)"
  shows "rows_ok (map stat_row (wStats w)) \<and>
    set (map (\<lambda>st. (fst (stat_row st), who_row st)) (wStats w)) =
      (\<lambda>c. (shown_name (cname c), who_row (exact_row cname cmobile limit F bl c))) ` set (caches_of F bl)"
proof -
  note x = exact_walkD [OF e]
  have nm: "fst (stat_row r) = shown_name (cname (csCache r))" if "r \<in> set (wStats w)" for r
  proof -
    have r: "r = exact_row cname cmobile limit F bl (csCache r)"
      using x(2) that by blast
    have "csName r = shown_name (cname (csCache r))"
      by (subst r) (simp add: exact_row_def)
    then show ?thesis
      by (simp add: stat_row_def)
  qed
  have inj: "inj_on (\<lambda>c. shown_name (cname c)) (csCache ` set (wStats w))"
    using names(1) x(1) by (simp add: distinct_map)
  have fsts: "map fst (map stat_row (wStats w)) = map (\<lambda>c. shown_name (cname c)) (map csCache (wStats w))"
    using nm by simp
  have "distinct (map (\<lambda>c. shown_name (cname c)) (map csCache (wStats w)))"
    using x(4) inj by (simp only: distinct_map [of "\<lambda>c. shown_name (cname c)"] list.set_map)
  moreover have "list_all (\<lambda>r. word_ok (fst r) \<and> fst r \<noteq> ''#'') (map stat_row (wStats w))"
    using names(2) x(1) nm by (fastforce simp: list_all_iff)
  moreover have "set (map (\<lambda>st. (fst (stat_row st), who_row st)) (wStats w)) =
      (\<lambda>c. (shown_name (cname c), who_row (exact_row cname cmobile limit F bl c))) ` csCache ` set (wStats w)"
    using nm x(2) by (auto simp: image_image intro!: image_cong)
  ultimately show ?thesis
    unfolding rows_ok_def fsts x(1) by blast
qed

text \<open>
  C20. What fragview shows of a cache is what the page frames hold. From the file the module prints after a
  walk of such memory, under names that are different single words, the reader gets one entry per cache with a slab page
  in the walked blocks, whose numbers are those counted from the page frames, and the totals of the blocks.
\<close>

theorem fragview_reads_walk:
  assumes "whole_subsections F" and "tables_fit F bl" and "\<And>ss. mset (srt ss) = mset ss"
    and "bl = walk_blocks F nodes" and "w = walk_memory srt cname cmobile limit keep F nodes"
    and "distinct (map (\<lambda>c. shown_name (cname c)) (remdups (caches_of F bl)))"
    and "list_all (\<lambda>c. word_ok (shown_name (cname c)) \<and> shown_name (cname c) \<noteq> ''#'') (caches_of F bl)"
    and "caches_of F bl \<noteq> []" and "list_all line_ok (slabwho_file us limit age w)"
    and "proc ''slabwho'' = Some (unlines (slabwho_file us limit age w))"
  shows "\<exists>rows. readSlabwho proc =
      (Some rows, \<lparr>tot_blocks = of_nat (how_many (\<lambda>b. list_ex (validAt F) (block_pfns F b)) bl),
         tot_hostageBlocks = of_nat (how_many (hostage_at F limit) bl),
         tot_hostageFreePages = of_nat (sum_list (map (\<lambda>b. if hostage_at F limit b then how_many (free_at F) (block_pfns F b) else 0) bl)),
         tot_walkUS = of_nat us\<rparr>, []) \<and>
    distinct (map fst rows) \<and>
    set rows = (\<lambda>c. (shown_name (cname c), who_row (exact_row cname cmobile limit F bl c))) ` set (caches_of F bl)"
proof -
  have e: "exact_walk cname cmobile limit keep F bl w"
    unfolding assms(4,5) by (rule walk_memory_walked) (use assms(1-4) in simp_all)
  let ?rows = "map stat_row (wStats w)"
  let ?out = "map (\<lambda>st. (fst (stat_row st), who_row st)) (wStats w)"
  have ok: "rows_ok ?rows" and set: "set ?out = (\<lambda>c. (shown_name (cname c), who_row (exact_row cname cmobile limit F bl c))) ` set (caches_of F bl)"
    using rows_of_walk [OF e assms(6,7)] by blast+
  have out: "map (\<lambda>(nm, st, solo). (nm, st)) ?rows = ?out"
    by (simp add: stat_row_def)
  have some: "?rows \<noteq> []"
    using exact_walkD(1) [OF e] assms(8) by auto
  have lines: "slabwho_file us limit age w = show_totals (walk_totals us w) limit age #
      show_pinned (wBy1 w) (wBy2 w) (wBy3 w) (wNonslab w) (wAllMobile w) # map show_cache ?rows"
    by (simp add: slabwho_file_def)
  have "readSlabwho proc = (Some ?out, walk_totals us w, [])"
    using readSlabwho_reads_module [of ?rows _ _ _ _ _ _ _ _ _ proc, OF ok some lines assms(9,10)] unfolding out .
  moreover have "walk_totals us w = \<lparr>tot_blocks = of_nat (how_many (\<lambda>b. list_ex (validAt F) (block_pfns F b)) bl),
         tot_hostageBlocks = of_nat (how_many (hostage_at F limit) bl),
         tot_hostageFreePages = of_nat (sum_list (map (\<lambda>b. if hostage_at F limit b then how_many (free_at F) (block_pfns F b) else 0) bl)),
         tot_walkUS = of_nat us\<rparr>"
    by (subst exact_walkD(3) [OF e]) (simp add: walk_totals_def exact_totals_def Let_def)
  moreover have "distinct (map fst ?out)"
    using ok unfolding rows_ok_def by (simp add: o_def)
  ultimately have "readSlabwho proc = (Some ?out, \<lparr>tot_blocks = of_nat (how_many (\<lambda>b. list_ex (validAt F) (block_pfns F b)) bl),
         tot_hostageBlocks = of_nat (how_many (hostage_at F limit) bl),
         tot_hostageFreePages = of_nat (sum_list (map (\<lambda>b. if hostage_at F limit b then how_many (free_at F) (block_pfns F b) else 0) bl)),
         tot_walkUS = of_nat us\<rparr>, [])" "distinct (map fst ?out)"
    by simp_all
  then show ?thesis
    using set by blast
qed

definition sample_walk :: walk where
  "sample_walk = walk_memory rev (\<lambda>c. Some (decimal c)) (\<lambda>c. False) 2 True sample_frames [[(1, 8)]]"

lemma sample_names:
  "decimal 7 = ''7''" "decimal 9 = ''9''" "shown_name (Some (decimal 7)) = ''7''" "shown_name (Some (decimal 9)) = ''9''"
proof -
  show d: "decimal 7 = ''7''" "decimal 9 = ''9''"
    by code_simp+
  show "shown_name (Some (decimal 7)) = ''7''" "shown_name (Some (decimal 9)) = ''9''"
    unfolding d shown_name_def name_max_def by simp_all
qed

lemma sample_shown: "shown_name (Some ''7'') = ''7''" "shown_name (Some ''9'') = ''9''"
  unfolding shown_name_def name_max_def by simp_all

lemma sample_row:
  "exact_row (\<lambda>c. Some (decimal c)) (\<lambda>c. False) 2 sample_frames [0, 4] 7 =
     \<lparr>csCache = 7, csName = ''7'', csPages = 2, csHostagePages = 2, csBlocks = 2, csHostageBlocks = 2, csSolo = 1, csMobile = False\<rparr>"
  "exact_row (\<lambda>c. Some (decimal c)) (\<lambda>c. False) 2 sample_frames [0, 4] 9 =
     \<lparr>csCache = 9, csName = ''9'', csPages = 1, csHostagePages = 1, csBlocks = 1, csHostageBlocks = 1, csSolo = 0, csMobile = False\<rparr>"
  by (simp_all add: exact_row_def sample_facts sample_hostages sample_names sample_shown how_many_def)

lemma sample_row_lines:
  "line_ok (show_cache (stat_row \<lparr>csCache = 7, csName = ''7'', csPages = 2, csHostagePages = 2, csBlocks = 2,
     csHostageBlocks = 2, csSolo = 1, csMobile = False\<rparr>))"
  "line_ok (show_cache (stat_row \<lparr>csCache = 9, csName = ''9'', csPages = 1, csHostagePages = 1, csBlocks = 1,
     csHostageBlocks = 1, csSolo = 0, csMobile = False\<rparr>))"
  by (simp_all add: stat_row_def who_row_def show_cache_def line_ok_def decimal.simps)

lemma sample_exact: "exact_walk (\<lambda>c. Some (decimal c)) (\<lambda>c. False) 2 True sample_frames [0, 4] sample_walk"
  using walk_memory_walked [of sample_frames "[[(1, 8)]]" rev] sample_facts by (simp add: sample_walk_def)

lemma sample_lines: "list_all line_ok (slabwho_file 9 2 5 sample_walk)"
proof -
  have rows: "st = exact_row (\<lambda>c. Some (decimal c)) (\<lambda>c. False) 2 sample_frames [0, 4] 7 \<or>
      st = exact_row (\<lambda>c. Some (decimal c)) (\<lambda>c. False) 2 sample_frames [0, 4] 9" if "st \<in> set (wStats sample_walk)" for st
  proof -
    have "csCache st = 7 \<or> csCache st = 9"
      using exact_walkD(1) [OF sample_exact] sample_facts(6) that by auto
    then show ?thesis
      using exact_walkD(2) [OF sample_exact] that by metis
  qed
  have "line_ok (show_cache (stat_row st))" if "st \<in> set (wStats sample_walk)" for st
    using rows [OF that] sample_row_lines unfolding sample_row by blast
  moreover have "line_ok (show_totals (walk_totals 9 sample_walk) 2 5)"
    by (subst exact_walkD(3) [OF sample_exact])
      (simp add: walk_totals_def exact_totals_def show_totals_def line_ok_def decimal.simps Let_def how_many_def
        sample_hostages block_pfns_def free_at_def looks_free_def sample_frames_def upt_rec)
  moreover have "line_ok (show_pinned (wBy1 sample_walk) (wBy2 sample_walk) (wBy3 sample_walk) (wNonslab sample_walk)
      (wAllMobile sample_walk))"
    by (subst (1 2 3 4 5) exact_walkD(3) [OF sample_exact])
      (simp add: exact_totals_def show_pinned_def line_ok_def decimal.simps Let_def how_many_def sample_hostages sample_facts)
  ultimately show ?thesis
    by (simp add: slabwho_file_def list_all_iff)
qed

lemma fragview_reads_walk_witness:
  "map_of (the (fst (readSlabwho (\<lambda>_. Some (unlines (slabwho_file 9 2 5 sample_walk)))))) ''7'' =
   Some \<lparr>wblocks = 2, whostageBlocks = 2, wpages = 2, whostagePages = 2, mobile = False\<rparr>"
proof -
  let ?proc = "\<lambda>_. Some (unlines (slabwho_file 9 2 5 sample_walk))"
  have "word_ok ''7''" "word_ok ''9''"
    by (simp_all add: word_ok_def is_space_def)
  then obtain rows where rows: "fst (readSlabwho ?proc) = Some rows" "distinct (map fst rows)"
    "set rows = (\<lambda>c. (shown_name (Some (decimal c)), who_row (exact_row (\<lambda>c. Some (decimal c)) (\<lambda>c. False) 2 sample_frames [0, 4] c))) ` {7, 9}"
    using fragview_reads_walk [of sample_frames "[0, 4]" rev "[[(1, 8)]]" sample_walk "\<lambda>c. Some (decimal c)" "\<lambda>c. False" 2 True
        9 5 ?proc] sample_facts sample_names sample_lines sample_walk_def by fastforce
  have "(''7'', who_row (exact_row (\<lambda>c. Some (decimal c)) (\<lambda>c. False) 2 sample_frames [0, 4] 7)) \<in> set rows"
    unfolding rows(3) sample_names(3)[symmetric] by blast
  then show ?thesis
    using rows(1,2) by (simp add: sample_row who_row_def)
qed

end
