(* ===== verification/Spec2Isabelle.thy ===== *)
theory Spec2Isabelle
  imports Running Programs Verdicts Stalls Pixels Flagdump Aggregate Slabwalk
begin

text \<open>
  Verification of the programs of zfs-slab-mobility, all under \<^verbatim>\<open>src/packages\<close>.

  \<^bold>\<open>The programs.\<close> \<^verbatim>\<open>fragview\<close> reads \<^verbatim>\<open>/proc/kpageflags\<close>, sorts every page of the machine into a
  class, counts the classes per pageblock and calls a block a hostage if it is nearly empty but
  holds a page that cannot move. Around that map it shows what the kernel says of its memory,
  from a dozen files of \<^verbatim>\<open>/proc\<close> and \<^verbatim>\<open>/sys\<close> and from the module \<^verbatim>\<open>slabwho\<close>. It draws the map in
  characters or, at a kitty terminal, as a picture; writes and reads snapshots; and compares the
  snapshots of several builds against assertions. \<^verbatim>\<open>fragload\<close>, \<^verbatim>\<open>fragcheck\<close> and \<^verbatim>\<open>fragspike\<close> put load
  on a file system and check what it holds, \<^verbatim>\<open>mmapcheck\<close> looks for stalls and stale pages under
  readahead. The load programs share a file set that is made from a seed.

  \<^bold>\<open>How they are modelled.\<close> A struct is a record and a loop a recursive function; a panic or an
  error is the left side of a sum (\<^verbatim>\<open>go_result\<close>). Machine integers are words where they can wrap
  and \<^verbatim>\<open>int\<close> or \<^verbatim>\<open>nat\<close> where the bounds of the data keep them from it. A finite \<^verbatim>\<open>float64\<close> is the
  rational number it stands for and every operation rounds with \<^verbatim>\<open>fl\<close>, to nearest and ties to even.
  A Go string is the list of its bytes. Files, the clock, system calls, the compressors and the
  sorting algorithm of the library are arguments; what is relied on of them is a hypothesis or a
  locale. Goroutines are steps of a state with an explicit schedule, so a theorem about all
  schedules is one about all interleavings.

  \<^bold>\<open>Shared ground.\<close>
  \<^item> \<open>Prelude\<close>: words, \<^verbatim>\<open>go_result\<close>, little-endian bytes, and \<^verbatim>\<open>sort.Slice\<close> as the locale
    \<open>slice_sort\<close> with its extension \<open>stable_sort\<close>, interpreted on insertion sort; programs that take
    steps as the locale \<open>step_system\<close>, interpreted on the session and on the running program.
  \<^item> \<open>Float64\<close>: rounding, with the laws a client needs in the locale \<open>rounding\<close>, interpreted on \<open>fl\<close>.
  \<^item> \<open>GoStr\<close>, \<open>Human\<close>: what is used of \<^verbatim>\<open>strings\<close>, \<^verbatim>\<open>strconv\<close>, \<^verbatim>\<open>bufio\<close> and \<^verbatim>\<open>fmt\<close>; \<^verbatim>\<open>humanBytes\<close> and
    \<^verbatim>\<open>humanCount\<close> of \<^verbatim>\<open>render.go\<close>.

  \<^bold>\<open>From pages to verdicts\<close> (\<^verbatim>\<open>fragview\<close>).
  \<^item> \<open>Kpage\<close>: flags, classes and \<^verbatim>\<open>classify\<close> of \<^verbatim>\<open>kpage.go\<close>.
  \<^item> \<open>BlockMap\<close>: the block map and its scan, \<^verbatim>\<open>kpage.go\<close>; the flag file is the locale \<open>flag_source\<close>,
    interpreted on a file with given bytes. A scan counts exactly the pages of every block.
  \<^item> \<open>Frame\<close>, \<open>MapFrame\<close>: the verdict on a block and the totals, \<^verbatim>\<open>render.go\<close>; the character cells.
  \<^item> \<open>Hostage\<close>: \<^verbatim>\<open>hostage.go\<close>. \<open>Flagdump\<close>: \<^verbatim>\<open>flagdump.go\<close>.
  \<^item> \<open>Slabwho\<close>, \<open>Slabwalk\<close>: the walk of the kernel module, \<^verbatim>\<open>walk_memory\<close> of \<^verbatim>\<open>slabwho.c\<close>, against a count told from the
    page frames alone, and what fragview reads of it. The counters of the module are numbers that do not wrap.
  \<^item> \<open>Stats\<close>, \<open>Merge\<close>: the readers of \<^verbatim>\<open>stats.go\<close> and \<^verbatim>\<open>main.go\<close>, the merged caches of \<^verbatim>\<open>merge.go\<close> and
    the order of the slab table.

  \<^bold>\<open>From verdicts to the screen\<close> (\<^verbatim>\<open>fragview\<close>).
  \<^item> \<open>Layout\<close>, \<open>Window\<close>, \<open>Draw\<close>: blocks and pixels, the window with its keys and pointer, and what a
    repaint changes.
  \<^item> \<open>Bands\<close>, \<open>Pixels\<close>, \<open>Aggregate\<close>: the picture, block by block and zoomed out, on a canvas that says
    what each pixel shows. \<open>Kitty\<close>: its bytes, which refine the canvas, and their way to the terminal,
    where a picture that has not changed is not sent again.
  \<^item> \<open>Styled\<close>, \<open>Panes\<close>, \<open>Screen\<close>: every line of the frame as pieces of text with a style, \<^verbatim>\<open>style.go\<close>,
    \<^verbatim>\<open>render.go\<close> and \<^verbatim>\<open>pixmap.go\<close>. The map of a frame is drawn by the functions of \<open>Draw\<close>, so the state
    the lines leave behind is the one the events go on with.

  \<^bold>\<open>The program in time\<close> (\<^verbatim>\<open>fragview\<close>, \<^verbatim>\<open>main.go\<close>).
  \<^item> \<open>Events\<close>: the scan chain and the messages as steps of the model; \<open>session_ok\<close> is their invariant.
  \<^item> \<open>Startup\<close>: \<^verbatim>\<open>main\<close> with all its modes, \<^verbatim>\<open>collect\<close>, \<^verbatim>\<open>View\<close>, and \<^verbatim>\<open>procroot.go\<close>.
  \<^item> \<open>Running\<close>: both together, with a scan taken apart where a message can come between. From what
    \<^verbatim>\<open>main\<close> starts no step leads to a state that cannot be drawn or scanned.

  \<^bold>\<open>Snapshots and builds\<close> (\<^verbatim>\<open>fragview\<close>).
  \<^item> \<open>Snapshot\<close>: \<^verbatim>\<open>snapshot.go\<close>, down to the bytes of the counters; the round trip from \<^verbatim>\<open>-dump\<close> to
    \<^verbatim>\<open>-load\<close> is in \<open>Startup\<close>.
  \<^item> \<open>Compare\<close>, \<open>Assertions\<close>, \<open>Tables\<close>, \<open>Verdicts\<close>: \<^verbatim>\<open>compare.go\<close>, from the files to the medians per build, the
    verdicts, the exit status and the printed tables.

  \<^bold>\<open>Load and checks.\<close>
  \<^item> \<open>Pool\<close>: workers on a shared counter, the locale \<open>worker_pool\<close> with everything that does not depend on
    the work; interpreted on writing, verifying, reading, mapped copying and loading.
  \<^item> \<open>FileSet\<close>, \<open>FileOps\<close>, \<open>Programs\<close>: \<^verbatim>\<open>fragload\<close> and \<^verbatim>\<open>fragcheck\<close>, from the generator of the contents
    to the exit status. \<open>Spike\<close>, \<open>Programs\<close>: \<^verbatim>\<open>fragspike\<close>, with the memory and descriptors it holds.
  \<^item> \<open>Mmapcheck\<close>, \<open>Pagecheck\<close>, \<open>Stalls\<close>: \<^verbatim>\<open>mmapcheck\<close> with its \<^verbatim>\<open>main\<close>, against a kernel that answers calls.

  \<^bold>\<open>Bounds and fuel.\<close> Page frame numbers are below \<open>2 ^ 52\<close>, a 64-bit address over the page size. No
  definition runs on fuel: the loops that are not structural have a measure (the block map by the
  blocks left, the pieces of a picture by the text left); the loop that takes pixels from the
  tallest band is a partial function whose end is part of what is proved of it; the digits of \<^verbatim>\<open>%g\<close>
  are tried up to the seventeen that always tell two numbers apart. The schedules of the pool are
  lists, of which two turns per item and one more per worker are enough for all workers to
  return. A second on the clock is an element of a list.

  \<^bold>\<open>Not modelled.\<close>
  \<^item> The escape sequences of lipgloss and how it measures runes wider than one column; the message
    loop of bubbletea, of which only the freedom to order the messages is kept.
  \<^item> The JSON of \<^verbatim>\<open>-json\<close>, the JSON text and the gzip of a snapshot (only that empty maps are lost
    in it), and zlib.
  \<^item> Parsing of flags, the usage texts, the printed rates and times of the load programs, real time.
  \<^item> In \<^verbatim>\<open>ParseFloat\<close>: infinities, NaN, hexadecimal numbers and underscores. White space outside ASCII.
  \<^item> In \<^verbatim>\<open>slabwho.c\<close>: the attribution of objects to allocation sites, the probe of the kernel's layout, the age of
    a walk, which runs again when it is old, and the calls of \<^verbatim>\<open>seq_file\<close>.
  \<^item> The numbers of system calls per architecture, the Nix expressions, patches and tests.
\<close>

end
